(* ===== verification/Prelude.thy ===== *)
theory Prelude
  imports Main "HOL-Library.Word" "HOL-Library.Monad_Syntax"
begin

text \<open>
  Shared vocabulary of the development: the driver's integer types, byte buffers with checked
  access, the unaligned-access macros of \<^verbatim>\<open>include/osdep_service.h\<close>, and the generic facts on
  lists, options and words the component theories use.

  A C buffer is the list of the bytes that may be accessed from a pointer on. An access outside
  that list is undefined behaviour in C; every checked access below returns \<^const>\<open>None\<close> there,
  and the option monad propagates it, so "the result is \<^const>\<open>Some\<close>" contains
  "no access was out of bounds".
\<close>

unbundle bit_operations_syntax

type_synonym u8 = "8 word"
type_synonym u16 = "16 word"
type_synonym u32 = "32 word"
type_synonym u64 = "64 word"
type_synonym bytes = "u8 list"

text \<open>The collections the component proofs draw on: \<open>mem_defs\<close> unfolds the checked accesses,
  \<open>mem_simps\<close> evaluates them on buffers given as concatenations.\<close>

named_theorems mem_defs
named_theorems mem_simps

section \<open>Checked access to buffers\<close>

definition rd :: "bytes \<Rightarrow> nat \<Rightarrow> u8 option" where
  "rd b i = (if i < length b then Some (b ! i) else None)"

definition rd_slice :: "bytes \<Rightarrow> nat \<Rightarrow> nat \<Rightarrow> bytes option" where
  "rd_slice b i n = (if i + n \<le> length b then Some (take n (drop i b)) else None)"

definition wr_slice :: "bytes \<Rightarrow> nat \<Rightarrow> bytes \<Rightarrow> bytes option" where
  "wr_slice b i s =
     (if i + length s \<le> length b then Some (take i b @ s @ drop (i + length s) b) else None)"

text \<open>\<^verbatim>\<open>memmove\<close> within one buffer: the source is read before the destination is written.\<close>

definition rtw_memmove :: "bytes \<Rightarrow> nat \<Rightarrow> nat \<Rightarrow> nat \<Rightarrow> bytes option" where
  "rtw_memmove b dst src n = do { s \<leftarrow> rd_slice b src n; wr_slice b dst s }"

text \<open>\<^verbatim>\<open>_rtw_memcmp\<close> answers whether the two ranges are equal.\<close>

definition rtw_memcmp :: "bytes \<Rightarrow> nat \<Rightarrow> bytes \<Rightarrow> bool option" where
  "rtw_memcmp b i pat = do { s \<leftarrow> rd_slice b i (length pat); Some (s = pat) }"

definition RTW_GET_BE16 :: "bytes \<Rightarrow> nat \<Rightarrow> u16 option" where
  "RTW_GET_BE16 b i = do {
     a0 \<leftarrow> rd b i; a1 \<leftarrow> rd b (i + 1);
     Some (push_bit 8 (ucast a0) OR ucast a1) }"

definition RTW_GET_LE16 :: "bytes \<Rightarrow> nat \<Rightarrow> u16 option" where
  "RTW_GET_LE16 b i = do {
     a0 \<leftarrow> rd b i; a1 \<leftarrow> rd b (i + 1);
     Some (push_bit 8 (ucast a1) OR ucast a0) }"

definition RTW_GET_BE24 :: "bytes \<Rightarrow> nat \<Rightarrow> u32 option" where
  "RTW_GET_BE24 b i = do {
     a0 \<leftarrow> rd b i; a1 \<leftarrow> rd b (i + 1); a2 \<leftarrow> rd b (i + 2);
     Some (push_bit 16 (ucast a0) OR push_bit 8 (ucast a1) OR ucast a2) }"

definition RTW_PUT_LE16 :: "u16 \<Rightarrow> bytes" where
  "RTW_PUT_LE16 v = [ucast (v AND 0xff), ucast (drop_bit 8 v)]"

definition RTW_PUT_BE16 :: "u16 \<Rightarrow> bytes" where
  "RTW_PUT_BE16 v = [ucast (drop_bit 8 v), ucast (v AND 0xff)]"

lemmas [mem_defs] = rd_def rd_slice_def wr_slice_def rtw_memmove_def rtw_memcmp_def
  RTW_GET_BE16_def RTW_GET_LE16_def RTW_GET_BE24_def

section \<open>Checked access evaluated\<close>

lemma length_PUT_BE16 [simp]: "length (RTW_PUT_BE16 v) = 2"
  by (simp add: RTW_PUT_BE16_def)

lemma rd_Some_iff: "rd b i = Some x \<longleftrightarrow> i < length b \<and> x = b ! i"
  by (auto simp: rd_def)

lemma rd_None_iff: "rd b i = None \<longleftrightarrow> length b \<le> i"
  by (simp add: rd_def)

lemma rd_in: "i < length b \<Longrightarrow> rd b i = Some (b ! i)"
  by (simp add: rd_def)

lemma rd_slice_in: "i + n \<le> length b \<Longrightarrow> rd_slice b i n = Some (take n (drop i b))"
  by (simp add: rd_slice_def)

lemma rtw_memcmp_in:
  "i + length pat \<le> length b \<Longrightarrow> rtw_memcmp b i pat = Some (take (length pat) (drop i b) = pat)"
  by (simp add: rtw_memcmp_def rd_slice_def)

lemma rd_append_right [mem_simps]: "rd (pre @ b) (length pre + i) = rd b i"
  by (simp add: rd_def nth_append)

lemma rd_append_length [mem_simps]: "rd (pre @ b) (length pre) = rd b 0"
  by (simp add: rd_def nth_append)

lemma rd_Cons_0 [mem_simps]: "rd (x # b) 0 = Some x"
  by (simp add: rd_def)

lemma rd_Cons_Suc [mem_simps]: "rd (x # b) (Suc i) = rd b i"
  by (simp add: rd_def)

lemma rd_slice_append_right [mem_simps]: "rd_slice (pre @ b) (length pre + i) n = rd_slice b i n"
  by (simp add: rd_slice_def)

lemma rd_slice_append_length [mem_simps]: "rd_slice (pre @ b) (length pre) n = rd_slice b 0 n"
  using rd_slice_append_right [of pre b 0 n] by simp

lemma rtw_memcmp_append_right [mem_simps]:
  "rtw_memcmp (pre @ b) (length pre + i) pat = rtw_memcmp b i pat"
  by (simp add: rtw_memcmp_def rd_slice_append_right)

lemma wr_slice_length: "wr_slice b i s = Some b' \<Longrightarrow> length b' = length b"
  by (auto simp: wr_slice_def split: if_splits)

lemma rtw_memmove_length: "rtw_memmove b d s n = Some b' \<Longrightarrow> length b' = length b"
  by (auto simp: rtw_memmove_def dest: wr_slice_length split: bind_splits)

section \<open>Words\<close>

lemma unat_u8_lt [simp]: "unat (x :: u8) < 256"
  using unsigned_less [of x] by simp

lemma unat_u16_lt [simp]: "unat (x :: u16) < 65536"
  using unsigned_less [of x] by simp

lemma unat_of_nat_u8 [simp]: "n < 256 \<Longrightarrow> unat (of_nat n :: u8) = n"
  by (simp add: unat_of_nat)

lemma uint_of_nat_u8 [simp]: "n < 256 \<Longrightarrow> uint (of_nat n :: u8) = int n"
  by (metis uint_nat unat_of_nat_u8)

lemma unat_of_nat_u16 [simp]: "n < 65536 \<Longrightarrow> unat (of_nat n :: u16) = n"
  by (simp add: unat_of_nat)

lemma unat_of_nat_u32 [simp]: "n < 4294967296 \<Longrightarrow> unat (of_nat n :: u32) = n"
  by (simp add: unat_of_nat)

lemma xor_xor_self [simp]: "a XOR (a XOR b) = (b :: 'a :: len word)"
  by (simp flip: xor.assoc)

lemma xor_left_cancel [simp]: "a XOR b = a XOR c \<longleftrightarrow> b = (c :: 'a :: len word)"
  by (metis xor_xor_self)

lemma xor_right_cancel [simp]: "b XOR a = c XOR a \<longleftrightarrow> b = (c :: 'a :: len word)"
  by (simp only: xor.commute [of _ a] xor_left_cancel)

lemma xor_eq_zero_iff [simp]: "a XOR b = 0 \<longleftrightarrow> a = (b :: 'a :: len word)"
  using xor_left_cancel [of a b a] by auto

text \<open>Sixteen-bit values as pairs of bytes.\<close>

lemma le16_eq:
  "(push_bit 8 (ucast (a1 :: u8)) OR ucast (a0 :: u8) :: u16) = of_nat (unat a1 * 256 + unat a0)"
proof -
  have "(push_bit 8 (ucast a1) OR ucast a0 :: u16) = push_bit 8 (ucast a1) + ucast a0"
    by (rule disjunctive_add [symmetric]) (auto simp: bit_simps dest: bit_imp_le_length)
  then show ?thesis by (simp add: push_bit_eq_mult)
qed

lemma unat_le16:
  "unat (push_bit 8 (ucast (a1 :: u8)) OR ucast (a0 :: u8) :: u16) = unat a1 * 256 + unat a0"
proof -
  have "unat a1 * 256 + unat a0 < 65536"
    using unat_u8_lt [of a1] unat_u8_lt [of a0] by linarith
  then show ?thesis by (simp only: le16_eq unat_of_nat_u16)
qed

lemma mask8_u16: "(0xff :: u16) = mask 8"
  by (simp add: mask_eq_exp_minus_1)

lemma le16_split [simp]:
  "(push_bit 8 (ucast (ucast (drop_bit 8 v) :: u8)) OR ucast (ucast (v AND 0xff) :: u8)) = (v :: u16)"
  unfolding mask8_u16 by (rule bit_eqI) (auto simp: bit_simps not_le)

lemma le16_join:
  "ucast ((push_bit 8 (ucast (a1 :: u8)) OR ucast (a0 :: u8) :: u16) AND 0xff) = a0"
  "ucast (drop_bit 8 (push_bit 8 (ucast (a1 :: u8)) OR ucast (a0 :: u8) :: u16)) = a1"
  unfolding mask8_u16 by (rule bit_eqI; auto simp: bit_simps dest: bit_imp_le_length)+

lemma le16_inject:
  "(push_bit 8 (ucast (a1 :: u8)) OR ucast (a0 :: u8) :: u16) = push_bit 8 (ucast (b1 :: u8)) OR ucast (b0 :: u8)
     \<longleftrightarrow> a0 = b0 \<and> a1 = b1"
  using le16_join by metis

section \<open>Loops that may not return\<close>

text \<open>
  The result of code that may loop for ever: \<^const>\<open>None\<close> is not returning at all. Code that
  returns either leaves its buffers on the way (\<open>Fault\<close>) or has a value (\<open>Ret\<close>).
\<close>

datatype 'a outcome = Fault | Ret 'a

type_synonym 'a run = "'a outcome option"

definition checked :: "'a option \<Rightarrow> 'a run" where
  "checked r = Some (case r of None \<Rightarrow> Fault | Some v \<Rightarrow> Ret v)"

lemma checked_simps [simp]: "checked None = Some Fault" "checked (Some v) = Some (Ret v)"
  by (simp_all add: checked_def)

text \<open>Subtraction of unsigned ints, for operands below \<open>2 ^ 32\<close>.\<close>

definition uint_sub :: "nat \<Rightarrow> nat \<Rightarrow> nat" where
  "uint_sub a b = (if b \<le> a then a - b else 4294967296 - (b - a))"

lemma uint_sub_ge [simp]: "b \<le> a \<Longrightarrow> uint_sub a b = a - b"
  by (simp add: uint_sub_def)

lemma uint_sub_word:
  assumes "a < 4294967296" and "b < 4294967296"
  shows "unat (of_nat a - of_nat b :: u32) = uint_sub a b"
  using assms by (auto simp add: unat_sub_if_size uint_sub_def word_size)

text \<open>An unsigned int below \<open>2 ^ 32\<close> passed where an int is expected.\<close>

definition to_sint :: "nat \<Rightarrow> int" where
  "to_sint n = (if n < 2147483648 then int n else int n - 4294967296)"

lemma to_sint_small [simp]: "n < 2147483648 \<Longrightarrow> to_sint n = int n"
  by (simp add: to_sint_def)

section \<open>Case distinction below a numeral\<close>

lemma less_numeral_iff: "n < numeral k \<longleftrightarrow> n = pred_numeral k \<or> n < pred_numeral k"
  by (simp add: numeral_eq_Suc less_Suc_eq disj_commute)

lemmas less_numeral_cases = less_numeral_iff pred_numeral_simps BitM.simps numeral_One less_one

end
