(* ===== verification/Ie_Tlv.thy ===== *)
theory Ie_Tlv
  imports Prelude
begin

text \<open>
  Information elements (\<^verbatim>\<open>core/rtw_ieee80211.c\<close>): writing an element (\<open>rtw_set_ie\<close> and its
  callers) and searching a series of elements (\<open>rtw_get_ie\<close>, \<open>rtw_get_ie_ex\<close>, the WPA, WPS, P2P,
  WFD and OWE searches), and removing elements in place (\<open>rtw_ies_remove_ie\<close>).

  An element is one byte of identifier, one byte of length and the data. The abstract view of a
  buffer is the list of its elements (type \<open>tlv\<close>, encoded by \<open>tlvs_enc\<close>); the locale \<open>tlv_scan\<close>
  states what the searches have in common, and each search of the code is an interpretation of it.

  A pointer returned into a buffer is the offset from the buffer's start. A pointer parameter
  that may be NULL is an option value. Out-parameters are returned.
\<close>

section \<open>Constants\<close>

definition WLAN_EID_VENDOR_SPECIFIC :: u8 where "WLAN_EID_VENDOR_SPECIFIC = 221"
definition WLAN_EID_EXTENSION :: u8 where "WLAN_EID_EXTENSION = 255"
definition WLAN_EID_EXT_OWE_DH_PARAM :: u8 where "WLAN_EID_EXT_OWE_DH_PARAM = 32"
definition MAX_IE_SZ :: nat where "MAX_IE_SZ = 768"

definition wpa_oui_type :: bytes where "wpa_oui_type = [0x00, 0x50, 0xf2, 0x01]"
definition wps_oui :: bytes where "wps_oui = [0x00, 0x50, 0xf2, 0x04]"
definition p2p_oui :: bytes where "p2p_oui = [0x50, 0x6f, 0x9a, 0x09]"
definition wfd_oui :: bytes where "wfd_oui = [0x50, 0x6f, 0x9a, 0x0a]"

lemmas oui_defs = wpa_oui_type_def wps_oui_def p2p_oui_def wfd_oui_def

section \<open>Writing elements\<close>

text \<open>\<open>rtw_set_fixed_ie\<close>: copy \<open>len\<close> bytes to position \<open>pos\<close> of the frame buffer and advance the
  frame length.\<close>

definition rtw_set_fixed_ie :: "bytes \<Rightarrow> nat \<Rightarrow> nat \<Rightarrow> bytes \<Rightarrow> nat \<Rightarrow> (bytes \<times> nat \<times> nat) option" where
  "rtw_set_fixed_ie pbuf pos len source frlen = do {
     s \<leftarrow> rd_slice source 0 len;
     pbuf' \<leftarrow> wr_slice pbuf pos s;
     Some (pbuf', pos + len, frlen + len) }"

text \<open>\<open>rtw_set_ie\<close>: the identifier is an int and the length an unsigned int; both are stored as
  one byte each, while \<open>len\<close> bytes are copied. The result is the buffer, the position after the
  element and the frame length (\<^const>\<open>None\<close> for a NULL \<open>frlen\<close>).\<close>

definition rtw_set_ie ::
  "bytes \<Rightarrow> nat \<Rightarrow> int \<Rightarrow> nat \<Rightarrow> bytes \<Rightarrow> nat option \<Rightarrow> (bytes \<times> nat \<times> nat option) option" where
  "rtw_set_ie pbuf pos index len source frlen = do {
     b1 \<leftarrow> wr_slice pbuf pos [word_of_int index];
     b2 \<leftarrow> wr_slice b1 (pos + 1) [word_of_nat len];
     b3 \<leftarrow> (if len > 0 then do { s \<leftarrow> rd_slice source 0 len; wr_slice b2 (pos + 2) s } else Some b2);
     Some (b3, pos + len + 2, map_option (\<lambda>f. f + (len + 2)) frlen) }"

definition rtw_set_ie_ch_switch ::
  "bytes \<Rightarrow> nat \<Rightarrow> nat option \<Rightarrow> u8 \<Rightarrow> u8 \<Rightarrow> u8 \<Rightarrow> (bytes \<times> nat \<times> nat option) option" where
  "rtw_set_ie_ch_switch buf pos buf_len ch_switch_mode new_ch ch_switch_cnt =
     rtw_set_ie buf pos 37 3 [ch_switch_mode, new_ch, ch_switch_cnt] buf_len"

definition rtw_set_ie_secondary_ch_offset ::
  "bytes \<Rightarrow> nat \<Rightarrow> nat option \<Rightarrow> u8 \<Rightarrow> (bytes \<times> nat \<times> nat option) option" where
  "rtw_set_ie_secondary_ch_offset buf pos buf_len secondary_ch_offset =
     rtw_set_ie buf pos 62 1 [secondary_ch_offset] buf_len"

definition rtw_set_ie_mesh_ch_switch_parm ::
  "bytes \<Rightarrow> nat \<Rightarrow> nat option \<Rightarrow> u8 \<Rightarrow> u8 \<Rightarrow> u16 \<Rightarrow> u16 \<Rightarrow> (bytes \<times> nat \<times> nat option) option" where
  "rtw_set_ie_mesh_ch_switch_parm buf pos buf_len ttl flags reason precedence =
     rtw_set_ie buf pos 0x118 6
       ([ttl, flags] @ RTW_PUT_LE16 reason @ RTW_PUT_LE16 precedence) buf_len"

section \<open>Searching elements\<close>

text \<open>The loop of \<open>rtw_get_ie\<close> (a do-while loop: the guard is tested after the step).\<close>

function get_ie_loop :: "bytes \<Rightarrow> int \<Rightarrow> int \<Rightarrow> nat \<Rightarrow> nat option option" where
  "get_ie_loop pbuf index limit i = do {
     b \<leftarrow> rd pbuf i;
     if uint b = index then Some (Some i)
     else do {
       tmp \<leftarrow> rd pbuf (i + 1);
       if limit \<le> int (i + (unat tmp + 2)) then Some None
       else get_ie_loop pbuf index limit (i + (unat tmp + 2)) } }"
  by pat_completeness auto
termination
  by (relation "measure (\<lambda>(pbuf, index, limit, i). nat limit - i)") (rule wf_measure, unfold in_measure prod.case, arith)

declare get_ie_loop.simps [simp del]

text \<open>\<open>rtw_get_ie\<close> returns the address of the element and its length through \<open>len\<close>, which keeps
  the caller's value when \<open>limit\<close> is below one.\<close>

definition rtw_get_ie :: "bytes \<Rightarrow> int \<Rightarrow> int \<Rightarrow> int \<Rightarrow> (nat option \<times> int) option" where
  "rtw_get_ie pbuf index len limit =
     (if limit < 1 then Some (None, len)
      else do {
        r \<leftarrow> get_ie_loop pbuf index limit 0;
        (case r of
           None \<Rightarrow> Some (None, 0)
         | Some p \<Rightarrow> do { l \<leftarrow> rd pbuf (p + 1); Some (Some p, uint l) }) })"

text \<open>\<open>rtw_get_ie_ex\<close>: the identifier and, unless \<open>oui\<close> is NULL, the first \<open>oui_len\<close> bytes of
  the data have to match. The result is the address, the copy made when \<open>ie\<close> is not NULL
  (\<open>want_ie\<close>) and the length of the whole element.\<close>

definition get_ie_ex_hit :: "u8 \<Rightarrow> bytes option \<Rightarrow> bytes \<Rightarrow> nat \<Rightarrow> bool option" where
  "get_ie_ex_hit eid oui in_ie cnt = do {
     e \<leftarrow> rd in_ie cnt;
     if eid = e then (case oui of None \<Rightarrow> Some True | Some o' \<Rightarrow> rtw_memcmp in_ie (cnt + 2) o')
     else Some False }"

function get_ie_ex_loop :: "bytes \<Rightarrow> nat \<Rightarrow> u8 \<Rightarrow> bytes option \<Rightarrow> nat \<Rightarrow> nat option option" where
  "get_ie_ex_loop in_ie in_len eid oui cnt =
     (if cnt < in_len then do {
        h \<leftarrow> get_ie_ex_hit eid oui in_ie cnt;
        if h then Some (Some cnt)
        else do { l \<leftarrow> rd in_ie (cnt + 1); get_ie_ex_loop in_ie in_len eid oui (cnt + (unat l + 2)) } }
      else Some None)"
  by pat_completeness auto
termination
  by (relation "measure (\<lambda>(in_ie, in_len, eid, oui, cnt). in_len - cnt)") auto

declare get_ie_ex_loop.simps [simp del]

definition copy_ie :: "bytes \<Rightarrow> bool \<Rightarrow> nat option \<Rightarrow> (nat option \<times> bytes \<times> nat) option" where
  "copy_ie in_ie want_ie r =
     (case r of
        None \<Rightarrow> Some (None, [], 0)
      | Some p \<Rightarrow> do {
          l \<leftarrow> rd in_ie (p + 1);
          c \<leftarrow> (if want_ie then rd_slice in_ie p (unat l + 2) else Some []);
          Some (Some p, c, unat l + 2) })"

definition rtw_get_ie_ex ::
  "bytes option \<Rightarrow> nat \<Rightarrow> u8 \<Rightarrow> bytes option \<Rightarrow> bool \<Rightarrow> (nat option \<times> bytes \<times> nat) option" where
  "rtw_get_ie_ex in_ie in_len eid oui want_ie =
     (case in_ie of
        None \<Rightarrow> Some (None, [], 0)
      | Some b \<Rightarrow>
          if in_len = 0 then Some (None, [], 0)
          else do { r \<leftarrow> get_ie_ex_loop b in_len eid oui 0; copy_ie b want_ie r })"

text \<open>The loop of \<open>rtw_get_wps_ie\<close>, \<open>rtw_get_p2p_ie\<close> and \<open>rtw_get_wfd_ie\<close>, which differ in the
  vendor prefix only, and the one of \<open>rtw_get_owe_ie\<close>. All of them stop when fewer than six bytes
  are left, and give up at \<open>MAX_IE_SZ\<close>.\<close>

definition vendor_hit :: "bytes \<Rightarrow> bytes \<Rightarrow> nat \<Rightarrow> bool option" where
  "vendor_hit oui in_ie cnt = do {
     eid \<leftarrow> rd in_ie cnt;
     if eid = WLAN_EID_VENDOR_SPECIFIC then rtw_memcmp in_ie (cnt + 2) oui else Some False }"

definition owe_hit :: "bytes \<Rightarrow> nat \<Rightarrow> bool option" where
  "owe_hit in_ie cnt = do {
     eid \<leftarrow> rd in_ie cnt;
     if eid = WLAN_EID_EXTENSION
     then do { x \<leftarrow> rd in_ie (cnt + 2); Some (x = WLAN_EID_EXT_OWE_DH_PARAM) }
     else Some False }"

function ie_search_loop :: "(bytes \<Rightarrow> nat \<Rightarrow> bool option) \<Rightarrow> bytes \<Rightarrow> nat \<Rightarrow> nat \<Rightarrow> nat option option" where
  "ie_search_loop hit in_ie in_len cnt =
     (if cnt + 1 + 4 < in_len then
        (if MAX_IE_SZ \<le> cnt + 1 + 4 then Some None
         else do {
           h \<leftarrow> hit in_ie cnt;
           if h then Some (Some cnt)
           else do { l \<leftarrow> rd in_ie (cnt + 1); ie_search_loop hit in_ie in_len (cnt + (unat l + 2)) } })
      else Some None)"
  by pat_completeness auto
termination
  by (relation "measure (\<lambda>(hit, in_ie, in_len, cnt). in_len - cnt)") auto

declare ie_search_loop.simps [simp del]

definition rtw_get_wps_ie :: "bytes option \<Rightarrow> nat \<Rightarrow> bool \<Rightarrow> (nat option \<times> bytes \<times> nat) option" where
  "rtw_get_wps_ie in_ie in_len want_ie =
     (case in_ie of
        None \<Rightarrow> Some (None, [], 0)
      | Some b \<Rightarrow>
          if in_len = 0 then Some (None, [], 0)
          else do { r \<leftarrow> ie_search_loop (vendor_hit wps_oui) b in_len 0; copy_ie b want_ie r })"

text \<open>The P2P and WFD searches take a signed length.\<close>

definition rtw_get_p2p_ie :: "bytes option \<Rightarrow> int \<Rightarrow> bool \<Rightarrow> (nat option \<times> bytes \<times> nat) option" where
  "rtw_get_p2p_ie in_ie in_len want_ie =
     (case in_ie of
        None \<Rightarrow> Some (None, [], 0)
      | Some b \<Rightarrow>
          if in_len \<le> 0 then Some (None, [], 0)
          else do { r \<leftarrow> ie_search_loop (vendor_hit p2p_oui) b (nat in_len) 0; copy_ie b want_ie r })"

definition rtw_get_wfd_ie :: "bytes option \<Rightarrow> int \<Rightarrow> bool \<Rightarrow> (nat option \<times> bytes \<times> nat) option" where
  "rtw_get_wfd_ie in_ie in_len want_ie =
     (case in_ie of
        None \<Rightarrow> Some (None, [], 0)
      | Some b \<Rightarrow>
          if in_len \<le> 0 then Some (None, [], 0)
          else do { r \<leftarrow> ie_search_loop (vendor_hit wfd_oui) b (nat in_len) 0; copy_ie b want_ie r })"

definition rtw_get_owe_ie :: "bytes option \<Rightarrow> nat \<Rightarrow> bool \<Rightarrow> (nat option \<times> bytes \<times> nat) option" where
  "rtw_get_owe_ie in_ie in_len want_ie =
     (case in_ie of
        None \<Rightarrow> Some (None, [], 0)
      | Some b \<Rightarrow>
          if in_len = 0 then Some (None, [], 0)
          else do { r \<leftarrow> ie_search_loop owe_hit b in_len 0; copy_ie b want_ie r })"

text \<open>\<open>rtw_get_wps_ie_from_scan_queue\<close>: beacons and probe responses carry twelve fixed bytes,
  which are subtracted from the unsigned length.\<close>

definition sub12 :: "nat \<Rightarrow> nat" where
  "sub12 in_len = unat (word_of_nat in_len - 12 :: u32)"

datatype bss_type = BSS_TYPE_UNDEF | BSS_TYPE_PROB_REQ | BSS_TYPE_BCN | BSS_TYPE_PROB_RSP

definition rtw_get_wps_ie_from_scan_queue ::
  "bytes \<Rightarrow> nat \<Rightarrow> bool \<Rightarrow> bss_type \<Rightarrow> (nat option \<times> bytes \<times> nat) option option" where
  "rtw_get_wps_ie_from_scan_queue in_ie in_len want_ie frame_type =
     (case frame_type of
        BSS_TYPE_BCN \<Rightarrow> map_option Some (rtw_get_wps_ie (Some (drop 12 in_ie)) (sub12 in_len) want_ie)
      | BSS_TYPE_PROB_RSP \<Rightarrow> map_option Some (rtw_get_wps_ie (Some (drop 12 in_ie)) (sub12 in_len) want_ie)
      | BSS_TYPE_PROB_REQ \<Rightarrow> map_option Some (rtw_get_wps_ie (Some in_ie) in_len want_ie)
      | BSS_TYPE_UNDEF \<Rightarrow> Some None)"

text \<open>\<open>rtw_get_wpa_ie\<close>: vendor elements are visited with \<open>rtw_get_ie\<close>; the WPA one has the
  Microsoft prefix of type 1 and version 1. \<open>limit_new\<close> of the code is \<open>limit\<close> less the position
  of \<open>pbuf\<close>.\<close>

function get_wpa_ie_loop :: "bytes \<Rightarrow> int \<Rightarrow> nat \<Rightarrow> (nat option \<times> int) option" where
  "get_wpa_ie_loop pie limit pos = do {
     (r, len) \<leftarrow> rtw_get_ie (drop pos pie) 0xdd 0 (limit - int pos);
     (case r of
        None \<Rightarrow> Some (None, 0)
      | Some q \<Rightarrow> do {
          oui_ok \<leftarrow> rtw_memcmp pie (pos + q + 2) wpa_oui_type;
          ver_ok \<leftarrow> (if oui_ok then do { v \<leftarrow> RTW_GET_LE16 pie (pos + q + 6); Some (v = 1) } else Some False);
          if ver_ok then do { l \<leftarrow> rd pie (pos + q + 1); Some (Some (pos + q), uint l) }
          else if limit - int (pos + q + 2 + nat len) \<le> 0 then Some (None, 0)
          else get_wpa_ie_loop pie limit (pos + q + 2 + nat len) }) }"
  by pat_completeness auto
termination
  by (relation "measure (\<lambda>(pie, limit, pos). nat limit - pos)") (rule wf_measure, unfold in_measure prod.case, arith)

declare get_wpa_ie_loop.simps [simp del]

definition rtw_get_wpa_ie :: "bytes \<Rightarrow> int \<Rightarrow> (nat option \<times> int) option" where
  "rtw_get_wpa_ie pie limit = get_wpa_ie_loop pie limit 0"

definition rtw_get_wpa2_ie :: "bytes \<Rightarrow> int \<Rightarrow> int \<Rightarrow> (nat option \<times> int) option" where
  "rtw_get_wpa2_ie pie rsn_ie_len limit = rtw_get_ie pie 0x30 rsn_ie_len limit"

section \<open>Removing elements in place\<close>

text \<open>The loop of \<open>rtw_ies_remove_ie\<close>. \<open>start\<close> is the position the search goes on from,
  \<open>search_len\<close> what is left. When the found element runs past \<open>search_len\<close> the unsigned
  \<open>remain_len\<close> of the code wraps to almost 4 GiB and the move leaves every buffer: \<^const>\<open>None\<close>.\<close>

function ies_remove_loop ::
  "bytes \<Rightarrow> nat \<Rightarrow> nat \<Rightarrow> nat \<Rightarrow> u8 \<Rightarrow> bytes option \<Rightarrow> bool \<Rightarrow> (bool \<times> bytes \<times> nat) option" where
  "ies_remove_loop ies ies_len start search_len eid oui ret = do {
     (t, c, target_ielen) \<leftarrow> rtw_get_ie_ex (Some (drop start ies)) search_len eid oui False;
     (case t of
        None \<Rightarrow> Some (ret, ies, ies_len)
      | Some q \<Rightarrow>
          if target_ielen = 0 then Some (ret, ies, ies_len)
          else if search_len < q + target_ielen then None
          else do {
            ies' \<leftarrow> rtw_memmove ies (start + q) (start + q + target_ielen) (search_len - (q + target_ielen));
            ies_remove_loop ies' (ies_len - target_ielen) (start + q)
              (search_len - (q + target_ielen)) eid oui True }) }"
  by pat_completeness auto
termination
  by (relation "measure (\<lambda>(ies, ies_len, start, search_len, eid, oui, ret). search_len)") auto

declare ies_remove_loop.simps [simp del]

text \<open>The result is \<open>_SUCCESS\<close> or \<open>_FAIL\<close> as a truth value, the buffer and the new length.\<close>

definition rtw_ies_remove_ie ::
  "bytes option \<Rightarrow> nat option \<Rightarrow> nat \<Rightarrow> u8 \<Rightarrow> bytes option \<Rightarrow> (bool \<times> bytes option \<times> nat option) option" where
  "rtw_ies_remove_ie ies ies_len offset eid oui =
     (case (ies, ies_len) of
        (Some b, Some n) \<Rightarrow>
          if n \<le> offset then Some (False, ies, ies_len)
          else do {
            (ret, b', n') \<leftarrow> ies_remove_loop b n offset (n - offset) eid oui False;
            Some (ret, Some b', Some n') }
      | _ \<Rightarrow> Some (False, ies, ies_len))"


section \<open>The abstract view: a list of elements\<close>

type_synonym tlv = "u8 \<times> bytes"

definition tlv_wf :: "tlv \<Rightarrow> bool" where
  "tlv_wf t \<longleftrightarrow> length (snd t) < 256"

definition tlv_enc :: "tlv \<Rightarrow> bytes" where
  "tlv_enc t = fst t # word_of_nat (length (snd t)) # snd t"

fun tlvs_enc :: "tlv list \<Rightarrow> bytes" where
  "tlvs_enc [] = []"
| "tlvs_enc (t # ts) = tlv_enc t @ tlvs_enc ts"

text \<open>The specification of a search: offset and value of the first element that is selected.\<close>

fun tlv_first :: "(tlv \<Rightarrow> bool) \<Rightarrow> tlv list \<Rightarrow> nat \<Rightarrow> (nat \<times> tlv) option" where
  "tlv_first sel [] off = None"
| "tlv_first sel (t # ts) off =
     (if sel t then Some (off, t) else tlv_first sel ts (off + (length (snd t) + 2)))"

text \<open>An element has the selected identifier and starts with the selected prefix.\<close>

definition tlv_match :: "u8 \<Rightarrow> bytes option \<Rightarrow> tlv \<Rightarrow> bool" where
  "tlv_match eid oui t \<longleftrightarrow> fst t = eid \<and>
     (case oui of None \<Rightarrow> True | Some p \<Rightarrow> take (length p) (snd t) = p)"

text \<open>An element with the selected identifier is long enough to hold the prefix.\<close>

definition tlv_room :: "u8 \<Rightarrow> nat \<Rightarrow> tlv \<Rightarrow> bool" where
  "tlv_room eid n t \<longleftrightarrow> (fst t = eid \<longrightarrow> n \<le> length (snd t))"

lemma length_tlv_enc [simp]: "length (tlv_enc t) = length (snd t) + 2"
  by (simp add: tlv_enc_def)

lemma tlvs_enc_append [simp]: "tlvs_enc (xs @ ys) = tlvs_enc xs @ tlvs_enc ys"
  by (induction xs) auto

lemma rd_tlv_0 [mem_simps]: "rd (tlv_enc t @ post) 0 = Some (fst t)"
  by (simp add: tlv_enc_def mem_simps)

lemma rd_tlv_1 [mem_simps]: "rd (tlv_enc t @ post) (Suc 0) = Some (word_of_nat (length (snd t)))"
  by (simp add: tlv_enc_def mem_simps)

lemma rd_tlv_len [mem_simps]:
  "rd (pre @ tlv_enc t @ post) (Suc (length pre)) = Some (word_of_nat (length (snd t)))"
  using rd_append_right [of pre _ 1] by (simp add: tlv_enc_def mem_simps)

lemma memcmp_tlv [mem_simps]:
  assumes "length p \<le> length (snd t)"
  shows "rtw_memcmp (pre @ tlv_enc t @ post) (Suc (Suc (length pre))) p =
           Some (take (length p) (snd t) = p)"
  using assms rtw_memcmp_append_right [of pre _ 2] by (simp add: rtw_memcmp_in tlv_enc_def)

lemma tlv_first_bounds:
  "tlv_first sel ts off = Some (p, t) \<Longrightarrow>
     off \<le> p \<and> p + (length (snd t) + 2) \<le> off + length (tlvs_enc ts) \<and> sel t \<and> t \<in> set ts"
  by (induction ts arbitrary: off) (force split: if_splits)+

lemma tlv_first_None: "tlv_first sel ts off = None \<longleftrightarrow> (\<forall>t \<in> set ts. \<not> sel t)"
  by (induction ts arbitrary: off) auto

lemma tlv_first_append:
  "\<forall>u \<in> set us. \<not> sel u \<Longrightarrow> tlv_first sel (us @ ts) off = tlv_first sel ts (off + length (tlvs_enc us))"
  by (induction us arbitrary: off) (auto simp: add.assoc)

lemma tlv_first_split:
  "tlv_first sel ts off = Some (p, t) \<Longrightarrow>
     \<exists>us vs. ts = us @ t # vs \<and> p = off + length (tlvs_enc us) \<and> (\<forall>u \<in> set us. \<not> sel u) \<and> sel t"
proof (induction ts arbitrary: off)
  case Nil
  then show ?case by simp
next
  case (Cons a ts)
  show ?case
  proof (cases "sel a")
    case True
    with Cons.prems show ?thesis by (intro exI [of _ "[]"] exI [of _ ts]) auto
  next
    case False
    with Cons.prems obtain us vs where "ts = us @ t # vs"
      "p = off + (length (snd a) + 2) + length (tlvs_enc us)" "\<forall>u \<in> set us. \<not> sel u" "sel t"
      using Cons.IH by fastforce
    with False show ?thesis by (intro exI [of _ "a # us"] exI [of _ vs]) auto
  qed
qed

section \<open>What the searches have in common\<close>

text \<open>
  The operations of a search: the loop (\<open>scan\<close>, from an offset, under a length), its guard and
  the test of one position (\<open>hit\<close>). The laws: the loop is the one of the source, the guard is
  monotone and admits every selected element that lies within an admitted length (\<open>fits\<close>), and
  the test answers \<open>sel\<close> on an encoded element that is \<open>ok\<close>.
\<close>

locale tlv_scan =
  fixes scan :: "bytes \<Rightarrow> nat \<Rightarrow> nat \<Rightarrow> nat option option"
    and guard :: "nat \<Rightarrow> nat \<Rightarrow> bool"
    and hit :: "bytes \<Rightarrow> nat \<Rightarrow> bool option"
    and sel :: "tlv \<Rightarrow> bool"
    and ok :: "tlv \<Rightarrow> bool"
    and fits :: "nat \<Rightarrow> bool"
  assumes scan_unfold: "scan b n i =
      (if guard n i then do {
         h \<leftarrow> hit b i;
         if h then Some (Some i) else do { l \<leftarrow> rd b (i + 1); scan b n (i + (unat l + 2)) } }
       else Some None)"
    and guard_mono: "guard n j \<Longrightarrow> i \<le> j \<Longrightarrow> guard n i"
    and guard_sel: "sel t \<Longrightarrow> ok t \<Longrightarrow> fits n \<Longrightarrow> i + (length (snd t) + 2) \<le> n \<Longrightarrow> guard n i"
    and guard_end: "guard n i \<Longrightarrow> i < n"
    and hit_tlv: "tlv_wf t \<Longrightarrow> ok t \<Longrightarrow> hit (pre @ tlv_enc t @ post) (length pre) = Some (sel t)"
begin

lemma scan_stuck:
  assumes "\<not> guard n off" and "fits n" and "list_all ok ts" and "off + length (tlvs_enc ts) \<le> n"
  shows "tlv_first sel ts off = None"
proof (cases "tlv_first sel ts off")
  case (Some r)
  obtain p t where r: "r = (p, t)" by (cases r)
  with Some have "off \<le> p" "p + (length (snd t) + 2) \<le> n" "sel t" "t \<in> set ts"
    using tlv_first_bounds [of sel ts off p t] assms(4) by auto
  with assms(2,3) have "guard n p" by (auto intro: guard_sel simp: list_all_iff)
  with \<open>off \<le> p\<close> assms(1) show ?thesis using guard_mono by blast
qed simp

lemma scan_tlvs:
  assumes "list_all tlv_wf ts" and "list_all ok ts" and "fits n"
    and "length pre + length (tlvs_enc ts) = n"
  shows "scan (pre @ tlvs_enc ts @ post) n (length pre) =
           Some (map_option fst (tlv_first sel ts (length pre)))"
  using assms
proof (induction ts arbitrary: pre)
  case Nil
  show ?case
  proof (cases "guard n (length pre)")
    case True
    then show ?thesis using Nil guard_end by fastforce
  qed (simp add: scan_unfold)
next
  case (Cons t ts)
  let ?b = "pre @ tlv_enc t @ tlvs_enc ts @ post"
  show ?case
  proof (cases "guard n (length pre)")
    case False
    with Cons.prems have "tlv_first sel (t # ts) (length pre) = None"
      by (intro scan_stuck) auto
    with False show ?thesis by (simp add: scan_unfold del: tlv_first.simps)
  next
    case True
    have hit: "hit ?b (length pre) = Some (sel t)"
      using Cons.prems by (intro hit_tlv) auto
    show ?thesis
    proof (cases "sel t")
      case True
      with hit \<open>guard n (length pre)\<close> show ?thesis by (simp add: scan_unfold)
    next
      case False
      have "scan ?b n (length pre) = scan ?b n (length pre + (length (snd t) + 2))"
        using hit False True Cons.prems rd_tlv_len [of pre t]
        by (subst scan_unfold) (simp add: tlv_wf_def)
      also have "\<dots> = scan ((pre @ tlv_enc t) @ tlvs_enc ts @ post) n (length (pre @ tlv_enc t))"
        by simp
      also have "\<dots> = Some (map_option fst (tlv_first sel ts (length (pre @ tlv_enc t))))"
        using Cons.prems by (intro Cons.IH) auto
      finally show ?thesis using False by simp
    qed
  qed
qed

end

section \<open>The searches of the code are such searches\<close>

interpretation get_ie: tlv_scan
  "\<lambda>b n i. if i < n then get_ie_loop b index (int n) i else Some None"
  "\<lambda>n i. i < n" "\<lambda>b i. do { x \<leftarrow> rd b i; Some (uint x = index) }"
  "\<lambda>t. uint (fst t) = index" "\<lambda>_. True" "\<lambda>_. True" for index
proof (unfold_locales, goal_cases)
  case (1 b n i)
  show ?case
    by (subst get_ie_loop.simps)
      (auto simp del: of_nat_add of_nat_Suc simp: of_nat_le_iff split: bind_split)
next
  case (5 t pre post)
  then show ?case by (simp add: mem_simps)
qed auto

interpretation get_ie_ex: tlv_scan
  "\<lambda>b n. get_ie_ex_loop b n eid oui" "\<lambda>n i. i < n" "get_ie_ex_hit eid oui" "tlv_match eid oui"
  "tlv_room eid (case oui of None \<Rightarrow> 0 | Some p \<Rightarrow> length p)" "\<lambda>_. True" for eid oui
proof (unfold_locales, goal_cases)
  case (1 b n i)
  show ?case by (subst get_ie_ex_loop.simps) simp
next
  case (5 t pre post)
  then show ?case
    by (cases oui) (auto simp: get_ie_ex_hit_def tlv_match_def tlv_room_def mem_simps)
qed auto

lemma vendor_scan:
  assumes "length p = 4"
  shows "tlv_scan (ie_search_loop (vendor_hit p)) (\<lambda>n i. i + 5 < n \<and> i + 5 < MAX_IE_SZ)
           (vendor_hit p) (tlv_match WLAN_EID_VENDOR_SPECIFIC (Some p))
           (tlv_room WLAN_EID_VENDOR_SPECIFIC 4) (\<lambda>n. n \<le> MAX_IE_SZ)"
proof (unfold_locales, goal_cases)
  case (1 b n i)
  show ?case by (subst ie_search_loop.simps) (simp add: not_le)
next
  case (5 t pre post)
  with assms show ?case
    by (auto simp: vendor_hit_def tlv_match_def tlv_room_def mem_simps)
qed (auto simp: tlv_match_def tlv_room_def)

interpretation get_wps_ie: tlv_scan
  "ie_search_loop (vendor_hit wps_oui)" "\<lambda>n i. i + 5 < n \<and> i + 5 < MAX_IE_SZ" "vendor_hit wps_oui"
  "tlv_match WLAN_EID_VENDOR_SPECIFIC (Some wps_oui)" "tlv_room WLAN_EID_VENDOR_SPECIFIC 4"
  "\<lambda>n. n \<le> MAX_IE_SZ"
  by (rule vendor_scan) (simp add: oui_defs)

interpretation get_p2p_ie: tlv_scan
  "ie_search_loop (vendor_hit p2p_oui)" "\<lambda>n i. i + 5 < n \<and> i + 5 < MAX_IE_SZ" "vendor_hit p2p_oui"
  "tlv_match WLAN_EID_VENDOR_SPECIFIC (Some p2p_oui)" "tlv_room WLAN_EID_VENDOR_SPECIFIC 4"
  "\<lambda>n. n \<le> MAX_IE_SZ"
  by (rule vendor_scan) (simp add: oui_defs)

interpretation get_wfd_ie: tlv_scan
  "ie_search_loop (vendor_hit wfd_oui)" "\<lambda>n i. i + 5 < n \<and> i + 5 < MAX_IE_SZ" "vendor_hit wfd_oui"
  "tlv_match WLAN_EID_VENDOR_SPECIFIC (Some wfd_oui)" "tlv_room WLAN_EID_VENDOR_SPECIFIC 4"
  "\<lambda>n. n \<le> MAX_IE_SZ"
  by (rule vendor_scan) (simp add: oui_defs)

interpretation get_owe_ie: tlv_scan
  "ie_search_loop owe_hit" "\<lambda>n i. i + 5 < n \<and> i + 5 < MAX_IE_SZ" owe_hit
  "tlv_match WLAN_EID_EXTENSION (Some [WLAN_EID_EXT_OWE_DH_PARAM])" "tlv_room WLAN_EID_EXTENSION 4"
  "\<lambda>n. n \<le> MAX_IE_SZ"
proof (unfold_locales, goal_cases)
  case (1 b n i)
  show ?case by (subst ie_search_loop.simps) (simp add: not_le)
next
  case (5 t pre post)
  then show ?case
    by (cases "snd t") (auto simp: owe_hit_def tlv_match_def tlv_room_def tlv_enc_def rd_def nth_append)
qed (auto simp: tlv_match_def tlv_room_def)

lemma rd_first_len:
  assumes "tlv_first sel ts 0 = Some (p, t)"
  shows "rd (tlvs_enc ts @ post) (Suc p) = Some (word_of_nat (length (snd t)))"
    and "rd_slice (tlvs_enc ts @ post) p (length (snd t) + 2) = Some (tlv_enc t)"
proof -
  obtain us vs where ts: "ts = us @ t # vs" and p: "p = length (tlvs_enc us)"
    using tlv_first_split [OF assms(1)] by auto
  show "rd (tlvs_enc ts @ post) (Suc p) = Some (word_of_nat (length (snd t)))"
    unfolding ts p using rd_tlv_len [of "tlvs_enc us" t "tlvs_enc vs @ post"] by simp
  show "rd_slice (tlvs_enc ts @ post) p (length (snd t) + 2) = Some (tlv_enc t)"
    by (simp add: ts p rd_slice_in)
qed

lemma tlv_first_wf: "tlv_first sel ts off = Some (p, t) \<Longrightarrow> list_all tlv_wf ts \<Longrightarrow> length (snd t) < 256"
  using tlv_first_bounds [of sel ts off p t] by (auto simp: list_all_iff tlv_wf_def)

lemma copy_ie_tlv:
  assumes "tlv_first sel ts 0 = Some (p, t)" and "list_all tlv_wf ts"
  shows "copy_ie (tlvs_enc ts @ post) want (Some p) =
           Some (Some p, if want then tlv_enc t else [], length (snd t) + 2)"
  using rd_first_len [OF assms(1), of post] tlv_first_wf [OF assms] by (simp add: copy_ie_def)

text \<open>The result the searches that copy have on an encoded list of elements.\<close>

definition search_result :: "(nat \<times> tlv) option \<Rightarrow> bool \<Rightarrow> nat option \<times> bytes \<times> nat" where
  "search_result r want =
     (case r of
        None \<Rightarrow> (None, [], 0)
      | Some (p, t) \<Rightarrow> (Some p, if want then tlv_enc t else [], length (snd t) + 2))"

lemma copy_ie_result:
  assumes "list_all tlv_wf ts"
  shows "copy_ie (tlvs_enc ts @ post) want (map_option fst (tlv_first sel ts 0)) =
           Some (search_result (tlv_first sel ts 0) want)"
proof (cases "tlv_first sel ts 0")
  case None
  then show ?thesis by (simp add: search_result_def copy_ie_def)
next
  case (Some r)
  then show ?thesis using copy_ie_tlv [OF _ assms, of sel "fst r" "snd r"]
    by (cases r) (simp add: search_result_def)
qed

lemma get_ie_ex_tlvs:
  assumes "list_all tlv_wf ts"
    and "list_all (tlv_room eid (case oui of None \<Rightarrow> 0 | Some p \<Rightarrow> length p)) ts"
  shows "rtw_get_ie_ex (Some (tlvs_enc ts @ post)) (length (tlvs_enc ts)) eid oui want =
           Some (search_result (tlv_first (tlv_match eid oui) ts 0) want)"
proof (cases "tlvs_enc ts = []")
  case True
  then have "ts = []" by (cases ts) (auto simp: tlv_enc_def)
  then show ?thesis by (simp add: rtw_get_ie_ex_def search_result_def)
next
  case False
  have "get_ie_ex_loop (tlvs_enc ts @ post) (length (tlvs_enc ts)) eid oui 0 =
          Some (map_option fst (tlv_first (tlv_match eid oui) ts 0))"
    using get_ie_ex.scan_tlvs [where pre = "[]" and ts = ts and post = post] assms by simp
  with False show ?thesis by (simp add: rtw_get_ie_ex_def copy_ie_result [OF assms(1)])
qed

lemma search_loop_result:
  assumes "tlv_scan (ie_search_loop hit) guard hit sel ok fits"
    and "list_all tlv_wf ts" and "list_all ok ts" and "fits (length (tlvs_enc ts))"
  shows "do { r \<leftarrow> ie_search_loop hit (tlvs_enc ts @ post) (length (tlvs_enc ts)) 0;
              copy_ie (tlvs_enc ts @ post) want r } =
           Some (search_result (tlv_first sel ts 0) want)"
  using tlv_scan.scan_tlvs [OF assms(1), of ts "length (tlvs_enc ts)" "[]" post] assms(2-4)
  by (simp add: copy_ie_result)

lemma tlvs_enc_eq_Nil [simp]: "tlvs_enc ts = [] \<longleftrightarrow> ts = []"
  by (cases ts) (auto simp: tlv_enc_def)

lemma search_result_None [simp]: "search_result None want = (None, [], 0)"
  by (simp add: search_result_def)

section \<open>In-place removal\<close>

lemma memmove_tlv:
  assumes "b = P @ E @ V @ post"
  shows "rtw_memmove b (length P) (length P + length E) (length V) =
           Some (P @ V @ drop (length V) (E @ V) @ post)"
  using assms by (simp add: rtw_memmove_def rd_slice_def wr_slice_def)

lemma ies_remove_loop_tlvs:
  assumes "list_all tlv_wf ts"
    and "list_all (tlv_room eid (case oui of None \<Rightarrow> 0 | Some p \<Rightarrow> length p)) ts"
  shows "\<exists>b'. ies_remove_loop (pre @ tlvs_enc ts @ post) (length pre + length (tlvs_enc ts)) (length pre)
                (length (tlvs_enc ts)) eid oui ret =
              Some (ret \<or> (\<exists>t \<in> set ts. tlv_match eid oui t), b',
                    length pre + length (tlvs_enc (filter (\<lambda>t. \<not> tlv_match eid oui t) ts))) \<and>
            length b' = length (pre @ tlvs_enc ts @ post) \<and>
            take (length pre + length (tlvs_enc (filter (\<lambda>t. \<not> tlv_match eid oui t) ts))) b' =
              pre @ tlvs_enc (filter (\<lambda>t. \<not> tlv_match eid oui t) ts)"
  using assms
proof (induction "length ts" arbitrary: ts pre post ret rule: less_induct)
  case less
  let ?m = "tlv_match eid oui"
  have get: "rtw_get_ie_ex (Some (tlvs_enc ts @ post)) (length (tlvs_enc ts)) eid oui False =
               Some (search_result (tlv_first ?m ts 0) False)"
    using less.prems by (rule get_ie_ex_tlvs)
  show ?case
  proof (cases "tlv_first ?m ts 0")
    case None
    then have "filter (\<lambda>t. \<not> ?m t) ts = ts" "\<not> (\<exists>t \<in> set ts. ?m t)"
      by (auto simp: tlv_first_None)
    with get None show ?thesis by (subst ies_remove_loop.simps) simp
  next
    case (Some r)
    obtain p t where r: "r = (p, t)" by (cases r)
    obtain us vs where ts: "ts = us @ t # vs" and p: "p = length (tlvs_enc us)"
      and us: "\<forall>u \<in> set us. \<not> ?m u" and t: "?m t"
      using tlv_first_split [of ?m ts 0 p t] Some r by auto
    let ?P = "pre @ tlvs_enc us" and ?V = "tlvs_enc vs"
    let ?post = "drop (length ?V) (tlv_enc t @ ?V) @ post"
    have mv: "rtw_memmove (pre @ tlvs_enc ts @ post) (length pre + p)
                (length pre + p + (length (snd t) + 2)) (length ?V) = Some (?P @ ?V @ ?post)"
      using memmove_tlv [of "pre @ tlvs_enc ts @ post" ?P "tlv_enc t" ?V post] by (simp add: ts p add.assoc)
    have "\<exists>b'. ies_remove_loop (?P @ ?V @ ?post) (length ?P + length ?V) (length ?P) (length ?V) eid oui True =
              Some (True \<or> (\<exists>t \<in> set vs. ?m t), b', length ?P + length (tlvs_enc (filter (\<lambda>t. \<not> ?m t) vs))) \<and>
            length b' = length (?P @ ?V @ ?post) \<and>
            take (length ?P + length (tlvs_enc (filter (\<lambda>t. \<not> ?m t) vs))) b' =
              ?P @ tlvs_enc (filter (\<lambda>t. \<not> ?m t) vs)"
      using less.prems ts by (intro less.hyps) auto
    then obtain b' where b':
      "ies_remove_loop (?P @ ?V @ ?post) (length ?P + length ?V) (length ?P) (length ?V) eid oui True =
              Some (True, b', length ?P + length (tlvs_enc (filter (\<lambda>t. \<not> ?m t) vs)))"
      "length b' = length (?P @ ?V @ ?post)"
      "take (length ?P + length (tlvs_enc (filter (\<lambda>t. \<not> ?m t) vs))) b' =
              ?P @ tlvs_enc (filter (\<lambda>t. \<not> ?m t) vs)"
      by auto
    have f: "filter (\<lambda>t. \<not> ?m t) ts = us @ filter (\<lambda>t. \<not> ?m t) vs"
      using us t ts by (auto simp: filter_id_conv)
    have n: "length pre + length (tlvs_enc (filter (\<lambda>t. \<not> ?m t) ts)) =
        length ?P + length (tlvs_enc (filter (\<lambda>t. \<not> ?m t) vs))"
      unfolding f by simp
    have "ies_remove_loop (pre @ tlvs_enc ts @ post) (length pre + length (tlvs_enc ts)) (length pre)
                (length (tlvs_enc ts)) eid oui ret =
          ies_remove_loop (?P @ ?V @ ?post) (length ?P + length ?V) (length ?P) (length ?V) eid oui True"
    proof -
      have len: "length (tlvs_enc ts) - (p + (length (snd t) + 2)) = length ?V"
        "length pre + length (tlvs_enc ts) - (length (snd t) + 2) = length ?P + length ?V"
        "\<not> length (tlvs_enc ts) < p + (length (snd t) + 2)" "length pre + p = length ?P"
        by (simp_all add: ts p)
      have mv': "rtw_memmove (pre @ tlvs_enc ts @ post) (length ?P) (length ?P + (length (snd t) + 2))
          (length ?V) = Some (?P @ ?V @ ?post)"
        using mv unfolding len .
      show ?thesis
        by (subst ies_remove_loop.simps)
          (simp add: get Some r search_result_def len mv' del: add_2_eq_Suc' length_append)
    qed
    moreover have "(\<exists>t \<in> set ts. ?m t) = True" using t ts by auto
    ultimately have "ies_remove_loop (pre @ tlvs_enc ts @ post) (length pre + length (tlvs_enc ts)) (length pre)
                (length (tlvs_enc ts)) eid oui ret =
        Some (ret \<or> (\<exists>t \<in> set ts. ?m t), b', length pre + length (tlvs_enc (filter (\<lambda>t. \<not> ?m t) ts)))"
      unfolding n by (simp only: b' HOL.simp_thms)
    moreover have "length b' = length (pre @ tlvs_enc ts @ post)"
      by (simp add: b'(2) ts)
    moreover have "take (length pre + length (tlvs_enc (filter (\<lambda>t. \<not> ?m t) ts))) b' =
        pre @ tlvs_enc (filter (\<lambda>t. \<not> ?m t) ts)"
      unfolding n b'(3) by (simp add: f)
    ultimately show ?thesis by blast
  qed
qed

section \<open>Memory safety of the searches on arbitrary bytes\<close>

lemma get_ie_loop_safe:
  assumes "limit < int (length pbuf)" and "int i < limit"
  shows "\<exists>r. get_ie_loop pbuf index limit i = Some r \<and>
           (\<forall>p. r = Some p \<longrightarrow> int p < limit \<and> uint (pbuf ! p) = index)"
  using assms
proof (induction pbuf index limit i rule: get_ie_loop.induct)
  case (1 pbuf index limit i)
  have i: "i + 1 < length pbuf" using 1(2,3) by linarith
  show ?case
  proof (cases "uint (pbuf ! i) = index")
    case True
    with 1(3) i show ?thesis by (subst get_ie_loop.simps) (simp add: rd_in)
  next
    case False
    let ?n = "i + (unat (pbuf ! (i + 1)) + 2)"
    have un: "get_ie_loop pbuf index limit i =
        (if limit \<le> int ?n then Some None else get_ie_loop pbuf index limit ?n)"
      using i False by (subst get_ie_loop.simps) (simp add: rd_in)
    show ?thesis
    proof (cases "limit \<le> int ?n")
      case False': False
      then show ?thesis
        using 1(1) [OF rd_in False rd_in False'] i 1(2) un by fastforce
    qed (simp add: un)
  qed
qed

lemma ie_search_loop_safe:
  assumes "\<And>cnt. cnt + 5 < in_len \<Longrightarrow> \<exists>h. hit in_ie cnt = Some h" and "in_len \<le> length in_ie"
  shows "\<exists>r. ie_search_loop hit in_ie in_len cnt = Some r \<and>
           (\<forall>p. r = Some p \<longrightarrow> p + 5 < in_len \<and> hit in_ie p = Some True)"
  using assms
proof (induction hit in_ie in_len cnt rule: ie_search_loop.induct)
  case (1 hit in_ie in_len cnt)
  show ?case
  proof (cases "cnt + 1 + 4 < in_len \<and> \<not> MAX_IE_SZ \<le> cnt + 1 + 4")
    case True
    then have "cnt + 5 < in_len" by simp
    then obtain h where h: "hit in_ie cnt = Some h" using 1(2) by blast
    show ?thesis
    proof (cases h)
      case True': True
      with True h show ?thesis by (subst ie_search_loop.simps) simp
    next
      case False
      have rd: "rd in_ie (cnt + 1) = Some (in_ie ! (cnt + 1))" using True 1(3) by (simp add: rd_in)
      then show ?thesis
        using 1(1) [OF _ _ h False rd] 1(2,3) True h False by (subst ie_search_loop.simps) simp
    qed
  next
    case False
    then show ?thesis by (subst ie_search_loop.simps) auto
  qed
qed

lemma vendor_hit_safe:
  assumes "length oui = 4" and "cnt + 5 < in_len" and "in_len \<le> length in_ie"
  shows "\<exists>h. vendor_hit oui in_ie cnt = Some h"
  using assms by (auto simp: vendor_hit_def rd_in rtw_memcmp_in)

lemma vendor_search_safe:
  assumes "in_len \<le> length b" and "length oui = 4"
  shows "\<exists>r n. do { r \<leftarrow> ie_search_loop (vendor_hit oui) b in_len 0; copy_ie b False r } = Some (r, [], n) \<and>
           (\<forall>p. r = Some p \<longrightarrow> p + 5 < in_len \<and> b ! p = WLAN_EID_VENDOR_SPECIFIC \<and>
              take 4 (drop (p + 2) b) = oui)"
proof -
  from ie_search_loop_safe [of in_len "vendor_hit oui" b 0] vendor_hit_safe [OF assms(2)] assms(1)
  obtain r where "ie_search_loop (vendor_hit oui) b in_len 0 = Some r"
    "\<forall>p. r = Some p \<longrightarrow> p + 5 < in_len \<and> vendor_hit oui b p = Some True" by blast
  then show ?thesis using assms
    by (cases r) (auto simp: vendor_hit_def rd_in rtw_memcmp_in copy_ie_def split: if_splits)
qed

lemma get_ie_tlvs:
  assumes "list_all tlv_wf ts" and "ts \<noteq> []"
  shows "rtw_get_ie (tlvs_enc ts @ post) (uint eid) len0 (int (length (tlvs_enc ts))) =
           Some (case tlv_first (\<lambda>t. fst t = eid) ts 0 of
                   None \<Rightarrow> (None, 0)
                 | Some (p, t) \<Rightarrow> (Some p, int (length (snd t))))"
proof -
  have sel: "(\<lambda>t :: tlv. uint (fst t) = uint eid) = (\<lambda>t. fst t = eid)"
    by (simp add: word_uint_eq_iff)
  have pos: "0 < length (tlvs_enc ts)" using assms(2) by simp
  then have loop: "get_ie_loop (tlvs_enc ts @ post) (uint eid) (int (length (tlvs_enc ts))) 0 =
          Some (map_option fst (tlv_first (\<lambda>t. fst t = eid) ts 0))"
    using get_ie.scan_tlvs [where pre = "[]" and ts = ts and post = post and index = "uint eid"] assms(1)
    by (simp add: sel list_all_iff)
  show ?thesis
  proof (cases "tlv_first (\<lambda>t. fst t = eid) ts 0")
    case None
    with loop pos show ?thesis by (simp add: rtw_get_ie_def)
  next
    case (Some r)
    obtain p t where r: "r = (p, t)" by (cases r)
    with Some have "rd (tlvs_enc ts @ post) (Suc p) = Some (word_of_nat (length (snd t)))"
      "length (snd t) < 256"
      using rd_first_len(1) tlv_first_wf assms(1) by blast+
    with loop pos Some r show ?thesis by (simp add: rtw_get_ie_def)
  qed
qed

lemma wpa_version_le16: "(push_bit 8 (ucast (a1 :: u8)) OR ucast (a0 :: u8) :: u16) = 1 \<longleftrightarrow> a0 = 1 \<and> a1 = 0"
  using le16_inject [of a1 a0 0 1] by simp

text \<open>The test of one vendor element in \<open>rtw_get_wpa_ie\<close>.\<close>

lemma wpa_element_test:
  assumes "6 \<le> length (snd t)"
  shows "do { oui_ok \<leftarrow> rtw_memcmp (pre @ tlv_enc t @ post) (length pre + 2) wpa_oui_type;
              if oui_ok then do { v \<leftarrow> RTW_GET_LE16 (pre @ tlv_enc t @ post) (length pre + 6); Some (v = 1) }
              else Some False } =
           Some (take 6 (snd t) = wpa_oui_type @ [1, 0])"
proof -
  obtain d0 d1 d2 d3 d4 d5 ds where d: "snd t = d0 # d1 # d2 # d3 # d4 # d5 # ds"
    using assms by (auto simp: numeral_eq_Suc Suc_le_length_iff)
  then show ?thesis
    by (auto simp: rtw_memcmp_in RTW_GET_LE16_def rd_in nth_append tlv_enc_def oui_defs wpa_version_le16)
qed

lemma get_wpa_ie_loop_tlvs:
  assumes "list_all tlv_wf ts" and "list_all (tlv_room 221 6) ts" and "ts \<noteq> []"
  shows "get_wpa_ie_loop (pre @ tlvs_enc ts @ post) (int (length pre + length (tlvs_enc ts))) (length pre) =
           Some (case tlv_first (tlv_match 221 (Some (wpa_oui_type @ [1, 0]))) ts (length pre) of
                   None \<Rightarrow> (None, 0)
                 | Some (p, t) \<Rightarrow> (Some p, int (length (snd t))))"
  using assms
proof (induction "length ts" arbitrary: ts pre rule: less_induct)
  case less
  let ?m = "tlv_match 221 (Some (wpa_oui_type @ [1, 0]))"
  let ?b = "pre @ tlvs_enc ts @ post" and ?limit = "int (length pre + length (tlvs_enc ts))"
  have get: "rtw_get_ie (drop (length pre) ?b) 221 0 (?limit - int (length pre)) =
      Some (case tlv_first (\<lambda>t. fst t = 221) ts 0 of None \<Rightarrow> (None, 0)
            | Some (p, t) \<Rightarrow> (Some p, int (length (snd t))))"
    using get_ie_tlvs [of ts post 221 0] less.prems by simp
  show ?case
  proof (cases "tlv_first (\<lambda>t. fst t = 221) ts 0")
    case None
    then have "tlv_first ?m ts (length pre) = None" by (auto simp: tlv_first_None tlv_match_def)
    with get None show ?thesis by (subst get_wpa_ie_loop.simps) simp
  next
    case (Some r)
    obtain q t where r: "r = (q, t)" by (cases r)
    obtain us vs where ts: "ts = us @ t # vs" and q: "q = length (tlvs_enc us)"
      and us: "\<forall>u \<in> set us. fst u \<noteq> 221" and t: "fst t = 221"
      using tlv_first_split [of "\<lambda>t. fst t = 221" ts 0 q t] Some r by auto
    let ?P = "pre @ tlvs_enc us" and ?post = "tlvs_enc vs @ post"
    have b: "?b = ?P @ tlv_enc t @ ?post" by (simp add: ts)
    have first: "tlv_first ?m ts (length pre) = tlv_first ?m (t # vs) (length ?P)"
      using us by (simp add: ts tlv_first_append tlv_match_def)
    have len: "6 \<le> length (snd t)" "length (snd t) < 256"
      using less.prems t ts by (auto simp: tlv_room_def tlv_wf_def)
    have m: "?m t \<longleftrightarrow> take 6 (snd t) = wpa_oui_type @ [1, 0]"
      using t by (simp add: tlv_match_def oui_defs eval_nat_numeral)
    have step: "get_wpa_ie_loop ?b ?limit (length pre) =
        (if ?m t then Some (Some (length ?P), int (length (snd t)))
         else if vs = [] then Some (None, 0)
         else get_wpa_ie_loop ?b ?limit (length ?P + 2 + length (snd t)))"
      using get Some r wpa_element_test [OF len(1), of ?P ?post, folded b] len(2) rd_tlv_len [of ?P t ?post, folded b]
      by (subst get_wpa_ie_loop.simps)
        (auto simp: q m ts add.assoc[symmetric] split: bind_splits if_splits)
    show ?thesis
    proof (cases "?m t \<or> vs = []")
      case True
      then show ?thesis unfolding step first by auto
    next
      case False
      have "get_wpa_ie_loop ((?P @ tlv_enc t) @ tlvs_enc vs @ post)
          (int (length (?P @ tlv_enc t) + length (tlvs_enc vs))) (length (?P @ tlv_enc t)) =
        Some (case tlv_first ?m vs (length (?P @ tlv_enc t)) of None \<Rightarrow> (None, 0)
              | Some (p, t) \<Rightarrow> (Some p, int (length (snd t))))"
        using less.prems False ts by (intro less.hyps) auto
      with False show ?thesis unfolding step first by (simp add: ts add.assoc)
    qed
  qed
qed

lemma rtw_set_ie_eq:
  assumes "pos + len + 2 \<le> length buf" and "len \<le> length source"
  shows "rtw_set_ie buf pos index len source frlen =
           Some (take pos buf @ [word_of_int index, word_of_nat len] @ take len source @ drop (pos + len + 2) buf,
                 pos + len + 2, map_option (\<lambda>f. f + (len + 2)) frlen)"
proof -
  have "2 \<le> length (drop pos buf)" using assms(1) by simp
  then obtain x y D where d: "drop pos buf = x # y # D"
    by (auto simp: numeral_eq_Suc Suc_le_length_iff simp del: length_drop)
  define P where "P = take pos buf"
  have buf: "buf = P @ x # y # D" using d by (metis P_def append_take_drop_id)
  have "length P = pos" using assms(1) by (simp add: P_def)
  then show ?thesis using assms
    by (auto simp: buf rtw_set_ie_def wr_slice_def rd_slice_in)
qed

lemma vendor_search_tlvs:
  assumes "list_all tlv_wf ts" and "list_all (tlv_room 221 4) ts" and "length (tlvs_enc ts) \<le> 768"
  shows "rtw_get_wps_ie (Some (tlvs_enc ts @ post)) (length (tlvs_enc ts)) want =
           Some (search_result (tlv_first (tlv_match 221 (Some wps_oui)) ts 0) want) \<and>
         rtw_get_p2p_ie (Some (tlvs_enc ts @ post)) (int (length (tlvs_enc ts))) want =
           Some (search_result (tlv_first (tlv_match 221 (Some p2p_oui)) ts 0) want) \<and>
         rtw_get_wfd_ie (Some (tlvs_enc ts @ post)) (int (length (tlvs_enc ts))) want =
           Some (search_result (tlv_first (tlv_match 221 (Some wfd_oui)) ts 0) want)"
proof (cases "ts = []")
  case True
  then show ?thesis by (simp add: rtw_get_wps_ie_def rtw_get_p2p_ie_def rtw_get_wfd_ie_def)
next
  case False
  note facts = assms(1) assms(2,3) [folded WLAN_EID_VENDOR_SPECIFIC_def MAX_IE_SZ_def]
  have "tlvs_enc ts \<noteq> []" using False by simp
  with search_loop_result [OF get_wps_ie.tlv_scan_axioms facts, of post want]
    search_loop_result [OF get_p2p_ie.tlv_scan_axioms facts, of post want]
    search_loop_result [OF get_wfd_ie.tlv_scan_axioms facts, of post want]
  show ?thesis
    by (simp add: rtw_get_wps_ie_def rtw_get_p2p_ie_def rtw_get_wfd_ie_def WLAN_EID_VENDOR_SPECIFIC_def)
qed

section \<open>Properties\<close>

text \<open>C28: on a series of elements, \<open>rtw_get_ie\<close> returns the address and the length of the first
  element with the given identifier, or NULL and length 0 when there is none, and stays inside
  the buffer.\<close>

theorem rtw_get_ie_first:
  assumes "list_all tlv_wf ts" and "ts \<noteq> []"
  shows "rtw_get_ie (tlvs_enc ts @ post) (uint eid) len0 (int (length (tlvs_enc ts))) =
           Some (case tlv_first (\<lambda>t. fst t = eid) ts 0 of
                   None \<Rightarrow> (None, 0)
                 | Some (p, t) \<Rightarrow> (Some p, int (length (snd t))))"
  by (rule get_ie_tlvs [OF assms])

theorem rtw_get_ie_first_witness:
  "rtw_get_ie (tlvs_enc [(0, [65, 66]), (3, [6])]) 3 (-1) 7 = Some (Some 4, 1)"
  using rtw_get_ie_first [of "[(0, [65, 66]), (3, [6])]" "[]" 3 "-1"]
  by (simp add: tlv_wf_def tlv_enc_def)



text \<open>On any bytes at all, \<open>rtw_get_ie\<close> reads at most one byte past \<open>limit\<close>: with one byte to
  spare it returns, and what it returns lies below \<open>limit\<close> and has the identifier asked for.\<close>

lemma rtw_get_ie_safe:
  assumes "limit < int (length pbuf)"
  shows "\<exists>r l. rtw_get_ie pbuf index len0 limit = Some (r, l) \<and>
           (\<forall>p. r = Some p \<longrightarrow> int p < limit \<and> uint (pbuf ! p) = index \<and> l = uint (pbuf ! (p + 1)))"
proof (cases "limit < 1")
  case True
  then show ?thesis by (simp add: rtw_get_ie_def)
next
  case False
  then have "int 0 < limit" by simp
  from get_ie_loop_safe [OF assms this, of index] obtain r where
    r: "get_ie_loop pbuf index limit 0 = Some r"
    "\<forall>p. r = Some p \<longrightarrow> int p < limit \<and> uint (pbuf ! p) = index" by blast
  show ?thesis
  proof (cases r)
    case None
    with r False show ?thesis by (simp add: rtw_get_ie_def)
  next
    case (Some p)
    with r have "int p < limit" by simp
    with assms have "p + 1 < length pbuf" by linarith
    with Some r False show ?thesis by (simp add: rtw_get_ie_def rd_in)
  qed
qed

text \<open>C29: the WPS, P2P and WFD searches never leave a buffer of \<open>in_len\<close> bytes, whatever the bytes
  are (without the copy out), and what they return starts a vendor element with their prefix.\<close>

theorem vendor_searches_safe:
  assumes "in_len \<le> length b"
  shows "(\<exists>r n. rtw_get_wps_ie (Some b) in_len False = Some (r, [], n) \<and>
            (\<forall>p. r = Some p \<longrightarrow> p + 5 < in_len \<and> b ! p = 221 \<and> take 4 (drop (p + 2) b) = wps_oui)) \<and>
         (\<exists>r n. rtw_get_p2p_ie (Some b) (int in_len) False = Some (r, [], n) \<and>
            (\<forall>p. r = Some p \<longrightarrow> p + 5 < in_len \<and> b ! p = 221 \<and> take 4 (drop (p + 2) b) = p2p_oui)) \<and>
         (\<exists>r n. rtw_get_wfd_ie (Some b) (int in_len) False = Some (r, [], n) \<and>
            (\<forall>p. r = Some p \<longrightarrow> p + 5 < in_len \<and> b ! p = 221 \<and> take 4 (drop (p + 2) b) = wfd_oui))"
  using vendor_search_safe [OF assms, of wps_oui] vendor_search_safe [OF assms, of p2p_oui]
    vendor_search_safe [OF assms, of wfd_oui]
  by (cases "in_len = 0")
    (simp_all add: rtw_get_wps_ie_def rtw_get_p2p_ie_def rtw_get_wfd_ie_def oui_defs WLAN_EID_VENDOR_SPECIFIC_def)

theorem vendor_searches_safe_witness:
  "\<exists>r n. rtw_get_wps_ie (Some [221, 200, 0, 0x50, 0xf2, 4]) 6 False = Some (r, [], n) \<and>
     (\<forall>p. r = Some p \<longrightarrow> p + 5 < 6 \<and> ([221, 200, 0, 0x50, 0xf2, 4] :: bytes) ! p = 221 \<and>
        take 4 (drop (p + 2) [221, 200, 0, 0x50, 0xf2, 4]) = wps_oui)"
  by (rule vendor_searches_safe [of 6 "[221, 200, 0, 0x50, 0xf2, 4]", THEN conjunct1]) simp

text \<open>On a series of at most \<open>MAX_IE_SZ\<close> bytes whose vendor elements hold at least a vendor
  prefix, the WPS, P2P and WFD searches return the first element with their prefix, its total
  length, and a copy of it when asked for.\<close>

lemma vendor_searches_first:
  assumes "list_all tlv_wf ts" and "list_all (tlv_room 221 4) ts" and "length (tlvs_enc ts) \<le> 768"
  shows "rtw_get_wps_ie (Some (tlvs_enc ts @ post)) (length (tlvs_enc ts)) want =
           Some (search_result (tlv_first (tlv_match 221 (Some wps_oui)) ts 0) want) \<and>
         rtw_get_p2p_ie (Some (tlvs_enc ts @ post)) (int (length (tlvs_enc ts))) want =
           Some (search_result (tlv_first (tlv_match 221 (Some p2p_oui)) ts 0) want) \<and>
         rtw_get_wfd_ie (Some (tlvs_enc ts @ post)) (int (length (tlvs_enc ts))) want =
           Some (search_result (tlv_first (tlv_match 221 (Some wfd_oui)) ts 0) want)"
  by (rule vendor_search_tlvs [OF assms])

text \<open>\<open>rtw_get_wpa_ie\<close> returns the first vendor element with the WPA prefix and version 1, past
  any number of other vendor elements.\<close>

lemma rtw_get_wpa_ie_first:
  assumes "list_all tlv_wf ts" and "list_all (tlv_room 221 6) ts" and "ts \<noteq> []"
  shows "rtw_get_wpa_ie (tlvs_enc ts @ post) (int (length (tlvs_enc ts))) =
           Some (case tlv_first (tlv_match 221 (Some (wpa_oui_type @ [1, 0]))) ts 0 of
                   None \<Rightarrow> (None, 0)
                 | Some (p, t) \<Rightarrow> (Some p, int (length (snd t))))"
  using get_wpa_ie_loop_tlvs [OF assms, of "[]" post] by (simp add: rtw_get_wpa_ie_def)

text \<open>C30: an element of fewer than 256 bytes written by \<open>rtw_set_ie\<close> is found again by
  \<open>rtw_get_ie\<close> with its data, the frame length grows by the size of the element, and no other
  byte of the buffer changes.\<close>

theorem rtw_set_ie_get_ie:
  assumes "pos + len + 2 \<le> length buf" and "len \<le> length source" and "len < 256" and "0 \<le> index" and "index < 256"
  shows "\<exists>buf'. rtw_set_ie buf pos index len source (Some frlen) = Some (buf', pos + len + 2, Some (frlen + len + 2)) \<and>
           rtw_get_ie (drop pos buf') index len0 (int len + 2) = Some (Some 0, int len) \<and>
           take len (drop (pos + 2) buf') = take len source \<and>
           take pos buf' = take pos buf \<and> drop (pos + len + 2) buf' = drop (pos + len + 2) buf"
proof -
  let ?t = "(word_of_int index, take len source) :: tlv"
  let ?buf' = "take pos buf @ tlv_enc ?t @ drop (pos + len + 2) buf"
  have id: "uint (word_of_int index :: u8) = index" using assms(4,5) by (simp add: uint_word_of_int_eq take_bit_int_eq_self)
  have "rtw_get_ie (tlvs_enc [?t] @ drop (pos + len + 2) buf) index len0 (int (length (tlvs_enc [?t]))) =
      Some (Some 0, int len)"
    using get_ie_tlvs [of "[?t]" "drop (pos + len + 2) buf" "word_of_int index" len0] assms id
    by (simp add: tlv_wf_def)
  then have "rtw_get_ie (drop pos ?buf') index len0 (int len + 2) = Some (Some 0, int len)"
    using assms by (simp add: add.commute)
  moreover have "rtw_set_ie buf pos index len source (Some frlen) = Some (?buf', pos + len + 2, Some (frlen + len + 2))"
    using assms by (simp add: rtw_set_ie_eq tlv_enc_def)
  moreover have "take len (drop (pos + 2) ?buf') = take len source"
    using assms by (simp add: tlv_enc_def)
  ultimately show ?thesis using assms by (intro exI [of _ ?buf']) auto
qed

theorem rtw_set_ie_get_ie_witness:
  "\<exists>buf'. rtw_set_ie (replicate 8 0) 1 3 1 [6] (Some 12) = Some (buf', 1 + 1 + 2, Some (12 + 1 + 2)) \<and>
     rtw_get_ie (drop 1 buf') 3 (-1) (int 1 + 2) = Some (Some 0, int 1) \<and>
     take 1 (drop (1 + 2) buf') = take 1 [6] \<and>
     take 1 buf' = take 1 (replicate 8 0) \<and> drop (1 + 1 + 2) buf' = drop (1 + 1 + 2) (replicate 8 0)"
  by (rule rtw_set_ie_get_ie) simp_all

text \<open>\<open>rtw_set_ie_mesh_ch_switch_parm\<close> passes the identifier 0x118, of which one byte is stored:
  the element it writes carries identifier 24 instead of the mesh channel switch parameters
  element 118.\<close>

lemma mesh_ch_switch_parm_id:
  assumes "pos + 8 \<le> length buf"
  shows "\<exists>buf' pos' len'. rtw_set_ie_mesh_ch_switch_parm buf pos buf_len ttl flags reason precedence =
             Some (buf', pos', len') \<and> buf' ! pos = 24 \<and> buf' ! pos \<noteq> 118 \<and> pos' = pos + 8"
  using assms by (simp add: rtw_set_ie_mesh_ch_switch_parm_def rtw_set_ie_eq RTW_PUT_LE16_def nth_append)

end
