(* ===== verification/Ie_Attr.thy ===== *)
theory Ie_Attr
  imports Ie_Tlv
begin

text \<open>
  Attributes inside vendor elements: the WPS, P2P and Wi-Fi Display attribute searches
  (\<^verbatim>\<open>core/rtw_ieee80211.c\<close>) and the routines that write, merge and delete P2P and WFD elements and
  attributes (\<^verbatim>\<open>core/rtw_ieee80211_rest.c\<close>).

  A WPS attribute is two bytes of identifier and two of length, most significant byte first; a
  P2P attribute one byte of identifier and a little-endian length, a WFD attribute the same with
  a big-endian length. The total length of an attribute is kept in a sixteen-bit variable, so it
  can wrap to zero and the search then never advances: these loops are partial functions.

  The abstract view is the list of the attributes (\<open>'id \<times> bytes\<close>) and the first one selected
  (\<open>attr_first\<close>). The locale \<open>attr_scan\<close> states what the three loops have in common.
\<close>

section \<open>Searching attributes\<close>

text \<open>The loop of \<open>rtw_get_wps_attr\<close>: position and total length of the attribute found.\<close>

partial_function (option) wps_attr_loop ::
  "bytes \<Rightarrow> nat \<Rightarrow> u16 \<Rightarrow> nat \<Rightarrow> (nat \<times> u16) option run" where
  "wps_attr_loop wps_ie wps_ielen target_attr_id ptr =
     (if ptr < wps_ielen then
        (case do { attr_id \<leftarrow> RTW_GET_BE16 wps_ie ptr;
                   attr_data_len \<leftarrow> RTW_GET_BE16 wps_ie (ptr + 2);
                   Some (attr_id, attr_data_len + 4) } of
           None \<Rightarrow> Some Fault
         | Some (attr_id, attr_len) \<Rightarrow>
             if attr_id = target_attr_id then Some (Ret (Some (ptr, attr_len)))
             else wps_attr_loop wps_ie wps_ielen target_attr_id (ptr + unat attr_len))
      else Some (Ret None))"

text \<open>What the three searches do with the attribute found: the address, the copy made when
  \<open>buf_attr\<close> is not NULL (\<open>want\<close>) and \<open>len_attr\<close>.\<close>

definition copy_attr :: "bytes \<Rightarrow> bool \<Rightarrow> (nat \<times> u16) option run \<Rightarrow> (nat option \<times> bytes \<times> nat) run" where
  "copy_attr ie want r = do {
     f \<leftarrow> r;
     (case f of
        Fault \<Rightarrow> Some Fault
      | Ret None \<Rightarrow> Some (Ret (None, [], 0))
      | Ret (Some (p, attr_len)) \<Rightarrow>
          checked (do {
            c \<leftarrow> (if want then rd_slice ie p (unat attr_len) else Some []);
            Some (Some p, c, unat attr_len) })) }"

definition rtw_get_wps_attr :: "bytes \<Rightarrow> nat \<Rightarrow> u16 \<Rightarrow> bool \<Rightarrow> (nat option \<times> bytes \<times> nat) run" where
  "rtw_get_wps_attr wps_ie wps_ielen target_attr_id want =
     (case vendor_hit wps_oui wps_ie 0 of
        None \<Rightarrow> Some Fault
      | Some False \<Rightarrow> Some (Ret (None, [], 0))
      | Some True \<Rightarrow> copy_attr wps_ie want (wps_attr_loop wps_ie wps_ielen target_attr_id 6))"

text \<open>The loop of \<open>rtw_get_p2p_attr\<close> and \<open>rtw_get_wfd_attr\<close>, which differ in the byte order of the
  length (\<open>get16\<close>).\<close>

partial_function (option) attr_loop ::
  "(bytes \<Rightarrow> nat \<Rightarrow> u16 option) \<Rightarrow> bytes \<Rightarrow> nat \<Rightarrow> u8 \<Rightarrow> nat \<Rightarrow> (nat \<times> u16) option run" where
  "attr_loop get16 ie ielen target_attr_id ptr =
     (if ptr + 3 \<le> ielen then
        (case do { attr_id \<leftarrow> rd ie ptr;
                   attr_data_len \<leftarrow> get16 ie (ptr + 1);
                   Some (attr_id, attr_data_len + 3) } of
           None \<Rightarrow> Some Fault
         | Some (attr_id, attr_len) \<Rightarrow>
             if ielen < ptr + unat attr_len then Some (Ret None)
             else if attr_id = target_attr_id then Some (Ret (Some (ptr, attr_len)))
             else attr_loop get16 ie ielen target_attr_id (ptr + unat attr_len))
      else Some (Ret None))"

definition rtw_get_p2p_attr ::
  "bytes option \<Rightarrow> nat \<Rightarrow> u8 \<Rightarrow> bool \<Rightarrow> (nat option \<times> bytes \<times> nat) run" where
  "rtw_get_p2p_attr p2p_ie p2p_ielen target_attr_id want =
     (case p2p_ie of
        None \<Rightarrow> Some (Ret (None, [], 0))
      | Some ie \<Rightarrow>
          if p2p_ielen \<le> 6 then Some (Ret (None, [], 0))
          else (case vendor_hit p2p_oui ie 0 of
                  None \<Rightarrow> Some Fault
                | Some False \<Rightarrow> Some (Ret (None, [], 0))
                | Some True \<Rightarrow>
                    copy_attr ie want (attr_loop RTW_GET_LE16 ie p2p_ielen target_attr_id 6)))"

definition rtw_get_wfd_attr ::
  "bytes option \<Rightarrow> nat \<Rightarrow> u8 \<Rightarrow> bool \<Rightarrow> (nat option \<times> bytes \<times> nat) run" where
  "rtw_get_wfd_attr wfd_ie wfd_ielen target_attr_id want =
     (case wfd_ie of
        None \<Rightarrow> Some (Ret (None, [], 0))
      | Some ie \<Rightarrow>
          if wfd_ielen \<le> 6 then Some (Ret (None, [], 0))
          else (case vendor_hit wfd_oui ie 0 of
                  None \<Rightarrow> Some Fault
                | Some False \<Rightarrow> Some (Ret (None, [], 0))
                | Some True \<Rightarrow>
                    copy_attr ie want (attr_loop RTW_GET_BE16 ie wfd_ielen target_attr_id 6)))"

text \<open>
  The content of an attribute: \<open>hdr\<close> is the size of the attribute's header, \<open>buf\<close> tells whether
  \<open>buf_content\<close> is not NULL, \<open>len_content\<close> is the caller's value, \<^const>\<open>None\<close> for a NULL pointer.
  The result is the address of the content, the bytes copied and the new \<open>*len_content\<close>. The
  subtraction of the header is one of unsigned ints.
\<close>

definition attr_content ::
  "nat \<Rightarrow> bytes \<Rightarrow> bool \<Rightarrow> nat option \<Rightarrow> nat option \<times> bytes \<times> nat \<Rightarrow> (nat option \<times> bytes \<times> nat option) option" where
  "attr_content hdr ie buf len_content a =
     (case a of
        (Some attr_ptr, _, attr_len) \<Rightarrow>
          if attr_len = 0 then Some (None, [], map_option (\<lambda>_. 0) len_content)
          else
            (let len' = map_option (\<lambda>n. if buf \<and> uint_sub attr_len hdr < n \<or> \<not> buf
                                        then uint_sub attr_len hdr else n) len_content
             in do {
               c \<leftarrow> (if buf then rd_slice ie (attr_ptr + hdr) (case len' of Some n \<Rightarrow> n | None \<Rightarrow> 1)
                     else Some []);
               Some (Some (attr_ptr + hdr), c, len') })
      | (None, _, _) \<Rightarrow> Some (None, [], map_option (\<lambda>_. 0) len_content))"

definition rtw_get_wps_attr_content ::
  "bytes \<Rightarrow> nat \<Rightarrow> u16 \<Rightarrow> bool \<Rightarrow> nat option \<Rightarrow> (nat option \<times> bytes \<times> nat option) run" where
  "rtw_get_wps_attr_content wps_ie wps_ielen target_attr_id buf len_content = do {
     a \<leftarrow> rtw_get_wps_attr wps_ie wps_ielen target_attr_id False;
     (case a of Fault \<Rightarrow> Some Fault | Ret v \<Rightarrow> checked (attr_content 4 wps_ie buf len_content v)) }"

definition rtw_get_p2p_attr_content ::
  "bytes option \<Rightarrow> nat \<Rightarrow> u8 \<Rightarrow> bool \<Rightarrow> nat option \<Rightarrow> (nat option \<times> bytes \<times> nat option) run" where
  "rtw_get_p2p_attr_content p2p_ie p2p_ielen target_attr_id buf len_content = do {
     a \<leftarrow> rtw_get_p2p_attr p2p_ie p2p_ielen target_attr_id False;
     (case a of
        Fault \<Rightarrow> Some Fault
      | Ret v \<Rightarrow> checked (attr_content 3 (case p2p_ie of None \<Rightarrow> [] | Some ie \<Rightarrow> ie) buf len_content v)) }"

text \<open>The WFD variant copies the whole content, whatever the size of the caller's buffer.\<close>

definition rtw_get_wfd_attr_content ::
  "bytes option \<Rightarrow> nat \<Rightarrow> u8 \<Rightarrow> bool \<Rightarrow> (nat option \<times> bytes \<times> nat) run" where
  "rtw_get_wfd_attr_content wfd_ie wfd_ielen target_attr_id buf = do {
     a \<leftarrow> rtw_get_wfd_attr wfd_ie wfd_ielen target_attr_id False;
     (case a of
        Fault \<Rightarrow> Some Fault
      | Ret (Some attr_ptr, _, attr_len) \<Rightarrow>
          if attr_len = 0 then Some (Ret (None, [], 0))
          else checked (do {
            c \<leftarrow> (if buf then rd_slice (the wfd_ie) (attr_ptr + 3) (uint_sub attr_len 3) else Some []);
            Some (Some (attr_ptr + 3), c, uint_sub attr_len 3) })
      | Ret (None, _, _) \<Rightarrow> Some (Ret (None, [], 0))) }"

section \<open>Writing and merging\<close>

text \<open>\<open>rtw_set_p2p_attr_content\<close> writes one attribute at position \<open>pos\<close> of a buffer and returns its
  length.\<close>

definition rtw_set_p2p_attr_content ::
  "bytes \<Rightarrow> nat \<Rightarrow> u8 \<Rightarrow> u16 \<Rightarrow> bytes option \<Rightarrow> (bytes \<times> nat) option" where
  "rtw_set_p2p_attr_content pbuf pos attr_id attr_len pdata_attr = do {
     b1 \<leftarrow> wr_slice pbuf pos [attr_id];
     b2 \<leftarrow> wr_slice b1 (pos + 1) (RTW_PUT_LE16 attr_len);
     b3 \<leftarrow> (case pdata_attr of
              None \<Rightarrow> Some b2
            | Some d \<Rightarrow> do { s \<leftarrow> rd_slice d 0 (unat attr_len); wr_slice b2 (pos + 3) s });
     Some (b3, unat attr_len + 3) }"

text \<open>\<open>rtw_get_p2p_merged_ies_len\<close>: the length is summed in an int and returned as a \<open>u32\<close>.\<close>

function merged_len_loop :: "bytes \<Rightarrow> nat \<Rightarrow> nat \<Rightarrow> int \<Rightarrow> int option" where
  "merged_len_loop in_ie in_len i len =
     (if i < in_len then do {
        h \<leftarrow> vendor_hit p2p_oui in_ie i;
        l \<leftarrow> rd in_ie (i + 1);
        merged_len_loop in_ie in_len (i + (unat l + 2)) (if h then len + (uint l - 4) else len) }
      else Some len)"
  by pat_completeness auto
termination
  by (relation "measure (\<lambda>(in_ie, in_len, i, len). in_len - i)") auto

declare merged_len_loop.simps [simp del]

definition rtw_get_p2p_merged_ies_len :: "bytes \<Rightarrow> nat \<Rightarrow> u32 option" where
  "rtw_get_p2p_merged_ies_len in_ie in_len =
     map_option (\<lambda>len. word_of_int (len + 4)) (merged_len_loop in_ie in_len 0 0)"

text \<open>
  \<open>rtw_p2p_merge_ies\<close> copies what follows the prefix of every P2P element behind one header. The
  running length is a \<open>u8\<close>. An element shorter than its prefix gives \<open>memcpy\<close> a negative, that is
  huge, length.
\<close>

function merge_loop :: "bytes \<Rightarrow> nat \<Rightarrow> nat \<Rightarrow> bytes \<Rightarrow> nat \<Rightarrow> u8 \<Rightarrow> (bytes \<times> u8) option" where
  "merge_loop in_ie in_len i merge_ie pos len =
     (if i < in_len then do {
        h \<leftarrow> vendor_hit p2p_oui in_ie i;
        l \<leftarrow> rd in_ie (i + 1);
        if h then
          (if unat l < 4 then None
           else do {
             d \<leftarrow> rd_slice in_ie (i + 6) (unat l - 4);
             m \<leftarrow> wr_slice merge_ie pos d;
             merge_loop in_ie in_len (i + (unat l + 2)) m (pos + (unat l - 4)) (len + (l - 4)) })
        else merge_loop in_ie in_len (i + (unat l + 2)) merge_ie pos len }
      else Some (merge_ie, len))"
  by pat_completeness auto
termination
  by (relation "measure (\<lambda>(in_ie, in_len, i, merge_ie, pos, len). in_len - i)") auto

declare merge_loop.simps [simp del]

definition rtw_p2p_merge_ies :: "bytes \<Rightarrow> nat \<Rightarrow> bytes option \<Rightarrow> (bytes option \<times> nat) option" where
  "rtw_p2p_merge_ies in_ie in_len merge_ie =
     (case merge_ie of
        None \<Rightarrow> Some (None, 0)
      | Some m \<Rightarrow> do {
          m1 \<leftarrow> wr_slice m 0 [0xDD, 0x00, 0x50, 0x6f, 0x9a, 0x09];
          (m2, len) \<leftarrow> merge_loop in_ie in_len 0 m1 6 0;
          Some (Some m2, unat len + 4) })"

definition MULTI_AP_OUI :: bytes where "MULTI_AP_OUI = [0x50, 0x6F, 0x9A, 0x1B]"

definition rtw_set_multi_ap_ie_ext ::
  "bytes \<Rightarrow> nat \<Rightarrow> nat option \<Rightarrow> u8 \<Rightarrow> (bytes \<times> nat \<times> nat option) option" where
  "rtw_set_multi_ap_ie_ext pbuf pos frlen val = do {
     b1 \<leftarrow> wr_slice pbuf pos [WLAN_EID_VENDOR_SPECIFIC, 7];
     b2 \<leftarrow> wr_slice b1 (pos + 2) MULTI_AP_OUI;
     b3 \<leftarrow> wr_slice b2 (pos + 6) [0x06, 1, val];
     Some (b3, pos + 9, map_option (\<lambda>f. f + (7 + 2)) frlen) }"

definition rtw_get_multi_ap_ie_ext :: "bytes \<Rightarrow> nat \<Rightarrow> u8 option" where
  "rtw_get_multi_ap_ie_ext ies ies_len = do {
     (ie, c, ielen) \<leftarrow> rtw_get_ie_ex (Some ies) ies_len WLAN_EID_VENDOR_SPECIFIC (Some MULTI_AP_OUI) False;
     if ielen < 9 then Some 0
     else do {
       t \<leftarrow> rd ies (the ie + 6);
       if t \<noteq> 0x06 then Some 0 else rd ies (the ie + 8) } }"

section \<open>Deleting elements and attributes\<close>

text \<open>The two calls the deletions share: close the gap of \<open>n\<close> bytes at \<open>at\<close> with the \<open>remain\<close>
  bytes behind it, and clear what is left over.\<close>

definition close_gap :: "bytes \<Rightarrow> nat \<Rightarrow> nat \<Rightarrow> nat \<Rightarrow> bytes option" where
  "close_gap b at n remain = do {
     b1 \<leftarrow> rtw_memmove b at (at + n) remain;
     wr_slice b1 (at + remain) (replicate n 0) }"

text \<open>The loop of \<open>rtw_del_p2p_ie\<close> and \<open>rtw_del_wfd_ie\<close>, over the search they use.\<close>

partial_function (option) del_ie_loop ::
  "(bytes option \<Rightarrow> int \<Rightarrow> bool \<Rightarrow> (nat option \<times> bytes \<times> nat) option) \<Rightarrow> bytes \<Rightarrow> nat \<Rightarrow> (bytes \<times> nat) run" where
  "del_ie_loop get ies ies_len =
     (case get (Some ies) (to_sint ies_len) False of
        None \<Rightarrow> Some Fault
      | Some (None, _, _) \<Rightarrow> Some (Ret (ies, ies_len))
      | Some (Some target_ie, _, target_ie_len) \<Rightarrow>
          if target_ie_len = 0 then Some (Ret (ies, ies_len))
          else (case close_gap ies target_ie target_ie_len (uint_sub ies_len (target_ie + target_ie_len)) of
                  None \<Rightarrow> Some Fault
                | Some ies' \<Rightarrow> del_ie_loop get ies' (uint_sub ies_len target_ie_len)))"

definition rtw_del_p2p_ie :: "bytes \<Rightarrow> nat \<Rightarrow> (bytes \<times> nat) run" where
  "rtw_del_p2p_ie ies ies_len_ori = del_ie_loop rtw_get_p2p_ie ies ies_len_ori"

definition rtw_del_wfd_ie :: "bytes \<Rightarrow> nat \<Rightarrow> (bytes \<times> nat) run" where
  "rtw_del_wfd_ie ies ies_len_ori = del_ie_loop rtw_get_wfd_ie ies ies_len_ori"

text \<open>The loop of \<open>rtw_del_p2p_attr\<close> and \<open>rtw_del_wfd_attr\<close>: the length byte of the element shrinks
  with every attribute removed.\<close>

partial_function (option) del_attr_loop ::
  "(bytes option \<Rightarrow> nat \<Rightarrow> u8 \<Rightarrow> bool \<Rightarrow> (nat option \<times> bytes \<times> nat) run) \<Rightarrow> bytes \<Rightarrow> nat \<Rightarrow> u8 \<Rightarrow> (bytes \<times> nat) run" where
  "del_attr_loop get ie ielen attr_id = do {
     r \<leftarrow> get (Some ie) ielen attr_id False;
     (case r of
        Fault \<Rightarrow> Some Fault
      | Ret (None, _, _) \<Rightarrow> Some (Ret (ie, ielen))
      | Ret (Some target_attr, _, target_attr_len) \<Rightarrow>
          if target_attr_len = 0 then Some (Ret (ie, ielen))
          else (case do { b1 \<leftarrow> close_gap ie target_attr target_attr_len
                                  (uint_sub ielen (target_attr + target_attr_len));
                          l \<leftarrow> rd b1 1;
                          wr_slice b1 1 [l - of_nat target_attr_len] } of
                  None \<Rightarrow> Some Fault
                | Some ie' \<Rightarrow> del_attr_loop get ie' (uint_sub ielen target_attr_len) attr_id)) }"

definition rtw_del_p2p_attr :: "bytes \<Rightarrow> nat \<Rightarrow> u8 \<Rightarrow> (bytes \<times> nat) run" where
  "rtw_del_p2p_attr ie ielen_ori attr_id = del_attr_loop rtw_get_p2p_attr ie ielen_ori attr_id"

definition rtw_del_wfd_attr :: "bytes \<Rightarrow> nat \<Rightarrow> u8 \<Rightarrow> (bytes \<times> nat) run" where
  "rtw_del_wfd_attr ie ielen_ori attr_id = del_attr_loop rtw_get_wfd_attr ie ielen_ori attr_id"

section \<open>The elements of a BSS description\<close>

datatype ndis_infrastructure = Ndis802_11IBSS | Ndis802_11Infrastructure | Ndis802_11AutoUnknown
  | Ndis802_11InfrastructureMax | Ndis802_11APMode | Ndis802_11Monitor | Ndis802_11_mesh

record ndis_configuration =
  BeaconPeriod :: u32
  ATIMWindow :: u32
  DSConfig :: u32

text \<open>\<open>WLAN_BSSID_EX\<close>: the fields the modelled code reads or writes. \<open>Reserved\<close> is \<open>Reserved[0]\<close>,
  the kind of frame the description was taken from.\<close>

record wlan_bssid_ex =
  MacAddress :: bytes
  Reserved :: bss_type
  SsidLength :: nat
  Ssid :: bytes
  Privacy :: u32
  Configuration :: ndis_configuration
  InfrastructureMode :: ndis_infrastructure
  SupportedRates :: bytes
  IELength :: nat
  IEs :: bytes

definition BSS_EX_FIXED_IE_OFFSET :: "wlan_bssid_ex \<Rightarrow> nat" where
  "BSS_EX_FIXED_IE_OFFSET bss = (if Reserved bss = BSS_TYPE_PROB_REQ then 0 else 12)"

definition BSS_EX_TLV_IES_LEN :: "wlan_bssid_ex \<Rightarrow> nat" where
  "BSS_EX_TLV_IES_LEN bss = uint_sub (IELength bss) (BSS_EX_FIXED_IE_OFFSET bss)"

definition rtw_bss_ex_get_p2p_ie :: "wlan_bssid_ex \<Rightarrow> bool \<Rightarrow> (nat option \<times> bytes \<times> nat) option" where
  "rtw_bss_ex_get_p2p_ie bss want =
     rtw_get_p2p_ie (Some (drop (BSS_EX_FIXED_IE_OFFSET bss) (IEs bss))) (to_sint (BSS_EX_TLV_IES_LEN bss)) want"

definition rtw_bss_ex_get_wfd_ie :: "wlan_bssid_ex \<Rightarrow> bool \<Rightarrow> (nat option \<times> bytes \<times> nat) option" where
  "rtw_bss_ex_get_wfd_ie bss want =
     rtw_get_wfd_ie (Some (drop (BSS_EX_FIXED_IE_OFFSET bss) (IEs bss))) (to_sint (BSS_EX_TLV_IES_LEN bss)) want"

text \<open>\<open>rtw_bss_ex_del_p2p_ie\<close> and \<open>rtw_bss_ex_del_wfd_ie\<close>, over the deletion they call.\<close>

definition bss_ex_del_ie :: "(bytes \<Rightarrow> nat \<Rightarrow> (bytes \<times> nat) run) \<Rightarrow> wlan_bssid_ex \<Rightarrow> wlan_bssid_ex run" where
  "bss_ex_del_ie del bss_ex =
     (let off = BSS_EX_FIXED_IE_OFFSET bss_ex; ies_len_ori = BSS_EX_TLV_IES_LEN bss_ex
      in do {
        r \<leftarrow> del (drop off (IEs bss_ex)) ies_len_ori;
        (case r of
           Fault \<Rightarrow> Some Fault
         | Ret (ies', ies_len) \<Rightarrow>
             Some (Ret (bss_ex\<lparr>IEs := take off (IEs bss_ex) @ ies',
                               IELength := uint_sub (IELength bss_ex) (uint_sub ies_len_ori ies_len)\<rparr>))) })"

definition rtw_bss_ex_del_p2p_ie :: "wlan_bssid_ex \<Rightarrow> wlan_bssid_ex run" where
  "rtw_bss_ex_del_p2p_ie bss_ex = bss_ex_del_ie rtw_del_p2p_ie bss_ex"

definition rtw_bss_ex_del_wfd_ie :: "wlan_bssid_ex \<Rightarrow> wlan_bssid_ex run" where
  "rtw_bss_ex_del_wfd_ie bss_ex = bss_ex_del_ie rtw_del_wfd_ie bss_ex"

text \<open>The loop of \<open>rtw_bss_ex_del_p2p_attr\<close> and \<open>rtw_bss_ex_del_wfd_attr\<close>. \<open>off\<close> is the position of
  \<open>ies\<close> in the description's elements; what is behind an element that shrank is moved up.\<close>

partial_function (option) bss_del_attr_loop ::
  "(bytes option \<Rightarrow> int \<Rightarrow> bool \<Rightarrow> (nat option \<times> bytes \<times> nat) option) \<Rightarrow>
   (bytes \<Rightarrow> nat \<Rightarrow> u8 \<Rightarrow> (bytes \<times> nat) run) \<Rightarrow> u8 \<Rightarrow> bytes \<Rightarrow> nat \<Rightarrow> nat \<Rightarrow> nat \<Rightarrow> (bytes \<times> nat) run" where
  "bss_del_attr_loop get_ie del attr_id ies ielength off ies_len =
     (case get_ie (Some (drop off ies)) (to_sint ies_len) False of
        None \<Rightarrow> Some Fault
      | Some (None, _, _) \<Rightarrow> Some (Ret (ies, ielength))
      | Some (Some p, _, ie_len_ori) \<Rightarrow>
          (let ie = off + p; next_ie_ori = ie + ie_len_ori; remain_len = uint_sub ielength next_ie_ori
           in do {
             r \<leftarrow> del (drop ie ies) ie_len_ori attr_id;
             (case r of
                Fault \<Rightarrow> Some Fault
              | Ret (b', ie_len) \<Rightarrow>
                  if ie_len \<noteq> ie_len_ori then
                    (case do { m \<leftarrow> rtw_memmove (take ie ies @ b') (ie + ie_len) next_ie_ori remain_len;
                               wr_slice m (ie + ie_len + remain_len) (replicate (uint_sub ie_len_ori ie_len) 0) } of
                       None \<Rightarrow> Some Fault
                     | Some ies' \<Rightarrow>
                         bss_del_attr_loop get_ie del attr_id ies'
                           (uint_sub ielength (uint_sub ie_len_ori ie_len)) (ie + ie_len) remain_len)
                  else bss_del_attr_loop get_ie del attr_id (take ie ies @ b') ielength next_ie_ori remain_len) }))"

definition rtw_bss_ex_del_p2p_attr :: "wlan_bssid_ex \<Rightarrow> u8 \<Rightarrow> wlan_bssid_ex run" where
  "rtw_bss_ex_del_p2p_attr bss_ex attr_id = do {
     r \<leftarrow> bss_del_attr_loop rtw_get_p2p_ie rtw_del_p2p_attr attr_id (IEs bss_ex) (IELength bss_ex)
            (BSS_EX_FIXED_IE_OFFSET bss_ex) (BSS_EX_TLV_IES_LEN bss_ex);
     (case r of
        Fault \<Rightarrow> Some Fault
      | Ret (ies, n) \<Rightarrow> Some (Ret (bss_ex\<lparr>IEs := ies, IELength := n\<rparr>))) }"

definition rtw_bss_ex_del_wfd_attr :: "wlan_bssid_ex \<Rightarrow> u8 \<Rightarrow> wlan_bssid_ex run" where
  "rtw_bss_ex_del_wfd_attr bss_ex attr_id = do {
     r \<leftarrow> bss_del_attr_loop rtw_get_wfd_ie rtw_del_wfd_attr attr_id (IEs bss_ex) (IELength bss_ex)
            (BSS_EX_FIXED_IE_OFFSET bss_ex) (BSS_EX_TLV_IES_LEN bss_ex);
     (case r of
        Fault \<Rightarrow> Some Fault
      | Ret (ies, n) \<Rightarrow> Some (Ret (bss_ex\<lparr>IEs := ies, IELength := n\<rparr>))) }"

section \<open>The abstract view: a list of attributes\<close>

fun attr_first :: "('a \<Rightarrow> bool) \<Rightarrow> ('a \<Rightarrow> bytes) \<Rightarrow> 'a list \<Rightarrow> nat \<Rightarrow> (nat \<times> 'a) option" where
  "attr_first sel enc [] off = None"
| "attr_first sel enc (a # as) off =
     (if sel a then Some (off, a) else attr_first sel enc as (off + length (enc a)))"

definition attrs_enc :: "('a \<Rightarrow> bytes) \<Rightarrow> 'a list \<Rightarrow> bytes" where
  "attrs_enc enc as = concat (map enc as)"

lemma attrs_enc_simps [simp]:
  "attrs_enc enc [] = []" "attrs_enc enc (a # as) = enc a @ attrs_enc enc as"
  "attrs_enc enc (as @ bs) = attrs_enc enc as @ attrs_enc enc bs"
  by (simp_all add: attrs_enc_def)

definition wps_attr_enc :: "u16 \<times> bytes \<Rightarrow> bytes" where
  "wps_attr_enc a = RTW_PUT_BE16 (fst a) @ RTW_PUT_BE16 (of_nat (length (snd a))) @ snd a"

definition p2p_attr_enc :: "u8 \<times> bytes \<Rightarrow> bytes" where
  "p2p_attr_enc a = fst a # RTW_PUT_LE16 (of_nat (length (snd a))) @ snd a"

definition wfd_attr_enc :: "u8 \<times> bytes \<Rightarrow> bytes" where
  "wfd_attr_enc a = fst a # RTW_PUT_BE16 (of_nat (length (snd a))) @ snd a"

lemma length_attr_enc [simp]:
  "length (wps_attr_enc a) = length (snd a) + 4" "length (p2p_attr_enc b) = length (snd b) + 3"
  "length (wfd_attr_enc b) = length (snd b) + 3"
  by (simp_all add: wps_attr_enc_def p2p_attr_enc_def wfd_attr_enc_def RTW_PUT_BE16_def RTW_PUT_LE16_def)

lemma attr_first_None: "attr_first sel enc as off = None \<longleftrightarrow> (\<forall>a \<in> set as. \<not> sel a)"
  by (induction as arbitrary: off) auto

lemma attr_first_split:
  "attr_first sel enc as off = Some (p, a) \<Longrightarrow>
     \<exists>us vs. as = us @ a # vs \<and> p = off + length (attrs_enc enc us) \<and> (\<forall>u \<in> set us. \<not> sel u) \<and> sel a"
proof (induction as arbitrary: off)
  case Nil
  then show ?case by simp
next
  case (Cons b as)
  show ?case
  proof (cases "sel b")
    case True
    with Cons.prems show ?thesis by (intro exI [of _ "[]"] exI [of _ as]) auto
  next
    case False
    with Cons.prems have "attr_first sel enc as (off + length (enc b)) = Some (p, a)" by simp
    from Cons.IH [OF this] obtain us vs where "as = us @ a # vs"
      "p = off + length (enc b) + length (attrs_enc enc us)" "\<forall>u \<in> set us. \<not> sel u" "sel a" by blast
    with False show ?thesis by (intro exI [of _ "b # us"] exI [of _ vs]) auto
  qed
qed

lemma attr_first_append:
  "\<forall>u \<in> set us. \<not> sel u \<Longrightarrow>
     attr_first sel enc (us @ as) off = attr_first sel enc as (off + length (attrs_enc enc us))"
  by (induction us arbitrary: off) (auto simp: add.assoc)

text \<open>
  What the attribute loops have in common. \<open>loop\<close> runs from a position, \<open>enc\<close> encodes an attribute
  of which \<open>ok\<close> holds; on such an attribute the loop either stops with it or goes on behind it,
  and it stops at the end of the element.
\<close>

locale attr_scan =
  fixes loop :: "bytes \<Rightarrow> nat \<Rightarrow> nat \<Rightarrow> (nat \<times> u16) option run"
    and enc :: "'a \<Rightarrow> bytes"
    and ok :: "'a \<Rightarrow> bool"
    and sel :: "'a \<Rightarrow> bool"
  assumes loop_attr: "ok a \<Longrightarrow> length pre + length (enc a) \<le> n \<Longrightarrow>
      loop (pre @ enc a @ post) n (length pre) =
        (if sel a then Some (Ret (Some (length pre, of_nat (length (enc a)))))
         else loop (pre @ enc a @ post) n (length pre + length (enc a)))"
    and loop_end: "loop b n n = Some (Ret None)"
begin

lemma loop_skip:
  assumes "list_all ok as" and "length pre + length (attrs_enc enc as) \<le> n"
  shows "loop (pre @ attrs_enc enc as @ post) n (length pre) =
           (case attr_first sel enc as (length pre) of
              None \<Rightarrow> loop (pre @ attrs_enc enc as @ post) n (length pre + length (attrs_enc enc as))
            | Some (p, a) \<Rightarrow> Some (Ret (Some (p, of_nat (length (enc a))))))"
  using assms
proof (induction as arbitrary: pre)
  case Nil
  show ?case by simp
next
  case (Cons a as)
  show ?case
  proof (cases "sel a")
    case True
    with Cons.prems show ?thesis by (simp add: loop_attr)
  next
    case False
    with Cons.prems
    have "loop (pre @ attrs_enc enc (a # as) @ post) n (length pre) =
        loop ((pre @ enc a) @ attrs_enc enc as @ post) n (length (pre @ enc a))"
      by (simp add: loop_attr)
    with Cons.IH [of "pre @ enc a"] Cons.prems False show ?thesis
      by (simp add: add.assoc split: option.split)
  qed
qed

lemma loop_attrs:
  assumes "list_all ok as"
  shows "loop (pre @ attrs_enc enc as @ post) (length pre + length (attrs_enc enc as)) (length pre) =
           Some (Ret (map_option (\<lambda>(p, a). (p, of_nat (length (enc a)))) (attr_first sel enc as (length pre))))"
  using loop_skip [OF assms, of pre "length pre + length (attrs_enc enc as)" post]
  by (auto simp: loop_end split: option.splits)

end

lemma be16_at [mem_simps]:
  "RTW_GET_BE16 (pre @ RTW_PUT_BE16 v @ post) (length pre) = Some v"
  by (simp add: RTW_GET_BE16_def RTW_PUT_BE16_def rd_def nth_append)

lemma le16_at [mem_simps]:
  "RTW_GET_LE16 (pre @ RTW_PUT_LE16 v @ post) (length pre) = Some v"
  by (simp add: RTW_GET_LE16_def RTW_PUT_LE16_def rd_def nth_append)

lemma of_nat_add_u16: "(of_nat n + numeral k :: u16) = of_nat (n + numeral k)"
  by simp

lemma wps_attr_header:
  "RTW_GET_BE16 (pre @ wps_attr_enc a @ post) (length pre) = Some (fst a)"
  "RTW_GET_BE16 (pre @ wps_attr_enc a @ post) (length pre + 2) = Some (of_nat (length (snd a)))"
proof -
  show "RTW_GET_BE16 (pre @ wps_attr_enc a @ post) (length pre) = Some (fst a)"
    using be16_at [of pre "fst a" "RTW_PUT_BE16 (of_nat (length (snd a))) @ snd a @ post"]
    by (simp add: wps_attr_enc_def)
  show "RTW_GET_BE16 (pre @ wps_attr_enc a @ post) (length pre + 2) = Some (of_nat (length (snd a)))"
    using be16_at [of "pre @ RTW_PUT_BE16 (fst a)" "of_nat (length (snd a))" "snd a @ post"]
    by (simp add: wps_attr_enc_def RTW_PUT_BE16_def [of "fst a"])
qed

lemma p2p_attr_header:
  "rd (pre @ p2p_attr_enc a @ post) (length pre) = Some (fst a)"
  "RTW_GET_LE16 (pre @ p2p_attr_enc a @ post) (length pre + 1) = Some (of_nat (length (snd a)))"
  "rd (pre @ wfd_attr_enc a @ post) (length pre) = Some (fst a)"
  "RTW_GET_BE16 (pre @ wfd_attr_enc a @ post) (length pre + 1) = Some (of_nat (length (snd a)))"
  using le16_at [of "pre @ [fst a]" "of_nat (length (snd a))" "snd a @ post"]
    be16_at [of "pre @ [fst a]" "of_nat (length (snd a))" "snd a @ post"]
  by (simp_all add: p2p_attr_enc_def wfd_attr_enc_def mem_simps)

text \<open>An attribute whose total length fits sixteen bits.\<close>

abbreviation attr_ok :: "nat \<Rightarrow> 'id \<times> bytes \<Rightarrow> bool" where
  "attr_ok hdr a \<equiv> length (snd a) + hdr < 65536"

interpretation wps_attr: attr_scan
  "\<lambda>b n. wps_attr_loop b n i" wps_attr_enc "attr_ok 4" "\<lambda>a. fst a = i" for i
proof (unfold_locales, goal_cases)
  case (1 a pre n post)
  then show ?case
    by (subst wps_attr_loop.simps) (simp add: wps_attr_header of_nat_add_u16 del: of_nat_add add_2_eq_Suc')
next
  case (2 b n)
  show ?case by (simp add: wps_attr_loop.simps)
qed

interpretation p2p_attr: attr_scan
  "\<lambda>b n. attr_loop RTW_GET_LE16 b n i" p2p_attr_enc "attr_ok 3" "\<lambda>a. fst a = i" for i
proof (unfold_locales, goal_cases)
  case (1 a pre n post)
  then show ?case
    by (subst attr_loop.simps) (simp add: p2p_attr_header [simplified] of_nat_add_u16 del: of_nat_add)
next
  case (2 b n)
  show ?case by (simp add: attr_loop.simps)
qed

interpretation wfd_attr: attr_scan
  "\<lambda>b n. attr_loop RTW_GET_BE16 b n i" wfd_attr_enc "attr_ok 3" "\<lambda>a. fst a = i" for i
proof (unfold_locales, goal_cases)
  case (1 a pre n post)
  then show ?case
    by (subst attr_loop.simps) (simp add: p2p_attr_header [simplified] of_nat_add_u16 del: of_nat_add)
next
  case (2 b n)
  show ?case by (simp add: attr_loop.simps)
qed

section \<open>When the loops do not return, and when they do\<close>

lemma wps_attr_loop_stuck:
  assumes "ptr < n" and "RTW_GET_BE16 b ptr = Some j" and "j \<noteq> i" and "RTW_GET_BE16 b (ptr + 2) = Some 0xFFFC"
  shows "wps_attr_loop b n i ptr = None"
proof -
  have "\<not> (ptr < n \<and> RTW_GET_BE16 b ptr \<noteq> Some i \<and> RTW_GET_BE16 b ptr \<noteq> None \<and> RTW_GET_BE16 b (ptr + 2) = Some 0xFFFC)"
    if "wps_attr_loop b n i ptr = Some r" for b n i ptr r
    using that
  proof (induction rule: wps_attr_loop.raw_induct [rotated, consumes 1])
    case (1 f b n i ptr r)
    show ?case
    proof
      assume h: "ptr < n \<and> RTW_GET_BE16 b ptr \<noteq> Some i \<and> RTW_GET_BE16 b ptr \<noteq> None \<and>
        RTW_GET_BE16 b (ptr + 2) = Some 0xFFFC"
      with 1(2) have "f b n i ptr = Some r" by auto
      from 1(1) [OF this] h show False by blast
    qed
  qed
  with assms show ?thesis by fastforce
qed

lemma attr_loop_stuck:
  assumes "ptr + 3 \<le> n" and "rd b ptr = Some j" and "j \<noteq> i" and "get16 b (ptr + 1) = Some 0xFFFD"
  shows "attr_loop get16 b n i ptr = None"
proof -
  have "\<not> (ptr + 3 \<le> n \<and> rd b ptr \<noteq> Some i \<and> rd b ptr \<noteq> None \<and> get16 b (ptr + 1) = Some 0xFFFD)"
    if "attr_loop get16 b n i ptr = Some r" for get16 b n i ptr r
    using that
  proof (induction rule: attr_loop.raw_induct [rotated, consumes 1])
    case (1 f get16 b n i ptr r)
    show ?case
    proof
      assume h: "ptr + 3 \<le> n \<and> rd b ptr \<noteq> Some i \<and> rd b ptr \<noteq> None \<and> get16 b (ptr + 1) = Some 0xFFFD"
      with 1(2) have "f get16 b n i ptr = Some r" by auto
      from 1(1) [OF this] h show False by blast
    qed
  qed
  with assms show ?thesis by fastforce
qed

lemma u16_add_zero: "d + 3 = 0 \<Longrightarrow> d = (0xFFFD :: u16)" "d + 4 = 0 \<Longrightarrow> d = (0xFFFC :: u16)"
  by (simp_all add: eq_neg_iff_add_eq_0 [symmetric])

lemma attr_loop_returns:
  assumes "n \<le> length b" and "\<And>p. p + 2 \<le> length b \<Longrightarrow> get16 b p \<noteq> None"
    and "\<And>p. p + 3 \<le> n \<Longrightarrow> get16 b (p + 1) \<noteq> Some 0xFFFD"
  shows "\<exists>r. attr_loop get16 b n i ptr = Some (Ret r) \<and>
           (\<forall>p l. r = Some (p, l) \<longrightarrow> ptr \<le> p \<and> p + 3 \<le> n \<and> p + unat l \<le> n \<and> b ! p = i \<and>
              l \<noteq> 0 \<and> get16 b (p + 1) = Some (l - 3))"
proof (induction "n - ptr" arbitrary: ptr rule: less_induct)
  case less
  show ?case
  proof (cases "ptr + 3 \<le> n")
    case True
    from True assms(1) have rd: "rd b ptr = Some (b ! ptr)" by (simp add: rd_in)
    from True assms obtain d where d: "get16 b (ptr + 1) = Some d" by fastforce
    with True assms(3) have "d \<noteq> 0xFFFD" by blast
    then have nz: "d + 3 \<noteq> 0" using u16_add_zero(1) by blast
    then have pos: "0 < unat (d + 3)" by (simp add: unat_gt_0)
    have un: "attr_loop get16 b n i ptr =
        (if n < ptr + unat (d + 3) then Some (Ret None)
         else if b ! ptr = i then Some (Ret (Some (ptr, d + 3)))
         else attr_loop get16 b n i (ptr + unat (d + 3)))"
      using True rd d by (subst attr_loop.simps) simp
    show ?thesis
    proof (cases "n < ptr + unat (d + 3) \<or> b ! ptr = i")
      case True': True
      with True d nz show ?thesis unfolding un by (auto simp: not_less)
    next
      case False
      with True pos have "n - (ptr + unat (d + 3)) < n - ptr" by linarith
      from less [OF this] False show ?thesis unfolding un by fastforce
    qed
  next
    case False
    then show ?thesis by (subst attr_loop.simps) simp
  qed
qed

lemma get16_in:
  "p + 2 \<le> length b \<Longrightarrow> RTW_GET_LE16 b p \<noteq> None" "p + 2 \<le> length b \<Longrightarrow> RTW_GET_BE16 b p \<noteq> None"
  by (simp_all add: RTW_GET_LE16_def RTW_GET_BE16_def rd_in)

lemma wps_attr_loop_returns:
  assumes "\<And>p. RTW_GET_BE16 b p \<noteq> Some 0xFFFC"
  shows "\<exists>r. wps_attr_loop b n i ptr = Some r"
proof (induction "n - ptr" arbitrary: ptr rule: less_induct)
  case less
  show ?case
  proof (cases "ptr < n \<and> RTW_GET_BE16 b ptr \<noteq> None \<and> RTW_GET_BE16 b (ptr + 2) \<noteq> None")
    case True
    then obtain j d where jd: "RTW_GET_BE16 b ptr = Some j" "RTW_GET_BE16 b (ptr + 2) = Some d" by auto
    with assms have "d \<noteq> 0xFFFC" by metis
    then have "d + 4 \<noteq> 0" using u16_add_zero(2) by blast
    then have "0 < unat (d + 4)" by (simp add: unat_gt_0)
    with True have "n - (ptr + unat (d + 4)) < n - ptr" by linarith
    from less [OF this] True jd show ?thesis by (subst wps_attr_loop.simps) simp
  next
    case False
    then show ?thesis by (subst wps_attr_loop.simps) (auto split: bind_splits)
  qed
qed

section \<open>The searches on encoded elements\<close>

lemma vendor_hit_head:
  "length oui = 4 \<Longrightarrow> vendor_hit oui ([0xDD, l] @ oui @ d) 0 = Some True"
  by (simp add: vendor_hit_def rd_def rtw_memcmp_def rd_slice_def WLAN_EID_VENDOR_SPECIFIC_def)

lemma oui_length [simp]: "length wps_oui = 4" "length p2p_oui = 4" "length wfd_oui = 4"
  by (simp_all add: oui_defs)

text \<open>The result of an attribute search over a list of attributes.\<close>

definition attr_result :: "('a \<Rightarrow> bytes) \<Rightarrow> (nat \<times> 'a) option \<Rightarrow> bool \<Rightarrow> nat option \<times> bytes \<times> nat" where
  "attr_result enc r want =
     (case r of
        None \<Rightarrow> (None, [], 0)
      | Some (p, a) \<Rightarrow> (Some p, if want then enc a else [], length (enc a)))"

lemma attr_result_None [simp]: "attr_result enc None want = (None, [], 0)"
  by (simp add: attr_result_def)

lemma copy_attr_result:
  assumes "list_all (\<lambda>a. length (enc a) < 65536) as"
  shows "copy_attr (pre @ attrs_enc enc as @ post) want
           (Some (Ret (map_option (\<lambda>(p, a). (p, of_nat (length (enc a)))) (attr_first sel enc as (length pre))))) =
         Some (Ret (attr_result enc (attr_first sel enc as (length pre)) want))"
proof (cases "attr_first sel enc as (length pre)")
  case None
  then show ?thesis by (simp add: copy_attr_def)
next
  case (Some r)
  obtain p a where r: "r = (p, a)" by (cases r)
  from attr_first_split [of sel enc as "length pre" p a] Some r obtain us vs
    where as: "as = us @ a # vs" and p: "p = length pre + length (attrs_enc enc us)" by auto
  with assms have "unat (of_nat (length (enc a)) :: u16) = length (enc a)" by simp
  then show ?thesis using Some r by (simp add: copy_attr_def attr_result_def as p rd_slice_in)
qed

lemma wps_attr_head:
  assumes "list_all (attr_ok 4) as"
  shows "rtw_get_wps_attr ([221, l] @ wps_oui @ attrs_enc wps_attr_enc as @ post)
           (6 + length (attrs_enc wps_attr_enc as)) i want =
         Some (Ret (attr_result wps_attr_enc (attr_first (\<lambda>a. fst a = i) wps_attr_enc as 6) want))"
proof -
  let ?h = "[221, l] @ wps_oui"
  have h: "length ?h = 6" by simp
  have "list_all (\<lambda>a. length (wps_attr_enc a) < 65536) as" using assms by (simp add: list_all_iff)
  from copy_attr_result [OF this, of ?h post want "\<lambda>a. fst a = i"]
    wps_attr.loop_attrs [OF assms, of ?h post i] vendor_hit_head [of wps_oui l "attrs_enc wps_attr_enc as @ post"] h
  show ?thesis by (simp add: rtw_get_wps_attr_def)
qed

lemma wps_attr_tlv:
  assumes "list_all (attr_ok 4) as"
  shows "rtw_get_wps_attr (tlv_enc (221, wps_oui @ attrs_enc wps_attr_enc as) @ post)
           (6 + length (attrs_enc wps_attr_enc as)) i want =
         Some (Ret (attr_result wps_attr_enc (attr_first (\<lambda>a. fst a = i) wps_attr_enc as 6) want))"
  using wps_attr_head [OF assms, of _ post i want] by (simp add: tlv_enc_def)

lemma p2p_attr_head:
  assumes "list_all (attr_ok 3) as"
  shows "rtw_get_p2p_attr (Some ([221, l] @ p2p_oui @ attrs_enc p2p_attr_enc as @ post))
           (6 + length (attrs_enc p2p_attr_enc as)) i want =
         Some (Ret (attr_result p2p_attr_enc (attr_first (\<lambda>a. fst a = i) p2p_attr_enc as 6) want))"
proof (cases "as = []")
  case True
  then show ?thesis by (simp add: rtw_get_p2p_attr_def)
next
  case False
  let ?h = "[221, l] @ p2p_oui"
  have h: "length ?h = 6" by simp
  have gt: "attrs_enc p2p_attr_enc as \<noteq> []" using False by (cases as) (auto simp: p2p_attr_enc_def)
  have "list_all (\<lambda>a. length (p2p_attr_enc a) < 65536) as" using assms by (simp add: list_all_iff)
  from copy_attr_result [OF this, of ?h post want "\<lambda>a. fst a = i"] gt
    p2p_attr.loop_attrs [OF assms, of ?h post i] vendor_hit_head [of p2p_oui l "attrs_enc p2p_attr_enc as @ post"] h
  show ?thesis by (simp add: rtw_get_p2p_attr_def)
qed

lemma p2p_attr_tlv:
  assumes "list_all (attr_ok 3) as"
  shows "rtw_get_p2p_attr (Some (tlv_enc (221, p2p_oui @ attrs_enc p2p_attr_enc as) @ post))
           (6 + length (attrs_enc p2p_attr_enc as)) i want =
         Some (Ret (attr_result p2p_attr_enc (attr_first (\<lambda>a. fst a = i) p2p_attr_enc as 6) want))"
  using p2p_attr_head [OF assms, of _ post i want] by (simp add: tlv_enc_def)

lemma wfd_attr_head:
  assumes "list_all (attr_ok 3) as"
  shows "rtw_get_wfd_attr (Some ([221, l] @ wfd_oui @ attrs_enc wfd_attr_enc as @ post))
           (6 + length (attrs_enc wfd_attr_enc as)) i want =
         Some (Ret (attr_result wfd_attr_enc (attr_first (\<lambda>a. fst a = i) wfd_attr_enc as 6) want))"
proof (cases "as = []")
  case True
  then show ?thesis by (simp add: rtw_get_wfd_attr_def)
next
  case False
  let ?h = "[221, l] @ wfd_oui"
  have h: "length ?h = 6" by simp
  have gt: "attrs_enc wfd_attr_enc as \<noteq> []" using False by (cases as) (auto simp: wfd_attr_enc_def)
  have "list_all (\<lambda>a. length (wfd_attr_enc a) < 65536) as" using assms by (simp add: list_all_iff)
  from copy_attr_result [OF this, of ?h post want "\<lambda>a. fst a = i"] gt
    wfd_attr.loop_attrs [OF assms, of ?h post i] vendor_hit_head [of wfd_oui l "attrs_enc wfd_attr_enc as @ post"] h
  show ?thesis by (simp add: rtw_get_wfd_attr_def)
qed

lemma wfd_attr_tlv:
  assumes "list_all (attr_ok 3) as"
  shows "rtw_get_wfd_attr (Some (tlv_enc (221, wfd_oui @ attrs_enc wfd_attr_enc as) @ post))
           (6 + length (attrs_enc wfd_attr_enc as)) i want =
         Some (Ret (attr_result wfd_attr_enc (attr_first (\<lambda>a. fst a = i) wfd_attr_enc as 6) want))"
  using wfd_attr_head [OF assms, of _ post i want] by (simp add: tlv_enc_def)

text \<open>The content of the attribute found.\<close>

lemma attr_content_result:
  assumes "b = pre @ attrs_enc enc as @ post" and "attr_first sel enc as (length pre) = Some (p, a)"
    and "\<And>a. \<exists>h. length h = hdr \<and> enc a = h @ snd a" and "0 < hdr"
  shows "attr_content hdr b True (Some cap) (attr_result enc (Some (p, a)) False) =
           Some (Some (p + hdr), take (min cap (length (snd a))) (snd a), Some (min cap (length (snd a))))"
proof -
  from attr_first_split [OF assms(2)] obtain us vs
    where as: "as = us @ a # vs" and p: "p = length pre + length (attrs_enc enc us)" by auto
  from assms(3) obtain h where h: "length h = hdr" "enc a = h @ snd a" by blast
  with assms(1) show ?thesis using assms(4)
    by (simp add: attr_content_def attr_result_def as p rd_slice_in min_def)
qed

section \<open>Deletion\<close>

lemma close_gap_eq:
  assumes "b = P @ E @ V @ post"
  shows "close_gap b (length P) (length E) (length V) = Some (P @ V @ replicate (length E) 0 @ post)"
proof -
  have "rtw_memmove b (length P) (length P + length E) (length V) =
      Some (P @ V @ drop (length V) (E @ V) @ post)"
    using memmove_tlv [OF assms] .
  then show ?thesis by (simp add: close_gap_def wr_slice_def)
qed

lemma length_tlvs_enc_filter: "length (tlvs_enc (filter P ts)) \<le> length (tlvs_enc ts)"
  by (induction ts) auto

lemma length_attrs_enc_filter: "length (attrs_enc enc (filter P as)) \<le> length (attrs_enc enc as)"
  by (induction as) auto

text \<open>Deleting elements one by one leaves the elements that are not selected; the bytes gained are zero.\<close>

lemma del_ie_loop_filter:
  assumes "\<And>ts post. list_all ok ts \<Longrightarrow> length (tlvs_enc ts) \<le> 768 \<Longrightarrow>
       get (Some (tlvs_enc ts @ post)) (int (length (tlvs_enc ts))) False =
         Some (search_result (tlv_first sel ts 0) False)"
    and "list_all ok ts" and "length (tlvs_enc ts) \<le> 768"
  shows "del_ie_loop get (tlvs_enc ts @ post) (length (tlvs_enc ts)) =
      (let ts' = filter (\<lambda>t. \<not> sel t) ts
       in Some (Ret (tlvs_enc ts' @ replicate (length (tlvs_enc ts) - length (tlvs_enc ts')) 0 @ post,
                     length (tlvs_enc ts'))))"
  using assms(2,3)
proof (induction "length ts" arbitrary: ts post rule: less_induct)
  case less
  note get = assms(1) [OF less.prems]
  show ?case
  proof (cases "tlv_first sel ts 0")
    case None
    then have "filter (\<lambda>t. \<not> sel t) ts = ts" by (auto simp: tlv_first_None)
    with get None less.prems show ?thesis by (subst del_ie_loop.simps) simp
  next
    case (Some r)
    obtain p t where r: "r = (p, t)" by (cases r)
    obtain us vs where ts: "ts = us @ t # vs" and p: "p = length (tlvs_enc us)"
      and us: "\<forall>u \<in> set us. \<not> sel u" and t: "sel t"
      using tlv_first_split [of sel ts 0 p t] Some r by auto
    let ?ts = "us @ vs" and ?n = "length (snd t) + 2"
    have gap: "close_gap (tlvs_enc ts @ post) p ?n (length (tlvs_enc vs)) =
        Some (tlvs_enc ?ts @ replicate ?n 0 @ post)"
      using close_gap_eq [of "tlvs_enc ts @ post" "tlvs_enc us" "tlv_enc t" "tlvs_enc vs" post] ts p by simp
    have "del_ie_loop get (tlvs_enc ts @ post) (length (tlvs_enc ts)) =
        del_ie_loop get (tlvs_enc ?ts @ replicate ?n 0 @ post) (length (tlvs_enc ?ts))"
    proof -
      have "length (tlvs_enc ts) - (p + ?n) = length (tlvs_enc vs)"
        "length (tlvs_enc ts) - ?n = length (tlvs_enc ?ts)" "p + ?n \<le> length (tlvs_enc ts)"
        "?n \<le> length (tlvs_enc ts)" by (simp_all add: ts p)
      with get Some r less.prems(2) gap show ?thesis
        by (subst del_ie_loop.simps) (simp add: search_result_def del: add_2_eq_Suc')
    qed
    also have "\<dots> = (let ts' = filter (\<lambda>t. \<not> sel t) ?ts
       in Some (Ret (tlvs_enc ts' @ replicate (length (tlvs_enc ?ts) - length (tlvs_enc ts')) 0 @
                     replicate ?n 0 @ post, length (tlvs_enc ts'))))"
      using less.prems by (intro less.hyps) (auto simp: ts)
    finally show ?thesis using us t length_tlvs_enc_filter [of "\<lambda>t. \<not> sel t" vs]
      by (simp add: ts Let_def replicate_add [symmetric] append_assoc [symmetric] del: append_assoc replicate.simps)
  qed
qed

text \<open>Deleting attributes one by one, with the element's length byte kept in step.\<close>

lemma del_attr_loop_filter:
  assumes get: "\<And>as post. list_all ok as \<Longrightarrow>
       get (Some (tlv_enc (221, oui @ attrs_enc enc as) @ post)) (6 + length (attrs_enc enc as)) i False =
         Some (Ret (attr_result enc (attr_first sel enc as 6) False))"
    and oui: "length oui = 4" and enc: "\<And>a. enc a \<noteq> []" and "list_all ok as"
  shows "del_attr_loop get (tlv_enc (221, oui @ attrs_enc enc as) @ post) (6 + length (attrs_enc enc as)) i =
      (let as' = filter (\<lambda>a. \<not> sel a) as
       in Some (Ret (tlv_enc (221, oui @ attrs_enc enc as') @
                     replicate (length (attrs_enc enc as) - length (attrs_enc enc as')) 0 @ post,
                     6 + length (attrs_enc enc as'))))"
  using assms(4)
proof (induction "length as" arbitrary: as post rule: less_induct)
  case less
  show ?case
  proof (cases "attr_first sel enc as 6")
    case None
    then have "filter (\<lambda>a. \<not> sel a) as = as" by (auto simp: attr_first_None)
    with get [OF less.prems] None show ?thesis by (subst del_attr_loop.simps) simp
  next
    case (Some r)
    obtain p a where r: "r = (p, a)" by (cases r)
    obtain us vs where as: "as = us @ a # vs" and p: "p = 6 + length (attrs_enc enc us)"
      and us: "\<forall>u \<in> set us. \<not> sel u" and a: "sel a"
      using attr_first_split [of sel enc as 6 p a] Some r by auto
    let ?as = "us @ vs" and ?n = "length (enc a)" and ?e = "\<lambda>as. length (attrs_enc enc as)"
    let ?h = "\<lambda>as. 221 # word_of_nat (length (oui @ attrs_enc enc as)) # oui :: bytes"
    have gap: "close_gap (tlv_enc (221, oui @ attrs_enc enc as) @ post) p ?n (?e vs) =
        Some (?h as @ attrs_enc enc ?as @ replicate ?n 0 @ post)"
      using close_gap_eq [of _ "?h as @ attrs_enc enc us" "enc a" "attrs_enc enc vs" post] oui
      by (simp add: as p tlv_enc_def)
    have len: "wr_slice (?h as @ x) 1 [word_of_nat (length (oui @ attrs_enc enc as)) - word_of_nat ?n] = Some (?h ?as @ x)"
      for x by (simp add: wr_slice_def as)
    have "del_attr_loop get (tlv_enc (221, oui @ attrs_enc enc as) @ post) (6 + ?e as) i =
        del_attr_loop get (tlv_enc (221, oui @ attrs_enc enc ?as) @ replicate ?n 0 @ post) (6 + ?e ?as) i"
    proof -
      have "6 + ?e as - (p + ?n) = ?e vs" "6 + ?e as - ?n = 6 + ?e ?as" "p + ?n \<le> 6 + ?e as" "?n \<le> 6 + ?e as"
        by (simp_all add: as p)
      moreover have "rd (?h as @ x) 1 = Some (word_of_nat (length (oui @ attrs_enc enc as)))" for x
        by (simp add: rd_def)
      ultimately show ?thesis using get [OF less.prems] Some r gap len enc
        by (subst del_attr_loop.simps) (simp add: attr_result_def tlv_enc_def)
    qed
    also have "\<dots> = (let as' = filter (\<lambda>a. \<not> sel a) ?as
       in Some (Ret (tlv_enc (221, oui @ attrs_enc enc as') @ replicate (?e ?as - ?e as') 0 @
                     replicate ?n 0 @ post, 6 + ?e as')))"
      using less.prems by (intro less.hyps) (auto simp: as)
    finally show ?thesis using us a length_attrs_enc_filter [of enc "\<lambda>a. \<not> sel a" vs]
      by (simp add: as Let_def replicate_add [symmetric] append_assoc [symmetric] del: append_assoc replicate.simps)
  qed
qed


section \<open>Merging\<close>

text \<open>What the P2P elements of a series carry behind their prefix.\<close>

definition p2p_bodies :: "tlv list \<Rightarrow> bytes" where
  "p2p_bodies ts = concat (map (\<lambda>t. drop 4 (snd t)) (filter (tlv_match 221 (Some p2p_oui)) ts))"

lemma p2p_bodies_simps [simp]:
  "p2p_bodies [] = []"
  "p2p_bodies (t # ts) = (if tlv_match 221 (Some p2p_oui) t then drop 4 (snd t) else []) @ p2p_bodies ts"
  by (simp_all add: p2p_bodies_def)

lemma vendor_hit_p2p:
  "tlv_wf t \<Longrightarrow> tlv_room 221 4 t \<Longrightarrow>
     vendor_hit p2p_oui (pre @ tlv_enc t @ post) (length pre) = Some (tlv_match 221 (Some p2p_oui) t)"
  using get_p2p_ie.hit_tlv [of t pre post] by (simp add: WLAN_EID_VENDOR_SPECIFIC_def)

lemma p2p_room: "tlv_match 221 (Some p2p_oui) t \<Longrightarrow> tlv_room 221 4 t \<Longrightarrow> 4 \<le> length (snd t)"
  by (simp add: tlv_match_def tlv_room_def)

lemma merged_len_tlvs:
  assumes "list_all tlv_wf ts" and "list_all (tlv_room 221 4) ts"
  shows "merged_len_loop (pre @ tlvs_enc ts @ post) (length pre + length (tlvs_enc ts)) (length pre) n =
           Some (n + int (length (p2p_bodies ts)))"
  using assms
proof (induction ts arbitrary: pre n)
  case Nil
  show ?case by (simp add: merged_len_loop.simps)
next
  case (Cons t ts)
  let ?b = "pre @ tlv_enc t @ tlvs_enc ts @ post"
  let ?m = "tlv_match 221 (Some p2p_oui) t"
  have hit: "vendor_hit p2p_oui ?b (length pre) = Some ?m"
    using Cons.prems by (intro vendor_hit_p2p) auto
  have len: "length (snd t) < 256" "?m \<Longrightarrow> 4 \<le> length (snd t)"
    using Cons.prems by (auto simp: tlv_wf_def intro: p2p_room)
  have "merged_len_loop (pre @ tlvs_enc (t # ts) @ post) (length pre + length (tlvs_enc (t # ts))) (length pre) n =
     merged_len_loop ((pre @ tlv_enc t) @ tlvs_enc ts @ post)
       (length (pre @ tlv_enc t) + length (tlvs_enc ts)) (length (pre @ tlv_enc t))
       (if ?m then n + (int (length (snd t)) - 4) else n)"
    using hit len(1) rd_tlv_len [of pre t "tlvs_enc ts @ post"]
    by (subst merged_len_loop.simps) (simp add: add.assoc)
  also have "\<dots> = Some ((if ?m then n + (int (length (snd t)) - 4) else n) + int (length (p2p_bodies ts)))"
    using Cons.prems by (intro Cons.IH) auto
  finally show ?case using len(2) by auto
qed

lemma merge_loop_tlvs:
  assumes "list_all tlv_wf ts" and "list_all (tlv_room 221 4) ts" and "length D = length (p2p_bodies ts)"
  shows "merge_loop (pre @ tlvs_enc ts @ post) (length pre + length (tlvs_enc ts)) (length pre) (M @ D @ E) (length M) len =
           Some (M @ p2p_bodies ts @ E, len + of_nat (length (p2p_bodies ts)))"
  using assms
proof (induction ts arbitrary: pre M D len)
  case Nil
  then show ?case by (simp add: merge_loop.simps)
next
  case (Cons t ts)
  let ?b = "pre @ tlv_enc t @ tlvs_enc ts @ post"
  let ?m = "tlv_match 221 (Some p2p_oui) t"
  have hit: "vendor_hit p2p_oui ?b (length pre) = Some ?m"
    using Cons.prems by (intro vendor_hit_p2p) auto
  have wf: "length (snd t) < 256" using Cons.prems by (simp add: tlv_wf_def)
  note rd = rd_tlv_len [of pre t "tlvs_enc ts @ post"]
  show ?case
  proof (cases ?m)
    case False
    have "merge_loop (pre @ tlvs_enc (t # ts) @ post) (length pre + length (tlvs_enc (t # ts))) (length pre) (M @ D @ E) (length M) len =
       merge_loop ((pre @ tlv_enc t) @ tlvs_enc ts @ post)
         (length (pre @ tlv_enc t) + length (tlvs_enc ts)) (length (pre @ tlv_enc t)) (M @ D @ E) (length M) len"
      using hit wf rd False by (subst merge_loop.simps) (simp add: add.assoc)
    with False Cons.prems Cons.IH [of D "pre @ tlv_enc t" M len] show ?thesis by simp
  next
    case True
    then have ge: "4 \<le> length (snd t)" using Cons.prems by (auto intro: p2p_room)
    let ?d = "drop 4 (snd t)" and ?D = "drop (length (snd t) - 4) D"
    have sl: "rd_slice ?b (length pre + 6) (length (snd t) - 4) = Some ?d"
      using ge by (simp add: rd_slice_def tlv_enc_def)
    have wr: "wr_slice (M @ D @ E) (length M) ?d = Some ((M @ ?d) @ ?D @ E)"
      using Cons.prems(3) True by (simp add: wr_slice_def)
    have "merge_loop (pre @ tlvs_enc (t # ts) @ post) (length pre + length (tlvs_enc (t # ts))) (length pre) (M @ D @ E) (length M) len =
       merge_loop ((pre @ tlv_enc t) @ tlvs_enc ts @ post)
         (length (pre @ tlv_enc t) + length (tlvs_enc ts)) (length (pre @ tlv_enc t)) ((M @ ?d) @ ?D @ E)
         (length (M @ ?d)) (len + (of_nat (length (snd t)) - 4))"
      using hit wf rd True ge sl wr by (subst merge_loop.simps) (simp add: add.assoc)
    also have "\<dots> = Some ((M @ ?d) @ p2p_bodies ts @ E,
        len + (of_nat (length (snd t)) - 4) + of_nat (length (p2p_bodies ts)))"
      using Cons.prems True by (intro Cons.IH) auto
    finally show ?thesis using True ge by (simp add: of_nat_diff)
  qed
qed


lemma merge_ies_tlvs:
  assumes "list_all tlv_wf ts" and "list_all (tlv_room 221 4) ts"
    and "length m = 6 + length (p2p_bodies ts)"
  shows "rtw_p2p_merge_ies (tlvs_enc ts) (length (tlvs_enc ts)) (Some m) =
           Some (Some ([0xDD, 0] @ p2p_oui @ p2p_bodies ts), length (p2p_bodies ts) mod 256 + 4)"
proof -
  let ?D = "drop 6 m"
  have "wr_slice m 0 [0xDD, 0x00, 0x50, 0x6f, 0x9a, 0x09] = Some ([0xDD, 0x00, 0x50, 0x6f, 0x9a, 0x09] @ ?D)"
    using assms(3) by (simp add: wr_slice_def numeral_eq_Suc)
  moreover have "merge_loop (tlvs_enc ts) (length (tlvs_enc ts)) 0 ([0xDD, 0x00, 0x50, 0x6f, 0x9a, 0x09] @ ?D) 6 0 =
      Some ([0xDD, 0x00, 0x50, 0x6f, 0x9a, 0x09] @ p2p_bodies ts, 0 + of_nat (length (p2p_bodies ts)))"
    using merge_loop_tlvs [OF assms(1,2), of ?D "[]" "[]" "[0xDD, 0x00, 0x50, 0x6f, 0x9a, 0x09]" "[]" 0] assms(3)
    by (simp add: eval_nat_numeral)
  ultimately show ?thesis
    by (simp add: rtw_p2p_merge_ies_def oui_defs unat_of_nat)
qed

text \<open>Two bytes short of the element, the last attribute is out of reach.\<close>

lemma p2p_attr_short:
  assumes "list_all (attr_ok 3) (as @ [a])"
  shows "rtw_get_p2p_attr (Some ([0xDD, l] @ p2p_oui @ attrs_enc p2p_attr_enc (as @ [a])))
           (length (attrs_enc p2p_attr_enc (as @ [a])) + 4) i want =
         Some (Ret (attr_result p2p_attr_enc (attr_first (\<lambda>a. fst a = i) p2p_attr_enc as 6) want))"
proof -
  let ?h = "[0xDD, l] @ p2p_oui" and ?e = "attrs_enc p2p_attr_enc"
  let ?b = "?h @ ?e as @ p2p_attr_enc a" and ?n = "length (?e (as @ [a])) + 4"
  have h: "length ?h = 6" by simp
  have ok: "list_all (attr_ok 3) as" "list_all (\<lambda>a. length (p2p_attr_enc a) < 65536) as"
    using assms by (auto simp: list_all_iff)
  have last: "attr_loop RTW_GET_LE16 ?b ?n i (6 + length (?e as)) = Some (Ret None)"
    using p2p_attr_header [of "?h @ ?e as" a "[]"] assms
    by (subst attr_loop.simps) (simp add: of_nat_add_u16 del: of_nat_add)
  have "attr_loop RTW_GET_LE16 ?b ?n i 6 =
      Some (Ret (map_option (\<lambda>(p, a). (p, of_nat (length (p2p_attr_enc a)))) (attr_first (\<lambda>a. fst a = i) p2p_attr_enc as 6)))"
    using p2p_attr.loop_skip [OF ok(1), of ?h ?n "p2p_attr_enc a" i] last h by (auto split: option.splits)
  with copy_attr_result [OF ok(2), of ?h "p2p_attr_enc a" want "\<lambda>a. fst a = i"] h
    vendor_hit_head [of p2p_oui l "?e as @ p2p_attr_enc a"]
  show ?thesis by (cases "?n \<le> 6") (auto simp: rtw_get_p2p_attr_def attr_first_None)
qed


lemma attr_search_safe:
  assumes "n \<le> length b" and "\<And>p. p + 2 \<le> length b \<Longrightarrow> get16 b p \<noteq> None"
    and "\<And>p. p + 3 \<le> n \<Longrightarrow> get16 b (p + 1) \<noteq> Some 0xFFFD" and "length oui = 4"
  shows "\<exists>r c m. (if n \<le> 6 then Some (Ret (None, [], 0))
          else (case vendor_hit oui b 0 of
                  None \<Rightarrow> Some Fault
                | Some False \<Rightarrow> Some (Ret (None, [], 0))
                | Some True \<Rightarrow> copy_attr b want (attr_loop get16 b n i 6))) = Some (Ret (r, c, m)) \<and>
            (\<forall>p. r = Some p \<longrightarrow> 6 \<le> p \<and> p + 3 \<le> n \<and> p + m \<le> n \<and> b ! p = i)"
proof (cases "n \<le> 6")
  case False
  then obtain h where h: "vendor_hit oui b 0 = Some h" using vendor_hit_safe [of oui 0 n b] assms by auto
  from attr_loop_returns [of n b get16 i 6] assms(1-3) obtain r where
    r: "attr_loop get16 b n i 6 = Some (Ret r)"
    "\<forall>p l. r = Some (p, l) \<longrightarrow> 6 \<le> p \<and> p + 3 \<le> n \<and> p + unat l \<le> n \<and> b ! p = i" by blast
  show ?thesis
  proof (cases h)
    case True
    with False h r assms(1) show ?thesis
      by (cases r) (auto simp: copy_attr_def rd_slice_in)
  qed (use False h in simp)
qed simp

lemma write_p2p_attr:
  assumes "length pad = length d + 3" and "length d + 3 < 65536"
  shows "rtw_set_p2p_attr_content (pre @ pad @ post) (length pre) i (of_nat (length d)) (Some d) =
           Some (pre @ p2p_attr_enc (i, d) @ post, length d + 3)"
proof -
  have "3 \<le> length pad" using assms by simp
  then obtain x y z D where D: "pad = x # y # z # D" by (auto simp: numeral_eq_Suc Suc_le_length_iff)
  with assms show ?thesis
    by (simp add: rtw_set_p2p_attr_content_def wr_slice_def rd_slice_def p2p_attr_enc_def RTW_PUT_LE16_def numeral_3_eq_3)
qed

lemma del_p2p_ie_tlvs:
  assumes "list_all tlv_wf ts" and "list_all (tlv_room 221 4) ts" and "length (tlvs_enc ts) \<le> 768"
  shows "(let ts' = filter (\<lambda>t. \<not> tlv_match 221 (Some p2p_oui) t) ts
          in rtw_del_p2p_ie (tlvs_enc ts @ post) (length (tlvs_enc ts)) =
             Some (Ret (tlvs_enc ts' @ replicate (length (tlvs_enc ts) - length (tlvs_enc ts')) 0 @ post,
                        length (tlvs_enc ts'))))"
    and "(let ts' = filter (\<lambda>t. \<not> tlv_match 221 (Some wfd_oui) t) ts
          in rtw_del_wfd_ie (tlvs_enc ts @ post) (length (tlvs_enc ts)) =
             Some (Ret (tlvs_enc ts' @ replicate (length (tlvs_enc ts) - length (tlvs_enc ts')) 0 @ post,
                        length (tlvs_enc ts'))))"
proof -
  let ?ok = "\<lambda>t. tlv_wf t \<and> tlv_room 221 4 t"
  have ok: "list_all ?ok ts" using assms by (simp add: list_all_iff)
  have get: "rtw_get_p2p_ie (Some (tlvs_enc us @ post)) (int (length (tlvs_enc us))) False =
         Some (search_result (tlv_first (tlv_match 221 (Some p2p_oui)) us 0) False)"
    "rtw_get_wfd_ie (Some (tlvs_enc us @ post)) (int (length (tlvs_enc us))) False =
         Some (search_result (tlv_first (tlv_match 221 (Some wfd_oui)) us 0) False)"
    if "list_all ?ok us" "length (tlvs_enc us) \<le> 768" for us post
    using vendor_search_tlvs [of us post False] that by (simp_all add: list_all_iff)
  show "let ts' = filter (\<lambda>t. \<not> tlv_match 221 (Some p2p_oui) t) ts
          in rtw_del_p2p_ie (tlvs_enc ts @ post) (length (tlvs_enc ts)) =
             Some (Ret (tlvs_enc ts' @ replicate (length (tlvs_enc ts) - length (tlvs_enc ts')) 0 @ post,
                        length (tlvs_enc ts')))"
    using del_ie_loop_filter [of ?ok rtw_get_p2p_ie "tlv_match 221 (Some p2p_oui)" ts post, OF get(1) ok assms(3)]
    by (simp add: rtw_del_p2p_ie_def Let_def)
  show "let ts' = filter (\<lambda>t. \<not> tlv_match 221 (Some wfd_oui) t) ts
          in rtw_del_wfd_ie (tlvs_enc ts @ post) (length (tlvs_enc ts)) =
             Some (Ret (tlvs_enc ts' @ replicate (length (tlvs_enc ts) - length (tlvs_enc ts')) 0 @ post,
                        length (tlvs_enc ts')))"
    using del_ie_loop_filter [of ?ok rtw_get_wfd_ie "tlv_match 221 (Some wfd_oui)" ts post, OF get(2) ok assms(3)]
    by (simp add: rtw_del_wfd_ie_def Let_def)
qed

lemma length_p2p_bodies:
  "list_all (tlv_room 221 4) ts \<Longrightarrow> p2p_bodies ts = [] \<or> length (p2p_bodies ts) + 6 \<le> length (tlvs_enc ts)"
proof (induction ts)
  case (Cons t ts)
  then show ?case using p2p_room [of t] by (cases "p2p_bodies ts = []") auto
qed simp

lemma attrs_enc_ok:
  "length (attrs_enc p2p_attr_enc as) < 256 \<Longrightarrow> list_all (attr_ok 3) as"
  by (induction as) auto

section \<open>Properties\<close>

text \<open>C31: on an element that holds a list of attributes of less than 64 KiB each, the WPS, P2P and
  WFD attribute searches return address, copy and total length of the first attribute with the
  identifier asked for, and NULL when there is none.\<close>

theorem attr_searches_first:
  assumes "list_all (attr_ok 4) was" and "list_all (attr_ok 3) as"
  shows "rtw_get_wps_attr (tlv_enc (221, wps_oui @ attrs_enc wps_attr_enc was) @ post)
           (6 + length (attrs_enc wps_attr_enc was)) wi want =
         Some (Ret (attr_result wps_attr_enc (attr_first (\<lambda>a. fst a = wi) wps_attr_enc was 6) want)) \<and>
         rtw_get_p2p_attr (Some (tlv_enc (221, p2p_oui @ attrs_enc p2p_attr_enc as) @ post))
           (6 + length (attrs_enc p2p_attr_enc as)) i want =
         Some (Ret (attr_result p2p_attr_enc (attr_first (\<lambda>a. fst a = i) p2p_attr_enc as 6) want)) \<and>
         rtw_get_wfd_attr (Some (tlv_enc (221, wfd_oui @ attrs_enc wfd_attr_enc as) @ post))
           (6 + length (attrs_enc wfd_attr_enc as)) i want =
         Some (Ret (attr_result wfd_attr_enc (attr_first (\<lambda>a. fst a = i) wfd_attr_enc as 6) want))"
  using wps_attr_tlv [OF assms(1)] p2p_attr_tlv [OF assms(2)] wfd_attr_tlv [OF assms(2)] by blast

theorem attr_searches_first_witness:
  "rtw_get_p2p_attr (Some (tlv_enc (221, p2p_oui @ attrs_enc p2p_attr_enc [(2, [1]), (4, [7, 8])])))
     (6 + length (attrs_enc p2p_attr_enc [(2, [1]), (4, [7, 8])])) 4 True =
   Some (Ret (Some 10, [4, 2, 0, 7, 8], 5))"
  using attr_searches_first [of "[]" "[(2, [1]), (4, [7, 8])]" "[]" 0 True 4]
  by (simp add: attr_result_def p2p_attr_enc_def RTW_PUT_LE16_def)



text \<open>Whatever the bytes are, as long as no length field is 0xFFFD the P2P and WFD attribute
  searches return and never leave the \<open>ielen\<close> bytes of the element; an attribute they find lies
  within the element and has the identifier asked for.\<close>

lemma p2p_wfd_attr_safe:
  assumes "n \<le> length b"
    and "\<forall>p. p + 3 \<le> n \<longrightarrow> RTW_GET_LE16 b (p + 1) \<noteq> Some 0xFFFD \<and> RTW_GET_BE16 b (p + 1) \<noteq> Some 0xFFFD"
  shows "(\<exists>r c m. rtw_get_p2p_attr (Some b) n i want = Some (Ret (r, c, m)) \<and>
            (\<forall>p. r = Some p \<longrightarrow> 6 \<le> p \<and> p + 3 \<le> n \<and> p + m \<le> n \<and> b ! p = i)) \<and>
         (\<exists>r c m. rtw_get_wfd_attr (Some b) n i want = Some (Ret (r, c, m)) \<and>
            (\<forall>p. r = Some p \<longrightarrow> 6 \<le> p \<and> p + 3 \<le> n \<and> p + m \<le> n \<and> b ! p = i))"
  using attr_search_safe [of n b RTW_GET_LE16 p2p_oui want i] attr_search_safe [of n b RTW_GET_BE16 wfd_oui want i]
    assms get16_in by (simp add: rtw_get_p2p_attr_def rtw_get_wfd_attr_def)

text \<open>C33: an attribute written by \<open>rtw_set_p2p_attr_content\<close> behind others with different
  identifiers is read back by \<open>rtw_get_p2p_attr_content\<close>, cut to the size of the caller's
  buffer.\<close>

theorem p2p_attr_set_get:
  assumes "list_all (attr_ok 3) as" and "\<forall>a \<in> set as. fst a \<noteq> i" and "length d + 3 < 65536"
    and "length pad = length d + 3"
  shows "\<exists>b'. rtw_set_p2p_attr_content ([221, l] @ p2p_oui @ attrs_enc p2p_attr_enc as @ pad @ post)
                (6 + length (attrs_enc p2p_attr_enc as)) i (of_nat (length d)) (Some d) = Some (b', length d + 3) \<and>
           rtw_get_p2p_attr_content (Some b') (6 + length (attrs_enc p2p_attr_enc as) + (length d + 3)) i True (Some cap) =
             Some (Ret (Some (6 + length (attrs_enc p2p_attr_enc as) + 3),
                        take (min cap (length d)) d, Some (min cap (length d))))"
proof -
  let ?h = "[221, l] @ p2p_oui" and ?e = "attrs_enc p2p_attr_enc as" and ?as = "as @ [(i, d)]"
  let ?b = "?h @ attrs_enc p2p_attr_enc ?as @ post"
  have set: "rtw_set_p2p_attr_content (?h @ ?e @ pad @ post) (6 + length ?e) i (of_nat (length d)) (Some d) =
      Some (?b, length d + 3)"
    using write_p2p_attr [of pad d "?h @ ?e" post i] assms(3,4) by simp
  have first: "attr_first (\<lambda>a. fst a = i) p2p_attr_enc ?as 6 = Some (6 + length ?e, (i, d))"
    using assms(2) by (simp add: attr_first_append)
  have "list_all (attr_ok 3) ?as" using assms by simp
  from p2p_attr_head [OF this, of l post i False] first
  have get: "rtw_get_p2p_attr (Some ?b) (6 + length ?e + (length d + 3)) i False =
      Some (Ret (attr_result p2p_attr_enc (Some (6 + length ?e, (i, d))) False))"
    by (simp add: add.assoc)
  have h: "\<exists>h. length h = 3 \<and> p2p_attr_enc a = h @ snd a" for a
    by (intro exI [of _ "fst a # RTW_PUT_LE16 (of_nat (length (snd a)))"])
      (simp add: p2p_attr_enc_def RTW_PUT_LE16_def)
  have "attr_content 3 ?b True (Some cap) (attr_result p2p_attr_enc (Some (6 + length ?e, (i, d))) False) =
      Some (Some (6 + length ?e + 3), take (min cap (length d)) d, Some (min cap (length d)))"
    using attr_content_result [of ?b ?h p2p_attr_enc ?as post "\<lambda>a. fst a = i" "6 + length ?e" "(i, d)" 3 cap] first h
    by simp
  with get have "rtw_get_p2p_attr_content (Some ?b) (6 + length ?e + (length d + 3)) i True (Some cap) =
      Some (Ret (Some (6 + length ?e + 3), take (min cap (length d)) d, Some (min cap (length d))))"
    by (simp add: rtw_get_p2p_attr_content_def)
  with set show ?thesis by auto
qed

theorem p2p_attr_set_get_witness:
  "\<exists>b'. rtw_set_p2p_attr_content ([221, 14] @ p2p_oui @ attrs_enc p2p_attr_enc [(2, [37, 0])] @ [0, 0, 0, 0, 0] @ [])
          (6 + length (attrs_enc p2p_attr_enc [(2 :: u8, [37, 0])])) 5 (of_nat (length [8 :: u8, 9])) (Some [8, 9]) =
        Some (b', length [8 :: u8, 9] + 3) \<and>
     rtw_get_p2p_attr_content (Some b') (6 + length (attrs_enc p2p_attr_enc [(2 :: u8, [37, 0])]) + (length [8 :: u8, 9] + 3)) 5 True (Some 1) =
       Some (Ret (Some (6 + length (attrs_enc p2p_attr_enc [(2 :: u8, [37, 0])]) + 3),
          take (min 1 (length [8 :: u8, 9])) [8, 9], Some (min 1 (length [8 :: u8, 9]))))"
  by (rule p2p_attr_set_get) simp_all



text \<open>\<open>rtw_del_p2p_attr\<close> returns after removing exactly the attributes with the given identifier
  from a P2P element, and what is left is a P2P element again: its length byte is that of the
  remaining attributes.\<close>

lemma rtw_del_p2p_attr_filter:
  assumes "list_all (attr_ok 3) as"
  shows "let as' = filter (\<lambda>a. fst a \<noteq> i) as
         in rtw_del_p2p_attr (tlv_enc (221, p2p_oui @ attrs_enc p2p_attr_enc as) @ post)
              (6 + length (attrs_enc p2p_attr_enc as)) i =
            Some (Ret (tlv_enc (221, p2p_oui @ attrs_enc p2p_attr_enc as') @
                         replicate (length (attrs_enc p2p_attr_enc as) - length (attrs_enc p2p_attr_enc as')) 0 @ post,
                       6 + length (attrs_enc p2p_attr_enc as')))"
  using del_attr_loop_filter [of "attr_ok 3" rtw_get_p2p_attr p2p_oui p2p_attr_enc i "\<lambda>a. fst a = i" as post,
      OF p2p_attr_tlv oui_length(2) _ assms]
  by (simp add: rtw_del_p2p_attr_def p2p_attr_enc_def)



text \<open>C35: the length \<open>rtw_p2p_merge_ies\<close> returns leaves out the identifier and the length byte. Handed
  to \<open>rtw_get_p2p_attr\<close> as the length of the merged element, as the P2P invitation handler does, it
  hides the last attribute: the search answers NULL for an identifier that only the last
  attribute has.\<close>

theorem p2p_merge_hides_last_attr:
  assumes "list_all tlv_wf ts" and "list_all (tlv_room 221 4) ts"
    and "p2p_bodies ts = attrs_enc p2p_attr_enc (as @ [a])" and "length (p2p_bodies ts) < 256"
    and "\<forall>b \<in> set as. fst b \<noteq> fst a"
  shows "\<exists>m n. rtw_p2p_merge_ies (tlvs_enc ts) (length (tlvs_enc ts)) (Some (replicate (6 + length (p2p_bodies ts)) 0)) = Some (Some m, n) \<and>
           rtw_get_p2p_attr (Some m) n (fst a) False = Some (Ret (None, [], 0))"
proof -
  have ok: "list_all (attr_ok 3) (as @ [a])"
    using attrs_enc_ok [of "as @ [a]"] assms(3,4) by simp
  have "attr_first (\<lambda>b. fst b = fst a) p2p_attr_enc as 6 = None" using assms(5) by (simp add: attr_first_None)
  with p2p_attr_short [OF ok, of 0 "fst a" False] merge_ies_tlvs [OF assms(1,2), of "replicate (6 + length (p2p_bodies ts)) 0"] assms(3,4)
  show ?thesis by simp
qed

theorem p2p_merge_hides_last_attr_witness:
  "\<exists>m n. rtw_p2p_merge_ies (tlvs_enc [(221, p2p_oui @ attrs_enc p2p_attr_enc [(2, [1]), (18, [1])])])
            (length (tlvs_enc [(221, p2p_oui @ attrs_enc p2p_attr_enc [(2, [1]), (18, [1])])]))
            (Some (replicate (6 + length (p2p_bodies [(221, p2p_oui @ attrs_enc p2p_attr_enc [(2, [1]), (18, [1])])])) 0)) = Some (Some m, n) \<and>
         rtw_get_p2p_attr (Some m) n (fst (18 :: u8, [1 :: u8])) False = Some (Ret (None, [], 0))"
  by (rule p2p_merge_hides_last_attr [where as = "[(2, [1])]"])
    (simp_all add: tlv_wf_def tlv_room_def tlv_match_def)

text \<open>C36: \<open>rtw_del_p2p_ie\<close> trusts the length byte of the element it deletes. A P2P element cut short by
  the end of the buffer makes the unsigned count of the bytes behind it wrap, and the move leaves
  the buffer.\<close>

theorem rtw_del_p2p_ie_truncated:
  assumes "length d + 4 < unat l" and "length post < 4000000000"
  shows "rtw_del_p2p_ie ([221, l] @ p2p_oui @ d @ post) (6 + length d) = Some Fault"
proof -
  let ?b = "[221, l] @ p2p_oui @ d @ post"
  have "length d < 256" using assms(1) unat_u8_lt [of l] by linarith
  have "ie_search_loop (vendor_hit p2p_oui) ?b (6 + length d) 0 = Some (Some 0)"
    using vendor_hit_head [of p2p_oui l "d @ post"]
    by (subst ie_search_loop.simps) (simp add: MAX_IE_SZ_def)
  then have "rtw_get_p2p_ie (Some ?b) (to_sint (6 + length d)) False = Some (Some 0, [], unat l + 2)"
    using \<open>length d < 256\<close> by (simp add: rtw_get_p2p_ie_def copy_ie_def mem_simps nat_add_distrib)
  moreover have "close_gap ?b 0 (unat l + 2) (uint_sub (6 + length d) (unat l + 2)) = None"
  proof -
    have "\<not> unat l + (4294967300 + length d - unat l) \<le> 4 + (length d + length post)"
      using assms \<open>length d < 256\<close> unat_u8_lt [of l] by linarith
    then show ?thesis
      using assms by (simp add: close_gap_def rtw_memmove_def rd_slice_def uint_sub_def)
  qed
  ultimately show ?thesis
    unfolding rtw_del_p2p_ie_def by (subst del_ie_loop.simps) simp
qed

theorem rtw_del_p2p_ie_truncated_witness:
  "rtw_del_p2p_ie ([221, 100] @ p2p_oui @ [2, 1, 0] @ [0, 0]) (6 + length [2 :: u8, 1, 0]) = Some Fault"
  by (rule rtw_del_p2p_ie_truncated) simp_all

end
