(* ===== verification/Recv_Frame.thy ===== *)
theory Recv_Frame
  imports Prelude
begin

text \<open>
  Received frames (\<^verbatim>\<open>include/rtw_recv.h\<close>): the attributes of a frame the modelled receive path
  uses, the frame with its buffer, and the buffer operations \<open>recvframe_push\<close>, \<open>recvframe_pull\<close>,
  \<open>recvframe_put\<close> and \<open>recvframe_pull_tail\<close>; queues of frames and the pool of free frames
  (\<^verbatim>\<open>core/rtw_recv.c\<close>).

  The buffer runs from \<open>rx_head\<close> to \<open>rx_end\<close>; \<open>rx_data\<close> and \<open>rx_tail\<close> are offsets into it. A queue is
  the list of its frames from head to tail.
\<close>

section \<open>Attributes and frames\<close>

record rx_pkt_attrib =
  hdrlen :: u8
  to_fr_ds :: u8
  amsdu :: bool
  qos :: bool
  priority :: u8
  seq_num :: u16
  frag_num :: u8
  mfrag :: bool
  privacy :: bool
  bdecrypted :: bool
  encrypt :: u8
  iv_len :: u8
  icv_len :: u8
  dst :: bytes
  src :: bytes
  ta :: bytes
  ra :: bytes
  bssid :: bytes
  key_index :: u8

record recv_frame =
  attrib :: rx_pkt_attrib
  buf :: bytes
  rx_data :: nat
  rx_tail :: nat
  len :: nat
  keytrack :: int

text \<open>The security types of \<^verbatim>\<open>include/rtw_security.h\<close> the receive path distinguishes.\<close>

definition WEP40_T :: u8 where "WEP40_T = 0x01"
definition TKIP_T :: u8 where "TKIP_T = 0x02"
definition AES_T :: u8 where "AES_T = 0x04"
definition WEP104_T :: u8 where "WEP104_T = 0x05"
definition GCMP_T :: u8 where "GCMP_T = 0x07"
definition CCMP_256_T :: u8 where "CCMP_256_T = 0x14"
definition GCMP_256_T :: u8 where "GCMP_256_T = 0x17"

lemmas sec_type_defs = WEP40_T_def TKIP_T_def AES_T_def WEP104_T_def GCMP_T_def CCMP_256_T_def GCMP_256_T_def

definition IS_MCAST :: "bytes \<Rightarrow> bool" where
  "IS_MCAST da \<longleftrightarrow> (case da of [] \<Rightarrow> False | a # _ \<Rightarrow> a AND 0x01 \<noteq> 0)"

section \<open>Buffer operations\<close>

text \<open>The bytes between \<open>rx_data\<close> and \<open>rx_tail\<close>, and the relation of the three length fields.\<close>

definition frame_data :: "recv_frame \<Rightarrow> bytes" where
  "frame_data f = take (rx_tail f - rx_data f) (drop (rx_data f) (buf f))"

definition frame_wf :: "recv_frame \<Rightarrow> bool" where
  "frame_wf f \<longleftrightarrow> rx_data f \<le> rx_tail f \<and> rx_tail f \<le> length (buf f) \<and> len f = rx_tail f - rx_data f"

text \<open>Each operation answers whether it was done; when it would leave the buffer the frame is
  unchanged and the code returns NULL.\<close>

definition recvframe_push :: "recv_frame \<Rightarrow> nat \<Rightarrow> bool \<times> recv_frame" where
  "recvframe_push f sz =
     (if rx_data f < sz then (False, f)
      else (True, f\<lparr>rx_data := rx_data f - sz, len := len f + sz\<rparr>))"

definition recvframe_pull :: "recv_frame \<Rightarrow> nat \<Rightarrow> bool \<times> recv_frame" where
  "recvframe_pull f sz =
     (if rx_tail f < rx_data f + sz then (False, f)
      else (True, f\<lparr>rx_data := rx_data f + sz, len := uint_sub (len f) sz\<rparr>))"

definition recvframe_put :: "recv_frame \<Rightarrow> nat \<Rightarrow> bool \<times> recv_frame" where
  "recvframe_put f sz =
     (if length (buf f) < rx_tail f + sz then (False, f)
      else (True, f\<lparr>rx_tail := rx_tail f + sz, len := len f + sz\<rparr>))"

definition recvframe_pull_tail :: "recv_frame \<Rightarrow> nat \<Rightarrow> bool \<times> recv_frame" where
  "recvframe_pull_tail f sz =
     (if rx_tail f < rx_data f + sz then (False, f)
      else (True, f\<lparr>rx_tail := rx_tail f - sz, len := uint_sub (len f) sz\<rparr>))"

lemmas recvframe_defs = recvframe_push_def recvframe_pull_def recvframe_put_def recvframe_pull_tail_def

section \<open>Queues of frames\<close>

text \<open>\<open>_rtw_alloc_recvframe\<close> takes the head of the pool; \<open>rtw_free_recvframe\<close> empties the frame and
  appends it; \<open>rtw_enqueue_recvframe\<close> appends it as it is; \<open>rtw_free_recvframe_queue\<close> frees a whole
  queue.\<close>

definition rtw_alloc_recvframe :: "recv_frame list \<Rightarrow> recv_frame option \<times> recv_frame list" where
  "rtw_alloc_recvframe q = (case q of [] \<Rightarrow> (None, []) | f # fs \<Rightarrow> (Some f, fs))"

definition rtw_free_recvframe :: "recv_frame \<Rightarrow> recv_frame list \<Rightarrow> recv_frame list" where
  "rtw_free_recvframe f q = q @ [f\<lparr>len := 0\<rparr>]"

definition rtw_enqueue_recvframe :: "recv_frame \<Rightarrow> recv_frame list \<Rightarrow> recv_frame list" where
  "rtw_enqueue_recvframe f q = q @ [f]"

fun rtw_free_recvframe_queue :: "recv_frame list \<Rightarrow> recv_frame list \<Rightarrow> recv_frame list" where
  "rtw_free_recvframe_queue [] pool = pool"
| "rtw_free_recvframe_queue (f # fs) pool = rtw_free_recvframe_queue fs (rtw_free_recvframe f pool)"

section \<open>Facts on buffers and queues\<close>

lemma frame_wf_ops:
  assumes "frame_wf f"
  shows "frame_wf (snd (recvframe_push f sz))" "frame_wf (snd (recvframe_pull f sz))"
    "frame_wf (snd (recvframe_put f sz))" "frame_wf (snd (recvframe_pull_tail f sz))"
  using assms by (auto simp: recvframe_defs frame_wf_def)

lemma length_frame_data: "frame_wf f \<Longrightarrow> length (frame_data f) = len f"
  by (auto simp: frame_data_def frame_wf_def)

lemma frame_data_pull:
  assumes "frame_wf f" and "sz \<le> len f"
  shows "fst (recvframe_pull f sz)" and "frame_data (snd (recvframe_pull f sz)) = drop sz (frame_data f)"
  using assms by (auto simp: recvframe_pull_def frame_data_def frame_wf_def drop_take ac_simps)

lemma frame_data_pull_tail:
  assumes "frame_wf f" and "sz \<le> len f"
  shows "fst (recvframe_pull_tail f sz)"
    and "frame_data (snd (recvframe_pull_tail f sz)) = take (len f - sz) (frame_data f)"
  using assms by (auto simp: recvframe_pull_tail_def frame_data_def frame_wf_def min_def ac_simps)

lemma free_queue_eq: "rtw_free_recvframe_queue q pool = pool @ map (\<lambda>f. f\<lparr>len := 0\<rparr>) q"
  by (induction q arbitrary: pool) (auto simp: rtw_free_recvframe_def)

end
