(* ===== verification/Recv_Reorder.thy ===== *)
theory Recv_Reorder
  imports Recv_Frame "HOL-Library.Multiset"
begin

text \<open>
  The A-MPDU reordering buffer of the receive path (\<^verbatim>\<open>core/rtw_recv.c\<close>): the sliding window
  (\<open>check_indicate_seq\<close>), the sorted queue of pending frames (\<open>enqueue_reorder_recvframe\<close>), their
  indication in order (\<open>recv_indicatepkts_in_order\<close>), the handler of a received frame
  (\<open>recv_indicatepkt_reorder\<close>) and the timer (\<open>rtw_reordering_ctrl_timeout_handler\<close>).

  Sequence numbers have twelve bits and are compared modulo 4096 by \<open>SN_LESS\<close>. The abstract machine
  at the end of this theory works with unbounded sequence numbers and \<open><\<close>; the operations of the
  code refine it as long as the pending frames lie in the window, which is the invariant.

  Handing a frame on (\<open>recv_process_mpdu\<close>) is the output of the operations: the list of the frames
  handed on, in order. Whether it succeeds is only counted; the answer is the argument \<open>process\<close>.
\<close>

section \<open>State\<close>

definition SN_LESS :: "u16 \<Rightarrow> u16 \<Rightarrow> bool" where
  "SN_LESS a b \<longleftrightarrow> (a - b) AND 0x800 \<noteq> 0"

text \<open>\<open>struct recv_reorder_ctrl\<close>. \<open>rec_abba_rsp_ack\<close> is the flag bit of that field, \<open>timer\<close> tells
  whether \<open>reordering_ctrl_timer\<close> is armed.\<close>

record recv_reorder_ctrl =
  enable :: bool
  indicate_seq :: u16
  wsize_b :: u8
  pending :: "recv_frame list"
  bReorderWaiting :: bool
  ampdu_size :: u8
  rec_abba_rsp_ack :: bool
  timer :: bool

text \<open>The counters of \<open>struct recv_priv\<close> the reordering code maintains.\<close>

record recv_priv =
  dbg_rx_ampdu_window_shift_cnt :: nat
  dbg_rx_ampdu_drop_count :: nat
  dbg_rx_ampdu_forced_indicate_count :: nat
  dbg_rx_ampdu_loss_count :: nat
  rx_drop :: nat
  dbg_rx_drop_count :: nat

abbreviation sn :: "recv_frame \<Rightarrow> u16" where "sn f \<equiv> seq_num (attrib f)"

section \<open>Operations\<close>

definition check_indicate_seq ::
  "recv_priv \<Rightarrow> recv_reorder_ctrl \<Rightarrow> u16 \<Rightarrow> bool \<times> recv_priv \<times> recv_reorder_ctrl" where
  "check_indicate_seq priv c seq =
     (let c1 = (if indicate_seq c = 0xFFFF then c\<lparr>indicate_seq := seq\<rparr> else c);
          wsize = wsize_b c1;
          wend = (indicate_seq c1 + ucast wsize - 1) AND 0xFFF
      in if SN_LESS seq (indicate_seq c1) then (False, priv, c1)
         else if seq = indicate_seq c1 then
           (True, priv, c1\<lparr>indicate_seq := (indicate_seq c1 + 1) AND 0xFFF\<rparr>)
         else if SN_LESS wend seq then
           (True, priv\<lparr>dbg_rx_ampdu_window_shift_cnt := dbg_rx_ampdu_window_shift_cnt priv + 1\<rparr>,
            c1\<lparr>indicate_seq :=
                 (if uint wsize - 1 \<le> uint seq then seq + 1 - ucast wsize
                  else 0xFFF - (ucast wsize - (seq + 1)) + 1)\<rparr>)
         else (True, priv, c1))"

text \<open>\<open>enqueue_reorder_recvframe\<close>: \<^const>\<open>None\<close> for a duplicate, else the queue with the frame in its
  place.\<close>

fun enqueue_reorder_recvframe :: "recv_frame list \<Rightarrow> recv_frame \<Rightarrow> recv_frame list option" where
  "enqueue_reorder_recvframe [] f = Some [f]"
| "enqueue_reorder_recvframe (g # gs) f =
     (if SN_LESS (sn g) (sn f) then map_option ((#) g) (enqueue_reorder_recvframe gs f)
      else if sn g = sn f then None
      else Some (f # g # gs))"

definition recv_indicatepkts_pkt_loss_cnt :: "recv_priv \<Rightarrow> nat \<Rightarrow> nat \<Rightarrow> recv_priv" where
  "recv_indicatepkts_pkt_loss_cnt priv prev_seq current_seq =
     (let d = (if current_seq < prev_seq then 4096 + current_seq - prev_seq else current_seq - prev_seq)
      in priv\<lparr>dbg_rx_ampdu_loss_count := dbg_rx_ampdu_loss_count priv + d, rx_drop := rx_drop priv + d\<rparr>)"

text \<open>The loop of \<open>recv_indicatepkts_in_order\<close>: \<open>bPktInBuf\<close>, the new window start, the frames left,
  the number of frames \<open>recv_process_mpdu\<close> failed on, and the frames handed on.\<close>

fun indicate_loop ::
  "(recv_frame \<Rightarrow> bool) \<Rightarrow> u16 \<Rightarrow> recv_frame list \<Rightarrow> nat \<Rightarrow> bool \<times> u16 \<times> recv_frame list \<times> nat \<times> recv_frame list" where
  "indicate_loop process ind [] drops = (False, ind, [], drops, [])"
| "indicate_loop process ind (f # fs) drops =
     (if \<not> SN_LESS ind (sn f) then
        (let (b, ind', fs', drops', out) =
               indicate_loop process (if ind = sn f then (ind + 1) AND 0xFFF else ind) fs
                 (if process f then drops else drops + 1)
         in (b, ind', fs', drops', f # out))
      else (True, ind, f # fs, drops, []))"

definition recv_indicatepkts_in_order ::
  "(recv_frame \<Rightarrow> bool) \<Rightarrow> recv_priv \<Rightarrow> recv_reorder_ctrl \<Rightarrow> bool \<Rightarrow>
     bool \<times> recv_priv \<times> recv_reorder_ctrl \<times> recv_frame list" where
  "recv_indicatepkts_in_order process priv c bforced =
     (let priv1 = (if bforced then priv\<lparr>dbg_rx_ampdu_forced_indicate_count :=
                                          dbg_rx_ampdu_forced_indicate_count priv + 1\<rparr> else priv)
      in if bforced \<and> pending c = [] then (True, priv1, c, [])
         else
           (let (priv2, ind) =
                  (if bforced then
                     (recv_indicatepkts_pkt_loss_cnt priv1 (unat (indicate_seq c)) (unat (sn (hd (pending c)))),
                      sn (hd (pending c)))
                   else (priv1, indicate_seq c));
                (b, ind', fs', drops', out) = indicate_loop process ind (pending c) (dbg_rx_drop_count priv2)
            in (b, priv2\<lparr>dbg_rx_drop_count := drops'\<rparr>, c\<lparr>indicate_seq := ind', pending := fs'\<rparr>, out)))"

datatype rx_result = RX_SUCCESS | RX_FAIL | RX_HANDLED

text \<open>\<open>recv_indicatepkt_reorder\<close> for a frame whose station has the reordering state \<open>c\<close> for the frame's
  TID; \<^const>\<open>None\<close> is a NULL \<open>preorder_ctrl\<close>.\<close>

definition recv_indicatepkt_reorder ::
  "(recv_frame \<Rightarrow> bool) \<Rightarrow> recv_priv \<Rightarrow> recv_reorder_ctrl option \<Rightarrow> recv_frame \<Rightarrow>
     rx_result \<times> recv_priv \<times> recv_reorder_ctrl option \<times> recv_frame list" where
  "recv_indicatepkt_reorder process priv ctrl f =
     (case ctrl of
        None \<Rightarrow> (RX_SUCCESS, priv, ctrl, [])
      | Some c \<Rightarrow>
          if \<not> qos (attrib f) \<or> \<not> enable c then (RX_SUCCESS, priv, ctrl, [])
          else
            (let c1 = (if rec_abba_rsp_ack c then c\<lparr>rec_abba_rsp_ack := False, indicate_seq := 0xFFFF\<rparr> else c);
                 (ok, priv2, c2) = check_indicate_seq priv c1 (sn f)
             in if \<not> ok then
                  (RX_FAIL, priv2\<lparr>dbg_rx_ampdu_drop_count := dbg_rx_ampdu_drop_count priv2 + 1\<rparr>, Some c2, [])
                else
                  (case enqueue_reorder_recvframe (pending c2) f of
                     None \<Rightarrow> (RX_FAIL, priv2, Some c2, [])
                   | Some q \<Rightarrow>
                       (let (b, priv3, c3, out) = recv_indicatepkts_in_order process priv2 (c2\<lparr>pending := q\<rparr>) False
                        in (RX_HANDLED, priv3,
                            Some (if b then
                                    (if \<not> bReorderWaiting c3 then c3\<lparr>bReorderWaiting := True, timer := True\<rparr> else c3)
                                  else c3\<lparr>bReorderWaiting := False, timer := False\<rparr>),
                            out)))))"

text \<open>The timer handler. The expired timer is not armed when the handler runs; \<open>cannot_run\<close> is
  \<open>RTW_CANNOT_RUN\<close>.\<close>

definition rtw_reordering_ctrl_timeout_handler ::
  "(recv_frame \<Rightarrow> bool) \<Rightarrow> bool \<Rightarrow> recv_priv \<Rightarrow> recv_reorder_ctrl option \<Rightarrow>
     recv_priv \<times> recv_reorder_ctrl option \<times> recv_frame list" where
  "rtw_reordering_ctrl_timeout_handler process cannot_run priv ctrl =
     (case ctrl of
        None \<Rightarrow> (priv, ctrl, [])
      | Some c0 \<Rightarrow>
          (let c = c0\<lparr>timer := False\<rparr>
           in if cannot_run then (priv, Some c, [])
              else
                (let (b, priv', c', out) = recv_indicatepkts_in_order process priv (c\<lparr>bReorderWaiting := False\<rparr>) True
                 in (priv', Some (if b then c'\<lparr>timer := True\<rparr> else c'), out))))"

text \<open>\<open>recv_set_iseq_before_mpdu_process\<close> and \<open>recv_set_iseq_after_mpdu_process\<close>: frames that bypass the
  buffer move the window start with them.\<close>

definition recv_set_iseq_before_mpdu_process :: "recv_reorder_ctrl option \<Rightarrow> u16 \<Rightarrow> recv_reorder_ctrl option" where
  "recv_set_iseq_before_mpdu_process ctrl seq = map_option (\<lambda>c. c\<lparr>indicate_seq := seq\<rparr>) ctrl"

definition recv_set_iseq_after_mpdu_process :: "recv_reorder_ctrl option \<Rightarrow> recv_reorder_ctrl option" where
  "recv_set_iseq_after_mpdu_process ctrl =
     map_option (\<lambda>c. c\<lparr>indicate_seq := word_of_nat ((unat (indicate_seq c) + 1) mod 4096)\<rparr>) ctrl"

text \<open>\<open>add_ba_rsp_hdl\<close> (\<^verbatim>\<open>core/rtw_mlme_ext.c\<close>), the part that changes the reordering state: a Block Ack
  request of the peer for \<open>sz\<close> frames was answered with \<open>status\<close> (0 accepted, 37 refused). Pending frames
  stay.\<close>

definition add_ba_rsp_hdl :: "nat \<Rightarrow> u8 \<Rightarrow> recv_reorder_ctrl \<Rightarrow> recv_reorder_ctrl" where
  "add_ba_rsp_hdl status sz c =
     (let c1 = c\<lparr>rec_abba_rsp_ack := True\<rparr>
      in if status = 0 then c1\<lparr>enable := True, ampdu_size := sz\<rparr>
         else if status = 37 then c1\<lparr>enable := False\<rparr>
         else c1)"

section \<open>Sequence numbers modulo 4096\<close>

abbreviation sn12 :: "nat \<Rightarrow> u16" where "sn12 n \<equiv> word_of_nat (n mod 4096)"

lemma unat_sn12 [simp]: "unat (sn12 n) = n mod 4096"
  by (rule unat_of_nat_u16) (use mod_less_divisor [of 4096 n] in linarith)

lemma odd_div_2048: "odd (u div 2048) \<longleftrightarrow> 2048 \<le> u mod (4096 :: nat)"
proof -
  have "u mod 4096 = 2048 * (u div 2048 mod 2) + u mod 2048"
    using mod_mult2_eq [of u 2048 2] by simp
  moreover have "u mod 2048 < 2048" by simp
  ultimately show ?thesis by (cases "odd (u div 2048)") (auto simp: odd_iff_mod_2_eq_one even_iff_mod_2_eq_zero)
qed

lemma and_800: "((x :: u16) AND 0x800 \<noteq> 0) \<longleftrightarrow> 2048 \<le> unat x mod 4096"
proof -
  have "(0x800 :: u16) = 2 ^ 11" by simp
  then have "(x AND 0x800 \<noteq> 0) \<longleftrightarrow> bit x 11"
    by (simp only: and_exp_eq_0_iff_not_bit not_not)
  also have "\<dots> \<longleftrightarrow> bit (unat x) 11" by (simp add: bit_unsigned_iff)
  also have "\<dots> \<longleftrightarrow> odd (unat x div 2048)" by (simp add: bit_iff_odd)
  finally show ?thesis by (simp only: odd_div_2048)
qed

lemma SN_LESS_iff: "SN_LESS a b \<longleftrightarrow> 2048 \<le> (unat a + 65536 - unat b) mod 4096"
proof -
  have "unat (a - b) mod 4096 = (unat a + 65536 - unat b) mod 4096"
  proof (cases "unat b \<le> unat a")
    case True
    then have "unat a + 65536 - unat b = (unat a - unat b) + 16 * 4096" by linarith
    moreover have "unat (a - b) = unat a - unat b" using True by (simp only: unat_sub_if_size if_True)
    ultimately show ?thesis by (simp only: mod_mult_self1)
  next
    case False
    then show ?thesis by (simp only: unat_sub_if_size word_size if_False) simp
  qed
  then show ?thesis by (simp only: SN_LESS_def and_800)
qed

lemma SN_LESS_sn12:
  assumes "x < y + 2048" and "y \<le> x + 2048"
  shows "SN_LESS (sn12 x) (sn12 y) \<longleftrightarrow> x < y"
proof -
  have "(x mod 4096 + 65536 - y mod 4096) mod 4096 = (x + 4096 - y) mod 4096"
  proof -
    have "int ((x mod 4096 + 65536 - y mod 4096) mod 4096) = (int x mod 4096 - int y mod 4096 + 16 * 4096) mod 4096"
      using mod_less_divisor [of 4096 y] by (simp add: of_nat_mod of_nat_diff algebra_simps)
    also have "\<dots> = (int x - int y) mod 4096"
      by (simp only: mod_mult_self3 mod_mult_self1 mod_mult_self2 mod_mult_self4 mod_diff_eq)
    finally have "int ((x mod 4096 + 65536 - y mod 4096) mod 4096) = (int x - int y) mod 4096" .
    moreover have "int ((x + 4096 - y) mod 4096) = (int x - int y) mod 4096"
    proof -
      have "int ((x + 4096 - y) mod 4096) = (int x - int y + 4096) mod 4096"
        using assms by (simp add: of_nat_mod of_nat_diff algebra_simps)
      then show ?thesis by simp
    qed
    ultimately show ?thesis by linarith
  qed
  moreover have "2048 \<le> (x + 4096 - y) mod 4096 \<longleftrightarrow> x < y"
  proof (cases "x < y")
    case True
    then have "(x + 4096 - y) mod 4096 = x + 4096 - y" using assms by (intro mod_less) linarith
    then show ?thesis using True assms by linarith
  next
    case False
    then have "(x + 4096 - y) mod 4096 = x - y" using assms by (simp add: le_mod_geq)
    then show ?thesis using False assms by linarith
  qed
  ultimately show ?thesis by (simp only: SN_LESS_iff unat_sn12)
qed

lemma sn12_eq:
  assumes "x \<le> y" and "y < x + 4096"
  shows "sn12 x = sn12 y \<longleftrightarrow> x = y"
proof
  assume "sn12 x = sn12 y"
  then have "x mod 4096 = y mod 4096" by (metis unat_sn12)
  then have "4096 dvd y - x" using mod_eq_dvd_iff_nat [OF assms(1), of 4096] by simp
  then obtain k where k: "y - x = 4096 * k" by (rule dvdE)
  with assms have "k = 0" by linarith
  with k assms(1) show "x = y" by simp
qed simp

lemma and_fff: "(x :: u16) AND 0xFFF = sn12 (unat x)"
proof -
  have "(0xFFF :: u16) = mask 12" by (simp add: mask_eq_exp_minus_1)
  then have "x AND 0xFFF = take_bit 12 x" by (simp only: take_bit_eq_mask)
  moreover have "unat (take_bit 12 x) = unat x mod 2 ^ 12"
    by (rule trans [OF unsigned_take_bit_eq take_bit_eq_mod])
  ultimately have "unat (x AND 0xFFF) = unat x mod 4096" by simp
  then show ?thesis by (metis unat_sn12 word_unat_eq_iff)
qed

lemma sn12_mod [simp]: "sn12 (n mod 4096) = sn12 n"
  by simp

section \<open>The abstract machine\<close>

text \<open>Sequence numbers that never wrap: \<open>b\<close> is the next number to hand on, \<open>p\<close> the pending frames with
  their numbers. A frame with the twelve-bit number \<open>s\<close> stands for the first number from \<open>b\<close> on that
  agrees with it, unless that is 2048 or more ahead.\<close>

type_synonym apend = "(nat \<times> recv_frame) list"

definition ahead :: "nat \<Rightarrow> u16 \<Rightarrow> nat" where
  "ahead b s = (unat s + 4096 - b mod 4096) mod 4096"

fun aenqueue :: "apend \<Rightarrow> nat \<times> recv_frame \<Rightarrow> apend option" where
  "aenqueue [] x = Some [x]"
| "aenqueue (y # ys) x =
     (if fst y < fst x then map_option ((#) y) (aenqueue ys x)
      else if fst y = fst x then None
      else Some (x # y # ys))"

fun aflush :: "nat \<Rightarrow> apend \<Rightarrow> nat \<times> apend \<times> apend" where
  "aflush b [] = (b, [], [])"
| "aflush b (y # ys) =
     (if fst y \<le> b then
        (let (b', p', out) = aflush (if b = fst y then b + 1 else b) ys in (b', p', y # out))
      else (b, y # ys, []))"

text \<open>The window start after a frame \<open>n\<close> has been seen: one further for the frame expected, so far that
  the window ends with \<open>n\<close> for a frame behind the window.\<close>

definition ashift :: "nat \<Rightarrow> nat \<Rightarrow> nat \<Rightarrow> nat" where
  "ashift w b n = (if n = b then b + 1 else if b + w \<le> n then n + 1 - w else b)"

text \<open>The invariant: the pending frames are in strictly increasing order within the window.\<close>

definition awf :: "nat \<Rightarrow> nat \<Rightarrow> apend \<Rightarrow> bool" where
  "awf w b p \<longleftrightarrow> sorted_wrt (<) (map fst p) \<and>
     (\<forall>x \<in> set p. b < fst x \<and> fst x < b + w \<and> sn (snd x) = sn12 (fst x))"

definition crel :: "recv_reorder_ctrl \<Rightarrow> nat \<Rightarrow> apend \<Rightarrow> bool" where
  "crel c b p \<longleftrightarrow> indicate_seq c = sn12 b \<and> pending c = map snd p \<and> 0 < wsize_b c \<and>
     awf (unat (wsize_b c)) b p"

text \<open>Numbers close enough to a start \<open>b\<close> for \<open>SN_LESS\<close> to compare them with one another.\<close>

abbreviation near :: "nat \<Rightarrow> nat \<Rightarrow> bool" where "near b n \<equiv> b \<le> n \<and> n < b + 2048"

lemma SN_LESS_near: "near b x \<Longrightarrow> near b y \<Longrightarrow> SN_LESS (sn12 x) (sn12 y) \<longleftrightarrow> x < y"
  by (rule SN_LESS_sn12) linarith+

lemma sn12_eq_near: "near b x \<Longrightarrow> near b y \<Longrightarrow> sn12 x = sn12 y \<longleftrightarrow> x = y"
  using sn12_eq [of x y] sn12_eq [of y x] by (cases "x \<le> y") (auto simp: not_le)

lemma sn12_add1: "(sn12 b + 1) AND 0xFFF = sn12 (b + 1)"
proof -
  have "unat (sn12 b + 1) = b mod 4096 + 1"
  proof -
    have "sn12 b + 1 = word_of_nat (b mod 4096 + 1)" by simp
    moreover have "b mod 4096 + 1 < 65536" using mod_less_divisor [of 4096 b] by linarith
    ultimately show ?thesis by (simp only: unat_of_nat_u16)
  qed
  then show ?thesis by (simp only: and_fff mod_add_left_eq)
qed

lemma ahead_lt: "ahead b s < 4096"
  by (simp add: ahead_def)

lemma sn12_ahead:
  assumes "unat s < 4096"
  shows "sn12 (b + ahead b s) = s"
proof -
  have "(b + ahead b s) mod 4096 = (b + (unat s + 4096 - b mod 4096)) mod 4096"
    by (simp add: ahead_def mod_simps)
  also have "b + (unat s + 4096 - b mod 4096) = unat s + 4096 * (b div 4096 + 1)"
  proof -
    have "b mod 4096 < 4096" "b = 4096 * (b div 4096) + b mod 4096" by simp_all
    then show ?thesis unfolding add_mult_distrib2 by linarith
  qed
  also have "\<dots> mod 4096 = unat s" using assms by (simp only: mod_mult_self2 mod_less)
  finally show ?thesis by simp
qed

lemma enqueue_refines:
  assumes "\<And>x. x \<in> set p \<Longrightarrow> near b (fst x) \<and> sn (snd x) = sn12 (fst x)" and "near b n" and "sn f = sn12 n"
  shows "enqueue_reorder_recvframe (map snd p) f = map_option (map snd) (aenqueue p (n, f))"
  using assms(1)
proof (induction p)
  case (Cons y p)
  have "near b (fst y)" "sn (snd y) = sn12 (fst y)" using Cons.prems by auto
  with assms(2,3) Cons SN_LESS_near [of b "fst y" n] sn12_eq_near [of b "fst y" n] show ?case
    by (auto simp: option.map_comp comp_def)
qed simp

lemma indicate_refines:
  assumes "\<And>x. x \<in> set p \<Longrightarrow> b < fst x + 2048 \<and> fst x \<le> b + 2048 \<and> sn (snd x) = sn12 (fst x)"
    and "sorted_wrt (<) (map fst p)" and "aflush b p = (b', p', out)"
  shows "\<exists>drops'. indicate_loop process (sn12 b) (map snd p) drops =
           (p' \<noteq> [], sn12 b', map snd p', drops', map snd out)"
  using assms
proof (induction p arbitrary: b b' p' out drops)
  case Nil
  then show ?case by simp
next
  case (Cons y p)
  let ?n = "fst y"
  have y: "b < ?n + 2048" "?n \<le> b + 2048" "sn (snd y) = sn12 ?n" using Cons.prems(1) by auto
  have less: "SN_LESS (sn12 b) (sn12 ?n) \<longleftrightarrow> b < ?n" using y by (intro SN_LESS_sn12) auto
  show ?case
  proof (cases "?n \<le> b")
    case False
    with y less Cons.prems(3) show ?thesis by auto
  next
    case True
    let ?b1 = "if b = ?n then b + 1 else b"
    obtain b2 p2 out2 where fl: "aflush ?b1 p = (b2, p2, out2)" by (metis prod_cases3)
    have eq: "sn12 b = sn12 ?n \<longleftrightarrow> b = ?n" using sn12_eq [of ?n b] True y by auto
    have "\<exists>drops'. indicate_loop process (sn12 ?b1) (map snd p) (if process (snd y) then drops else drops + 1) =
        (p2 \<noteq> [], sn12 b2, map snd p2, drops', map snd out2)"
    proof (rule Cons.IH [OF _ _ fl])
      fix x assume "x \<in> set p"
      with Cons.prems(1,2) show "?b1 < fst x + 2048 \<and> fst x \<le> ?b1 + 2048 \<and> sn (snd x) = sn12 (fst x)"
        by fastforce
    qed (use Cons.prems(2) in simp)
    moreover have "(if sn12 b = sn12 ?n then (sn12 b + 1) AND 0xFFF else sn12 b) = sn12 ?b1"
      by (cases "b = ?n") (simp_all only: eq sn12_add1 if_True if_False HOL.simp_thms)
    ultimately show ?thesis using True y less fl Cons.prems(3) by auto
  qed
qed

section \<open>The operations refine the abstract machine\<close>

lemma shift_eq:
  assumes "s = sn12 n" and "unat s < 4096" and "unat w \<le> n + 1" and "0 < unat w"
  shows "(if uint (w :: u8) - 1 \<le> uint s then s + 1 - ucast w else 0xFFF - (ucast w - (s + 1)) + 1) = sn12 (n + 1 - unat w)"
proof -
  let ?w = "unat w" and ?v = "n mod 4096"
  have v: "unat s = ?v" using assms(1) by (simp only: unat_sn12)
  have n: "n = 4096 * (n div 4096) + ?v" by simp
  have w: "?w < 256" by simp
  show ?thesis
  proof (cases "?w \<le> ?v + 1")
    case True
    then have "uint w - 1 \<le> uint s" using uint_nat [of w] uint_nat [of s] v by linarith
    moreover have "s + 1 - ucast w = word_of_nat (?v + 1 - ?w)"
      using True assms(1) by (simp add: of_nat_diff)
    moreover have "n + 1 - ?w = ?v + 1 - ?w + 4096 * (n div 4096)" using True n by linarith
    then have "(n + 1 - ?w) mod 4096 = ?v + 1 - ?w"
      using mod_less_divisor [of 4096 n] assms(4) by (simp only: mod_mult_self2) (simp add: mod_less)
    ultimately show ?thesis by simp
  next
    case False
    then have "\<not> uint w - 1 \<le> uint s" using uint_nat [of w] uint_nat [of s] v by linarith
    moreover have "0xFFF - (ucast w - (s + 1)) + 1 = word_of_nat (4096 + ?v + 1 - ?w)"
    proof -
      have "?w \<le> 4096 + ?v + 1" using w by linarith
      then show ?thesis using assms(1) by (simp add: of_nat_diff algebra_simps)
    qed
    moreover have "(n + 1 - ?w) mod 4096 = 4096 + ?v + 1 - ?w"
    proof -
      have "1 \<le> n div 4096" using False assms(3) n by (cases "n div 4096") auto
      then have "n + 1 - ?w = (4096 + ?v + 1 - ?w) + 4096 * (n div 4096 - 1)" using n w
        unfolding diff_mult_distrib2 by linarith
      then show ?thesis using False by (simp only: mod_mult_self2) (simp add: mod_less)
    qed
    ultimately show ?thesis by simp
  qed
qed

lemma check_refines:
  assumes "crel c b p" and "unat s < 4096"
  shows "fst (check_indicate_seq priv c s) \<longleftrightarrow> ahead b s < 2048"
    and "snd (snd (check_indicate_seq priv c s)) =
           c\<lparr>indicate_seq := (if ahead b s < 2048 then sn12 (ashift (unat (wsize_b c)) b (b + ahead b s)) else sn12 b)\<rparr>"
proof -
  let ?w = "unat (wsize_b c)" and ?n = "b + ahead b s"
  have ind: "indicate_seq c = sn12 b" and w: "0 < ?w" "?w < 256"
    using assms(1) by (auto simp: crel_def word_gt_0 unat_gt_0)
  have ne: "indicate_seq c \<noteq> 0xFFFF"
  proof
    assume "indicate_seq c = 0xFFFF"
    then have "unat (indicate_seq c) = 65535" by simp
    with ind show False using mod_less_divisor [of 4096 b] unfolding ind unat_sn12 by linarith
  qed
  have s: "s = sn12 ?n" using assms(2) by (simp only: sn12_ahead)
  have lt: "SN_LESS s (sn12 b) \<longleftrightarrow> \<not> ahead b s < 2048"
  proof (cases "ahead b s < 2048")
    case True
    then show ?thesis using SN_LESS_sn12 [of ?n b] s by simp
  next
    case False
    have "sn12 b = sn12 (b + 4096)" by simp
    moreover have "SN_LESS (sn12 ?n) (sn12 (b + 4096)) \<longleftrightarrow> ?n < b + 4096"
      using False ahead_lt [of b s] by (intro SN_LESS_sn12) linarith+
    ultimately show ?thesis using False ahead_lt [of b s] s by simp
  qed
  have eq: "s = sn12 b \<longleftrightarrow> ahead b s = 0"
    using sn12_eq [of b ?n] ahead_lt [of b s] s by auto
  have wend: "(sn12 b + ucast (wsize_b c) - 1) AND 0xFFF = sn12 (b + ?w - 1)"
  proof -
    have "sn12 b + ucast (wsize_b c) - 1 = word_of_nat (b mod 4096 + ?w - 1)"
      using w by (simp add: of_nat_diff)
    moreover have "b mod 4096 + ?w - 1 < 65536" using w mod_less_divisor [of 4096 b] by linarith
    ultimately have "unat (sn12 b + ucast (wsize_b c) - 1) = b mod 4096 + ?w - 1" by (simp only: unat_of_nat_u16)
    moreover have "b mod 4096 + ?w - 1 = b mod 4096 + (?w - 1)" "b + ?w - 1 = b + (?w - 1)" using w by linarith+
    ultimately show ?thesis by (simp only: and_fff mod_add_left_eq)
  qed
  have wless: "SN_LESS (sn12 (b + ?w - 1)) s \<longleftrightarrow> b + ?w \<le> ?n" if "ahead b s < 2048"
  proof -
    have "SN_LESS (sn12 (b + ?w - 1)) (sn12 ?n) \<longleftrightarrow> b + ?w - 1 < ?n"
      using that w by (intro SN_LESS_sn12) linarith+
    moreover have "b + ?w - 1 < ?n \<longleftrightarrow> b + ?w \<le> ?n" using w by linarith
    ultimately show ?thesis using s by metis
  qed
  show "fst (check_indicate_seq priv c s) \<longleftrightarrow> ahead b s < 2048"
    using ne lt by (auto simp: check_indicate_seq_def Let_def ind)
  show "snd (snd (check_indicate_seq priv c s)) =
           c\<lparr>indicate_seq := (if ahead b s < 2048 then sn12 (ashift ?w b ?n) else sn12 b)\<rparr>"
    using ne lt eq wless shift_eq [OF s assms(2), of "wsize_b c"] w sn12_add1 [of b]
    by (auto simp: check_indicate_seq_def Let_def ind wend ashift_def)
qed

definition arecv :: "nat \<Rightarrow> nat \<Rightarrow> apend \<Rightarrow> recv_frame \<Rightarrow> (nat \<times> apend \<times> apend) option" where
  "arecv w b p f =
     (if 2048 \<le> ahead b (sn f) then None
      else map_option (aflush (ashift w b (b + ahead b (sn f)))) (aenqueue p (b + ahead b (sn f), f)))"

definition atimeout :: "nat \<Rightarrow> apend \<Rightarrow> nat \<times> apend \<times> apend" where
  "atimeout b p = (case p of [] \<Rightarrow> (b, [], []) | x # _ \<Rightarrow> aflush (fst x) p)"

lemma aflush_facts:
  assumes "aflush b p = (b', p', out)" and "sorted_wrt (<) (map fst p)"
  shows "p = out @ p'" and "b \<le> b'" and "\<forall>x \<in> set p'. b' < fst x" and "\<forall>x \<in> set out. fst x < b'"
    and "b' = b \<or> (out \<noteq> [] \<and> b' = fst (last out) + 1)"
proof -
  have "p = out @ p' \<and> b \<le> b' \<and> (\<forall>x \<in> set p'. b' < fst x) \<and> (\<forall>x \<in> set out. fst x < b') \<and>
      (b' = b \<or> (out \<noteq> [] \<and> b' = fst (last out) + 1))"
    using assms
  proof (induction p arbitrary: b b' p' out)
    case (Cons y p)
    show ?case
    proof (cases "fst y \<le> b")
      case False
      with Cons.prems show ?thesis by fastforce
    next
      case True
      obtain b2 p2 out2 where fl: "aflush (if b = fst y then b + 1 else b) p = (b2, p2, out2)"
        by (metis prod_cases3)
      with True Cons.prems(1) have r: "b' = b2" "p' = p2" "out = y # out2" by auto
      have IH: "p = out2 @ p2 \<and> (if b = fst y then b + 1 else b) \<le> b2 \<and> (\<forall>x \<in> set p2. b2 < fst x) \<and>
          (\<forall>x \<in> set out2. fst x < b2) \<and>
          (b2 = (if b = fst y then b + 1 else b) \<or> (out2 \<noteq> [] \<and> b2 = fst (last out2) + 1))"
        using Cons.IH [OF fl] Cons.prems(2) by simp
      have "\<forall>x \<in> set out2. fst y < fst x" using IH Cons.prems(2) by auto
      then have "out2 = [] \<or> b2 \<noteq> fst y + 1" using IH last_in_set [of out2] by fastforce
      with True IH show ?thesis unfolding r by (auto split: if_splits)
    qed
  qed simp
  then show "p = out @ p'" "b \<le> b'" "\<forall>x \<in> set p'. b' < fst x" "\<forall>x \<in> set out. fst x < b'"
    "b' = b \<or> (out \<noteq> [] \<and> b' = fst (last out) + 1)" by blast+
qed

lemma aenqueue_facts:
  assumes "aenqueue p x = Some p1" and "sorted_wrt (<) (map fst p)"
  shows "mset p1 = add_mset x (mset p)" and "sorted_wrt (<) (map fst p1)"
proof -
  have "mset p1 = add_mset x (mset p) \<and> sorted_wrt (<) (map fst p1)"
    using assms
  proof (induction p arbitrary: p1)
    case (Cons y p)
    show ?case
    proof (cases "fst y < fst x")
      case True
      with Cons.prems obtain p2 where p2: "aenqueue p x = Some p2" "p1 = y # p2" by auto
      with Cons have "mset p2 = add_mset x (mset p)" "sorted_wrt (<) (map fst p2)" by auto
      moreover from this(1) have "set p2 = insert x (set p)" by (metis set_mset_add_mset_insert set_mset_mset)
      ultimately show ?thesis using p2 True Cons.prems(2) by auto
    next
      case False
      with Cons.prems show ?thesis by (fastforce split: if_splits)
    qed
  qed auto
  then show "mset p1 = add_mset x (mset p)" "sorted_wrt (<) (map fst p1)" by blast+
qed

lemma aenqueue_None: "aenqueue p x = None \<Longrightarrow> \<exists>y \<in> set p. fst y = fst x"
  by (induction p) (auto split: if_splits)

lemma awf_recv:
  assumes "awf w b p" and "arecv w b p f = Some (b', p', out)" and "unat (sn f) < 4096" and "0 < w"
  shows "awf w b' p'"
proof -
  let ?n = "b + ahead b (sn f)"
  from assms(2) obtain p1 where p1: "aenqueue p (?n, f) = Some p1" "aflush (ashift w b ?n) p1 = (b', p', out)"
    by (auto simp: arecv_def split: if_splits)
  have sorted: "sorted_wrt (<) (map fst p)" using assms(1) by (simp add: awf_def)
  note e = aenqueue_facts [OF p1(1) sorted]
  have set1: "set p1 = insert (?n, f) (set p)" using e(1) by (metis set_mset_add_mset_insert set_mset_mset)
  note fl = aflush_facts [OF p1(2) e(2)]
  have sub: "set p' \<subseteq> insert (?n, f) (set p)" using fl(1) set1 by auto
  have ge: "b \<le> ashift w b ?n" "?n < ashift w b ?n + w" using assms(4) by (auto simp: ashift_def)
  have "b' < fst x \<and> fst x < b' + w \<and> sn (snd x) = sn12 (fst x)" if "x \<in> set p'" for x
  proof -
    have "fst x < b + w \<or> x = (?n, f)" "sn (snd x) = sn12 (fst x)"
      using sub that assms(1) sn12_ahead [OF assms(3), of b] by (auto simp: awf_def)
    with fl(2,3) ge that show ?thesis by fastforce
  qed
  moreover have "sorted_wrt (<) (map fst p')" using e(2) fl(1) by (simp add: sorted_wrt_append)
  ultimately show ?thesis by (simp add: awf_def)
qed

lemma atimeout_Cons: "atimeout b (x # q) = aflush (fst x) (x # q)"
  by (simp add: atimeout_def)

lemma awf_timeout:
  assumes "awf w b p" and "atimeout b p = (b', p', out)"
  shows "awf w b' p'" and "p = out @ p'" and "p \<noteq> [] \<Longrightarrow> out \<noteq> []"
proof -
  have "awf w b' p' \<and> p = out @ p' \<and> (p \<noteq> [] \<longrightarrow> out \<noteq> [])"
  proof (cases p)
    case Nil
    with assms show ?thesis by (simp add: atimeout_def awf_def)
  next
    case (Cons x q)
    with assms have fl: "aflush (fst x) p = (b', p', out)" by (simp only: atimeout_Cons)
    have sorted: "sorted_wrt (<) (map fst p)" using assms(1) by (simp add: awf_def)
    note f = aflush_facts [OF fl sorted]
    have "b < fst x" using assms(1) Cons by (simp add: awf_def)
    then have "b' < fst y \<and> fst y < b' + w \<and> sn (snd y) = sn12 (fst y)" if "y \<in> set p'" for y
    proof -
      have "y \<in> set p" using that f(1) by simp
      then have "fst y < b + w" "sn (snd y) = sn12 (fst y)" using assms(1) by (simp_all add: awf_def)
      with that f(2,3) \<open>b < fst x\<close> show ?thesis by simp
    qed
    moreover have "sorted_wrt (<) (map fst p')" using sorted f(1) by (simp add: sorted_wrt_append)
    moreover have "out \<noteq> []" using fl Cons by (auto split: prod.splits)
    ultimately show ?thesis using f(1) by (simp add: awf_def)
  qed
  then show "awf w b' p'" "p = out @ p'" "p \<noteq> [] \<Longrightarrow> out \<noteq> []" by blast+
qed

lemma crel_window: "crel c b p \<Longrightarrow> unat (wsize_b c) < 256 \<and> 0 < unat (wsize_b c)"
  by (simp add: crel_def word_gt_0 unat_gt_0)

lemma awfD: "awf w b p \<Longrightarrow> x \<in> set p \<Longrightarrow> b < fst x \<and> fst x < b + w \<and> sn (snd x) = sn12 (fst x)"
  by (simp add: awf_def)

text \<open>What the handlers need of the state besides \<open>crel\<close>: reordering is on, no Block Ack answer is
  outstanding, and the timer runs while frames are pending.\<close>

definition timer_ok :: "recv_reorder_ctrl \<Rightarrow> bool" where
  "timer_ok c \<longleftrightarrow> (pending c \<noteq> [] \<or> bReorderWaiting c \<longrightarrow> timer c)"

definition rctrl_ok :: "recv_reorder_ctrl \<Rightarrow> nat \<Rightarrow> apend \<Rightarrow> bool" where
  "rctrl_ok c b p \<longleftrightarrow> crel c b p \<and> enable c \<and> \<not> rec_abba_rsp_ack c \<and> timer_ok c"

lemma in_order_refines:
  assumes "pending c = map snd p" and "indicate_seq c = sn12 b"
    and "\<And>x. x \<in> set p \<Longrightarrow> b < fst x + 2048 \<and> fst x \<le> b + 2048 \<and> sn (snd x) = sn12 (fst x)"
    and "sorted_wrt (<) (map fst p)" and "aflush b p = (b', p', out)"
  shows "\<exists>priv'. recv_indicatepkts_in_order process priv c False =
           (p' \<noteq> [], priv', c\<lparr>indicate_seq := sn12 b', pending := map snd p'\<rparr>, map snd out)"
proof -
  from indicate_refines [OF assms(3-5), of process "dbg_rx_drop_count priv"] obtain drops where
    "indicate_loop process (sn12 b) (map snd p) (dbg_rx_drop_count priv) =
       (p' \<noteq> [], sn12 b', map snd p', drops, map snd out)" by blast
  with assms(1,2) show ?thesis by (simp add: recv_indicatepkts_in_order_def)
qed

lemma in_order_forced_refines:
  assumes "pending c = map snd p" and "p \<noteq> []" and "awf w b p" and "w < 256" and "atimeout b p = (b', p', out)"
  shows "\<exists>priv'. recv_indicatepkts_in_order process priv c True =
           (p' \<noteq> [], priv', c\<lparr>indicate_seq := sn12 b', pending := map snd p'\<rparr>, map snd out)"
proof -
  obtain x q where p: "p = x # q" using assms(2) by (cases p) auto
  have fl: "aflush (fst x) p = (b', p', out)" using assms(5) unfolding p by (simp only: atimeout_Cons)
  have sorted: "sorted_wrt (<) (map fst p)" using assms(3) by (simp add: awf_def)
  have near: "fst x < fst y + 2048 \<and> fst y \<le> fst x + 2048 \<and> sn (snd y) = sn12 (fst y)" if "y \<in> set p" for y
    using awfD [OF assms(3) that] awfD [OF assms(3), of x] assms(4) p by auto
  have hd: "sn (hd (pending c)) = sn12 (fst x)" using assms(1) p near [of x] by simp
  from indicate_refines [OF near sorted fl, of process] obtain drops where
    "\<And>d. indicate_loop process (sn12 (fst x)) (map snd p) d = (p' \<noteq> [], sn12 b', map snd p', drops d, map snd out)"
    by metis
  with assms(1) hd p show ?thesis
    by (simp add: recv_indicatepkts_in_order_def Let_def)
qed

lemma reorder_recv_refines:
  assumes "rctrl_ok c b p" and "qos (attrib f)" and "unat (sn f) < 4096"
  shows "case arecv (unat (wsize_b c)) b p f of
           None \<Rightarrow> \<exists>priv'. recv_indicatepkt_reorder process priv (Some c) f = (RX_FAIL, priv', Some c, [])
         | Some (b', p', out) \<Rightarrow>
             \<exists>priv' c'. recv_indicatepkt_reorder process priv (Some c) f = (RX_HANDLED, priv', Some c', map snd out) \<and>
               rctrl_ok c' b' p' \<and> wsize_b c' = wsize_b c"
proof -
  let ?w = "unat (wsize_b c)" and ?d = "ahead b (sn f)" and ?n = "b + ahead b (sn f)"
  have rel: "crel c b p" and en: "enable c" "\<not> rec_abba_rsp_ack c" and tm: "timer_ok c"
    using assms(1) by (auto simp: rctrl_ok_def)
  have wf: "awf ?w b p" and ind: "indicate_seq c = sn12 b" and pend: "pending c = map snd p" and wpos: "0 < wsize_b c"
    using rel by (auto simp: crel_def)
  have w: "0 < ?w" "?w < 256" using crel_window [OF rel] by auto
  obtain ok priv2 c2 where chk: "check_indicate_seq priv c (sn f) = (ok, priv2, c2)" by (metis prod_cases3)
  have ok: "ok \<longleftrightarrow> ?d < 2048"
    and c2: "c2 = c\<lparr>indicate_seq := (if ?d < 2048 then sn12 (ashift ?w b ?n) else sn12 b)\<rparr>"
    using check_refines [OF rel assms(3), of priv] chk by auto
  show ?thesis
  proof (cases "?d < 2048")
    case False
    then have "c2 = c" using c2 ind by simp
    with False ok chk en assms(2) show ?thesis
      by (simp add: arecv_def recv_indicatepkt_reorder_def)
  next
    case True
    have near: "near b (fst x) \<and> sn (snd x) = sn12 (fst x)" if "x \<in> set p" for x
      using awfD [OF wf that] w(2) by (intro conjI; linarith)
    have enq: "enqueue_reorder_recvframe (pending c2) f = map_option (map snd) (aenqueue p (?n, f))"
      using enqueue_refines [OF near, of p ?n f] True sn12_ahead [OF assms(3), of b] pend c2 by simp
    show ?thesis
    proof (cases "aenqueue p (?n, f)")
      case None
      then obtain y where "y \<in> set p" "fst y = ?n" using aenqueue_None by fastforce
      with wf have "b < ?n" "?n < b + ?w" by (auto simp: awf_def)
      then have "c2 = c" using c2 ind by (simp add: ashift_def)
      with None True ok chk en enq assms(2) show ?thesis
        by (simp add: arecv_def recv_indicatepkt_reorder_def)
    next
      case (Some p1)
      obtain b' p' out where fl: "aflush (ashift ?w b ?n) p1 = (b', p', out)" by (metis prod_cases3)
      have ar: "arecv ?w b p f = Some (b', p', out)" using True Some fl by (simp add: arecv_def)
      have sorted: "sorted_wrt (<) (map fst p)" using wf by (simp add: awf_def)
      note e = aenqueue_facts [OF Some sorted]
      have set1: "set p1 = insert (?n, f) (set p)" using e(1) by (metis set_mset_add_mset_insert set_mset_mset)
      have sh: "b \<le> ashift ?w b ?n" "ashift ?w b ?n \<le> b + 2048" using True w by (auto simp: ashift_def)
      have close: "ashift ?w b ?n < fst x + 2048 \<and> fst x \<le> ashift ?w b ?n + 2048 \<and> sn (snd x) = sn12 (fst x)"
        if "x \<in> set p1" for x
      proof (cases "x = (?n, f)")
        case True
        with \<open>?d < 2048\<close> w sh sn12_ahead [OF assms(3), of b] show ?thesis by (auto simp: ashift_def)
      next
        case False
        with that set1 have "x \<in> set p" by simp
        from awfD [OF wf this] sh w(2) show ?thesis by (intro conjI; linarith)
      qed
      from in_order_refines [of "c2\<lparr>pending := map snd p1\<rparr>" p1 "ashift ?w b ?n", OF _ _ close e(2) fl, of process priv2] True c2
      obtain priv3 where io: "recv_indicatepkts_in_order process priv2 (c2\<lparr>pending := map snd p1\<rparr>) False =
          (p' \<noteq> [], priv3, c2\<lparr>indicate_seq := sn12 b', pending := map snd p'\<rparr>, map snd out)" by auto
      let ?c3 = "c2\<lparr>indicate_seq := sn12 b', pending := map snd p'\<rparr>"
      let ?c' = "if p' \<noteq> [] then (if \<not> bReorderWaiting ?c3 then ?c3\<lparr>bReorderWaiting := True, timer := True\<rparr> else ?c3)
                 else ?c3\<lparr>bReorderWaiting := False, timer := False\<rparr>"
      have "recv_indicatepkt_reorder process priv (Some c) f = (RX_HANDLED, priv3, Some ?c', map snd out)"
        using chk ok True en assms(2) enq Some io by (simp add: recv_indicatepkt_reorder_def)
      moreover have "rctrl_ok ?c' b' p'"
        using awf_recv [OF wf ar assms(3) w(1)] wpos en tm c2
        by (auto simp: rctrl_ok_def crel_def timer_ok_def)
      moreover have "wsize_b ?c' = wsize_b c" using c2 by simp
      ultimately show ?thesis using ar by auto
    qed
  qed
qed

lemma reorder_timeout_refines:
  assumes "rctrl_ok c b p" and "atimeout b p = (b', p', out)"
  shows "\<exists>priv' c'. rtw_reordering_ctrl_timeout_handler process False priv (Some c) = (priv', Some c', map snd out) \<and>
           rctrl_ok c' b' p' \<and> wsize_b c' = wsize_b c"
proof (cases "p = []")
  case True
  with assms have "pending c = []" "b' = b" "p' = []" "out = []" by (auto simp: rctrl_ok_def crel_def atimeout_def)
  with assms(1) show ?thesis
    by (simp add: rtw_reordering_ctrl_timeout_handler_def recv_indicatepkts_in_order_def rctrl_ok_def crel_def timer_ok_def awf_def)
next
  case False
  let ?c = "c\<lparr>timer := False, bReorderWaiting := False\<rparr>"
  have rel: "crel c b p" using assms(1) by (simp add: rctrl_ok_def)
  then have "pending ?c = map snd p" and wf: "awf (unat (wsize_b c)) b p" by (simp_all add: crel_def)
  from in_order_forced_refines [OF this(1) False wf conjunct1 [OF crel_window [OF rel]] assms(2), of process priv]
  obtain priv' where "recv_indicatepkts_in_order process priv ?c True =
      (p' \<noteq> [], priv', ?c\<lparr>indicate_seq := sn12 b', pending := map snd p'\<rparr>, map snd out)" by blast
  with assms(1) awf_timeout(1) [OF wf assms(2)] show ?thesis
    by (auto simp: rtw_reordering_ctrl_timeout_handler_def rctrl_ok_def crel_def timer_ok_def)
qed

section \<open>Order of the frames handed on\<close>

text \<open>One frame follows another: later, and by no more than \<open>SN_LESS\<close> can tell apart.\<close>

definition gap :: "nat \<times> recv_frame \<Rightarrow> nat \<times> recv_frame \<Rightarrow> bool" where
  "gap x y \<longleftrightarrow> fst x < fst y \<and> fst y \<le> fst x + 2048"

text \<open>The frames handed on so far (\<open>ao\<close>) and the pending ones follow one another; when nothing is
  pending the window starts right behind the last frame handed on.\<close>

definition achain :: "apend \<Rightarrow> nat \<Rightarrow> apend \<Rightarrow> bool" where
  "achain ao b p \<longleftrightarrow> successively gap (ao @ p) \<and> (\<forall>x \<in> set ao. fst x < b \<and> sn (snd x) = sn12 (fst x)) \<and>
     (p = [] \<and> ao \<noteq> [] \<longrightarrow> b = fst (last ao) + 1)"

lemma successively_gap_window:
  assumes "sorted_wrt (<) (map fst p)" and "\<forall>x \<in> set p. near b (fst x)"
  shows "successively gap p"
  using assms
proof (induction p rule: induct_list012)
  case (3 x y zs)
  then have "near b (fst x)" "near b (fst y)" by auto
  with 3 show ?case by (auto simp: gap_def)
qed auto

lemma sorted_last:
  fixes p :: apend
  assumes "sorted_wrt (<) (map fst p)" and "x \<in> set p"
  shows "fst x \<le> fst (last p)"
  using assms by (induction p) (auto intro: less_imp_le)

lemma achain_recv:
  assumes "achain ao b p" and "awf w b p" and "0 < w" and "w < 256" and "arecv w b p f = Some (b', p', out)"
    and "unat (sn f) < 4096"
  shows "achain (ao @ out) b' p'"
proof -
  let ?n = "b + ahead b (sn f)"
  from assms(5) obtain p1 where p1: "aenqueue p (?n, f) = Some p1" "aflush (ashift w b ?n) p1 = (b', p', out)"
    and d: "ahead b (sn f) < 2048" by (auto simp: arecv_def split: if_splits)
  have sorted: "sorted_wrt (<) (map fst p)" using assms(2) by (simp add: awf_def)
  note e = aenqueue_facts [OF p1(1) sorted]
  have set1: "set p1 = insert (?n, f) (set p)" using e(1) by (metis set_mset_add_mset_insert set_mset_mset)
  then have ne: "p1 \<noteq> []" by auto
  note fl = aflush_facts [OF p1(2) e(2)]
  have near: "\<forall>x \<in> set p1. near b (fst x)"
  proof
    fix x assume "x \<in> set p1"
    with set1 consider "x = (?n, f)" | "x \<in> set p" by blast
    then show "near b (fst x)"
    proof cases
      case 2
      with awfD [OF assms(2) 2] assms(4) show ?thesis by linarith
    qed (use d in simp)
  qed
  have "successively gap (ao @ p1)"
  proof (cases "ao = []")
    case False
    have hd: "fst (hd p1) \<le> fst x" if "x \<in> set p1" for x
      using that e(2) by (cases p1) auto
    have "fst (hd p1) \<le> fst (last ao) + 2048"
    proof (cases "p = []")
      case True
      then show ?thesis using assms(1) False near ne by (auto simp: achain_def dest!: hd_in_set)
    next
      case False
      with \<open>ao \<noteq> []\<close> assms(1) have "gap (last ao) (hd p)"
        by (auto simp: achain_def successively_append_iff)
      moreover have "hd p \<in> set p1" using False set1 by simp
      ultimately show ?thesis using hd [of "hd p"] by (simp add: gap_def)
    qed
    moreover have "fst (last ao) < b" using assms(1) False by (simp add: achain_def)
    moreover have "b \<le> fst (hd p1)" using near ne by (auto dest!: hd_in_set)
    ultimately have "gap (last ao) (hd p1)" by (simp add: gap_def)
    with assms(1) False ne successively_gap_window [OF e(2) near] show ?thesis
      by (simp add: achain_def successively_append_iff)
  qed (use successively_gap_window [OF e(2) near] in simp)
  moreover have "\<forall>x \<in> set (ao @ out). fst x < b' \<and> sn (snd x) = sn12 (fst x)"
  proof
    fix x assume x: "x \<in> set (ao @ out)"
    have ge: "b \<le> b'" using fl(2) assms(3) by (auto simp: ashift_def split: if_splits)
    show "fst x < b' \<and> sn (snd x) = sn12 (fst x)"
    proof (cases "x \<in> set ao")
      case True
      with assms(1) ge show ?thesis by (fastforce simp: achain_def)
    next
      case False
      with x have "x \<in> set out" by simp
      moreover from this fl(1) set1 have "x = (?n, f) \<or> x \<in> set p" by auto
      ultimately show ?thesis using fl(4) awfD [OF assms(2), of x] sn12_ahead [OF assms(6), of b] by auto
    qed
  qed
  moreover have "b' = fst (last (ao @ out)) + 1" if "p' = []"
  proof -
    have out: "out = p1" using that fl(1) by simp
    then have "(?n, f) \<in> set out" using set1 by simp
    then have "?n \<le> fst (last out)" using sorted_last [OF e(2)] out by fastforce
    moreover have "fst (last out) < b'" using fl(4) ne out by simp
    moreover have "ashift w b ?n \<le> ?n + 1" using assms(3) by (auto simp: ashift_def)
    ultimately show ?thesis using fl(5) ne out by auto
  qed
  ultimately show ?thesis using fl(1) by (simp add: achain_def)
qed

lemma achain_timeout:
  assumes "achain ao b p" and "awf w b p" and "atimeout b p = (b', p', out)"
  shows "achain (ao @ out) b' p'"
proof (cases p)
  case Nil
  with assms show ?thesis by (simp add: atimeout_def)
next
  case (Cons x q)
  have fl: "aflush (fst x) p = (b', p', out)" using assms(3) unfolding Cons by (simp only: atimeout_Cons)
  have sorted: "sorted_wrt (<) (map fst p)" using assms(2) by (simp add: awf_def)
  note f = aflush_facts [OF fl sorted]
  have bx: "b < fst x" using assms(2) Cons by (simp add: awf_def)
  have "fst y < b' \<and> sn (snd y) = sn12 (fst y)" if "y \<in> set (ao @ out)" for y
  proof (cases "y \<in> set ao")
    case True
    then have "fst y < b \<and> sn (snd y) = sn12 (fst y)" using assms(1) by (simp add: achain_def)
    with f(2) bx show ?thesis by linarith
  next
    case False
    with that f(1,4) awfD [OF assms(2), of y] show ?thesis by auto
  qed
  moreover have "b' = fst (last (ao @ out)) + 1" if "p' = []"
  proof -
    have out: "out = p" using that f(1) by simp
    then have "fst x \<le> fst (last out)" using sorted_last [OF sorted, of x] Cons by simp
    moreover have "fst (last out) < b'" using f(4) Cons out by simp
    ultimately show ?thesis using f(5) Cons out by auto
  qed
  ultimately show ?thesis using assms(1) f(1) by (simp add: achain_def)
qed

section \<open>Runs of the reordering buffer\<close>

text \<open>
  A run from the state \<open>s\<close>: QoS frames arrive with any twelve-bit sequence numbers, and the timer
  expires whenever it is armed. The second list has the frames the buffer accepted, the third the
  frames it handed on.
\<close>

inductive reorder_run ::
  "(recv_frame \<Rightarrow> bool) \<Rightarrow> recv_priv \<times> recv_reorder_ctrl \<Rightarrow> recv_frame list \<Rightarrow> recv_frame list \<Rightarrow>
     recv_priv \<times> recv_reorder_ctrl \<Rightarrow> bool" for process s where
  run_start: "reorder_run process s [] [] s"
| run_rx: "reorder_run process s acc out (priv, c) \<Longrightarrow> qos (attrib f) \<Longrightarrow> unat (sn f) < 4096 \<Longrightarrow>
     recv_indicatepkt_reorder process priv (Some c) f = (r, priv', Some c', out') \<Longrightarrow>
     reorder_run process s (if r = RX_HANDLED then acc @ [f] else acc) (out @ out') (priv', c')"
| run_timeout: "reorder_run process s acc out (priv, c) \<Longrightarrow> timer c \<Longrightarrow>
     rtw_reordering_ctrl_timeout_handler process False priv (Some c) = (priv', Some c', out') \<Longrightarrow>
     reorder_run process s acc (out @ out') (priv', c')"

text \<open>The state after \<open>rtw_init_sta_recv_priv\<close> and an accepted Block Ack request: nothing pending, the
  window start not yet known.\<close>

definition fresh_ctrl :: "recv_reorder_ctrl \<Rightarrow> bool" where
  "fresh_ctrl c \<longleftrightarrow> enable c \<and> indicate_seq c = 0xFFFF \<and> 0 < wsize_b c \<and> pending c = [] \<and>
     \<not> bReorderWaiting c \<and> \<not> rec_abba_rsp_ack c \<and> \<not> timer c"

text \<open>The invariant of a run.\<close>

definition run_inv :: "u8 \<Rightarrow> recv_frame list \<Rightarrow> recv_frame list \<Rightarrow> recv_reorder_ctrl \<Rightarrow> bool" where
  "run_inv w acc out c \<longleftrightarrow> wsize_b c = w \<and>
     (fresh_ctrl c \<and> acc = [] \<and> out = [] \<or>
      (\<exists>b p ao. rctrl_ok c b p \<and> achain ao b p \<and> out = map snd ao \<and> mset acc = mset out + mset (pending c)))"

lemma fresh_first:
  assumes "fresh_ctrl c" and "unat (sn f) < 4096" and "qos (attrib f)"
  shows "recv_indicatepkt_reorder process priv (Some c) f =
           recv_indicatepkt_reorder process priv (Some (c\<lparr>indicate_seq := sn f\<rparr>)) f"
    and "rctrl_ok (c\<lparr>indicate_seq := sn f\<rparr>) (unat (sn f)) []"
proof -
  have ne: "sn f \<noteq> 0xFFFF" using assms(2) by auto
  show "recv_indicatepkt_reorder process priv (Some c) f =
           recv_indicatepkt_reorder process priv (Some (c\<lparr>indicate_seq := sn f\<rparr>)) f"
    using assms(1,3) ne by (simp add: fresh_ctrl_def recv_indicatepkt_reorder_def check_indicate_seq_def Let_def)
  show "rctrl_ok (c\<lparr>indicate_seq := sn f\<rparr>) (unat (sn f)) []"
    using assms by (simp add: fresh_ctrl_def rctrl_ok_def crel_def timer_ok_def awf_def)
qed

lemma run_invI:
  assumes "rctrl_ok c b p" and "achain ao b p" and "out = map snd ao" and "wsize_b c = w"
    and "mset acc = mset out + mset (pending c)"
  shows "run_inv w acc out c"
  using assms unfolding run_inv_def by blast

lemma arecv_mset:
  assumes "arecv w b p f = Some (b', p', out)" and "awf w b p"
  shows "mset (map snd out) + mset (map snd p') = add_mset f (mset (map snd p))"
proof -
  let ?n = "b + ahead b (sn f)"
  from assms(1) obtain p1 where p1: "aenqueue p (?n, f) = Some p1" "aflush (ashift w b ?n) p1 = (b', p', out)"
    by (auto simp: arecv_def split: if_splits)
  have "sorted_wrt (<) (map fst p)" using assms(2) by (simp add: awf_def)
  note e = aenqueue_facts [OF p1(1) this]
  have "mset out + mset p' = add_mset (?n, f) (mset p)"
    using aflush_facts(1) [OF p1(2) e(2)] e(1) by simp
  then have "image_mset snd (mset out + mset p') = image_mset snd (add_mset (?n, f) (mset p))" by simp
  then show ?thesis by simp
qed

lemma run_inv_rx:
  assumes "run_inv w acc out c" and "qos (attrib f)" and "unat (sn f) < 4096"
    and "recv_indicatepkt_reorder process priv (Some c) f = (r, priv', Some c', out')"
  shows "run_inv w (if r = RX_HANDLED then acc @ [f] else acc) (out @ out') c'"
proof -
  obtain c1 b p ao where c1: "rctrl_ok c1 b p" "achain ao b p" "out = map snd ao" "wsize_b c1 = w"
      "mset acc = mset out + mset (pending c1)"
    and eq: "recv_indicatepkt_reorder process priv (Some c1) f = (r, priv', Some c', out')"
    and fr: "c1 = c \<or> (p = [] \<and> b = unat (sn f))"
  proof (cases "fresh_ctrl c \<and> acc = [] \<and> out = []")
    case True
    note fr = fresh_first [OF _ assms(3,2), of c]
    show ?thesis
    proof (rule that [of "c\<lparr>indicate_seq := sn f\<rparr>" "unat (sn f)" "[]" "[]"])
      show "achain [] (unat (sn f)) []" by (simp add: achain_def)
    qed (use True fr assms(1,4) in \<open>auto simp: run_inv_def fresh_ctrl_def\<close>)
  next
    case False
    then show ?thesis using assms(1,4) by (auto simp: run_inv_def intro: that)
  qed
  let ?w = "unat (wsize_b c1)"
  have wf: "awf ?w b p" and pend: "pending c1 = map snd p" and win: "?w < 256" "0 < ?w"
    using c1(1) crel_window [of c1 b p] by (auto simp: rctrl_ok_def crel_def)
  show ?thesis
  proof (cases "arecv ?w b p f")
    case None
    have "b + ahead b (sn f) \<noteq> b \<or> p \<noteq> []"
      using None by (auto simp: arecv_def split: if_splits)
    moreover have "ahead b (sn f) = 0" if "b = unat (sn f)"
      using that assms(3) by (simp add: ahead_def)
    ultimately have "c1 = c" using fr by auto
    with None reorder_recv_refines [OF c1(1) assms(2,3), of process priv] eq c1 show ?thesis
      by (auto intro: run_invI)
  next
    case (Some x)
    obtain b' p' o' where x: "x = (b', p', o')" by (cases x)
    from reorder_recv_refines [OF c1(1) assms(2,3), of process priv] Some x eq
    have r: "r = RX_HANDLED" "out' = map snd o'" "rctrl_ok c' b' p'" "wsize_b c' = wsize_b c1" by auto
    moreover have "achain (ao @ o') b' p'"
      using achain_recv [OF c1(2) wf win(2,1) _ assms(3)] Some x by simp
    moreover have "pending c' = map snd p'" using r(3) by (simp add: rctrl_ok_def crel_def)
    then have "mset (acc @ [f]) = mset (out @ out') + mset (pending c')"
      using c1(5) arecv_mset [OF _ wf, of f b' p' o'] Some x r(2) pend by simp
    ultimately show ?thesis using c1(3,4) by (auto intro: run_invI [of _ _ _ "ao @ o'"])
  qed
qed

lemma run_inv_timeout:
  assumes "run_inv w acc out c" and "timer c"
    and "rtw_reordering_ctrl_timeout_handler process False priv (Some c) = (priv', Some c', out')"
  shows "run_inv w acc (out @ out') c'"
proof -
  obtain b p ao where c1: "rctrl_ok c b p" "achain ao b p" "out = map snd ao" "wsize_b c = w"
      "mset acc = mset out + mset (pending c)"
    using assms(1,2) by (auto simp: run_inv_def fresh_ctrl_def)
  obtain b' p' o' where t: "atimeout b p = (b', p', o')" by (metis prod_cases3)
  have wf: "awf (unat (wsize_b c)) b p" and pend: "pending c = map snd p"
    using c1(1) by (auto simp: rctrl_ok_def crel_def)
  from reorder_timeout_refines [OF c1(1) t, of process priv] assms(3)
  have r: "out' = map snd o'" "rctrl_ok c' b' p'" "wsize_b c' = wsize_b c" by auto
  moreover have "pending c' = map snd p'" using r(2) by (simp add: rctrl_ok_def crel_def)
  then have "mset acc = mset (out @ out') + mset (pending c')"
    using c1(5) awf_timeout(2) [OF wf t] r(1) pend by simp
  moreover have "achain (ao @ o') b' p'" using achain_timeout [OF c1(2) wf t] .
  ultimately show ?thesis using c1(3,4) by (auto intro: run_invI [of _ _ _ "ao @ o'"])
qed

lemma reorder_run_inv:
  assumes "reorder_run process s acc out t" and "fresh_ctrl (snd s)"
  shows "run_inv (wsize_b (snd s)) acc out (snd t)"
  using assms
proof (induction rule: reorder_run.induct)
  case run_start
  then show ?case by (simp add: run_inv_def)
next
  case (run_rx acc out priv c f r priv' c' out')
  then show ?case using run_inv_rx [of "wsize_b (snd s)" acc out c f process priv r priv' c' out'] by simp
next
  case (run_timeout acc out priv c priv' c' out')
  then show ?case using run_inv_timeout [of "wsize_b (snd s)" acc out c process priv priv' c' out'] by simp
qed

section \<open>Properties\<close>

lemma awf_length:
  assumes "awf w b p" and "0 < w"
  shows "length p < w"
proof -
  have "distinct (map fst p)" using assms(1) by (simp add: awf_def strict_sorted_iff)
  moreover have "set (map fst p) \<subseteq> {b<..<b + w}" using assms(1) by (auto simp: awf_def)
  then have "card (set (map fst p)) \<le> card {b<..<b + w}" by (intro card_mono) auto
  ultimately have "length p \<le> w - 1" using distinct_card [of "map fst p"] by simp
  with assms(2) show ?thesis by simp
qed

lemma gap_SN_LESS:
  assumes "successively gap xs" and "\<forall>x \<in> set xs. sn (snd x) = sn12 (fst x)"
  shows "successively (\<lambda>f g. SN_LESS (sn f) (sn g)) (map snd xs)"
  using assms
proof (induction xs rule: induct_list012)
  case (3 x y zs)
  then have "gap x y" by simp
  then have "SN_LESS (sn12 (fst x)) (sn12 (fst y)) \<longleftrightarrow> fst x < fst y"
    unfolding gap_def by (intro SN_LESS_sn12) linarith+
  with 3 \<open>gap x y\<close> show ?case by (simp add: gap_def)
qed simp_all


text \<open>What the invariant gives at every point of a run.\<close>

lemma run_facts:
  assumes "reorder_run process s acc out t" and "fresh_ctrl (snd s)"
  shows "successively (\<lambda>f g. SN_LESS (sn f) (sn g)) (out @ pending (snd t))"
    and "mset acc = mset out + mset (pending (snd t))"
    and "length (pending (snd t)) < unat (wsize_b (snd s))"
    and "pending (snd t) \<noteq> [] \<Longrightarrow> timer (snd t)"
proof -
  let ?c = "snd t"
  have inv: "run_inv (wsize_b (snd s)) acc out ?c" by (rule reorder_run_inv [OF assms])
  have "successively (\<lambda>f g. SN_LESS (sn f) (sn g)) (out @ pending ?c) \<and> mset acc = mset out + mset (pending ?c) \<and>
        length (pending ?c) < unat (wsize_b (snd s)) \<and> (pending ?c \<noteq> [] \<longrightarrow> timer ?c)"
  proof (cases "fresh_ctrl ?c \<and> acc = [] \<and> out = []")
    case True
    with inv show ?thesis by (auto simp: run_inv_def fresh_ctrl_def word_gt_0 unat_gt_0)
  next
    case False
    with inv obtain b p ao where ok: "rctrl_ok ?c b p" "achain ao b p" "out = map snd ao"
        "mset acc = mset out + mset (pending ?c)" "wsize_b ?c = wsize_b (snd s)"
      unfolding run_inv_def by blast
    then have wf: "awf (unat (wsize_b ?c)) b p" and pend: "pending ?c = map snd p" and w: "0 < unat (wsize_b ?c)"
      using crel_window [of ?c b p] by (auto simp: rctrl_ok_def crel_def)
    have "successively (\<lambda>f g. SN_LESS (sn f) (sn g)) (map snd (ao @ p))"
      using ok(2) wf by (intro gap_SN_LESS) (auto simp: achain_def awf_def)
    with ok pend awf_length [OF wf w] show ?thesis by (auto simp: rctrl_ok_def timer_ok_def)
  qed
  then show "successively (\<lambda>f g. SN_LESS (sn f) (sn g)) (out @ pending ?c)"
    and "mset acc = mset out + mset (pending ?c)"
    and "length (pending ?c) < unat (wsize_b (snd s))"
    and "pending ?c \<noteq> [] \<Longrightarrow> timer ?c" by auto
qed

text \<open>An example: after frame 4095 the buffer waits for frame 0 and holds frame 1.\<close>

definition ex_frame :: "u16 \<Rightarrow> recv_frame" where
  "ex_frame s = \<lparr>attrib = \<lparr>hdrlen = 26, to_fr_ds = 0, amsdu = False, qos = True, priority = 0, seq_num = s,
     frag_num = 0, mfrag = False, privacy = False, bdecrypted = False, encrypt = 0, iv_len = 0, icv_len = 0,
     dst = [], src = [], ta = [], ra = [], bssid = [], key_index = 0\<rparr>,
     buf = [], rx_data = 0, rx_tail = 0, len = 0, keytrack = 0\<rparr>"

definition ex_priv :: recv_priv where
  "ex_priv = \<lparr>dbg_rx_ampdu_window_shift_cnt = 0, dbg_rx_ampdu_drop_count = 0,
     dbg_rx_ampdu_forced_indicate_count = 0, dbg_rx_ampdu_loss_count = 0, rx_drop = 0, dbg_rx_drop_count = 0\<rparr>"

definition ex_ctrl :: "u16 \<Rightarrow> recv_frame list \<Rightarrow> bool \<Rightarrow> recv_reorder_ctrl" where
  "ex_ctrl i p t = \<lparr>enable = True, indicate_seq = i, wsize_b = 64, pending = p, bReorderWaiting = t, ampdu_size = 64,
     rec_abba_rsp_ack = False, timer = t\<rparr>"

lemmas ex_defs = ex_frame_def ex_priv_def ex_ctrl_def
lemmas reorder_eval = recv_indicatepkt_reorder_def check_indicate_seq_def SN_LESS_def
  recv_indicatepkts_in_order_def rtw_reordering_ctrl_timeout_handler_def recv_indicatepkts_pkt_loss_cnt_def

lemma ex_run: "reorder_run (\<lambda>_. True) (ex_priv, ex_ctrl 0xFFFF [] False) [ex_frame 4095, ex_frame 1] [ex_frame 4095]
    (ex_priv, ex_ctrl 0 [ex_frame 1] True)"
proof -
  let ?s = "(ex_priv, ex_ctrl 0xFFFF [] False)"
  have "reorder_run (\<lambda>_. True) ?s (if RX_HANDLED = RX_HANDLED then [] @ [ex_frame 4095] else []) ([] @ [ex_frame 4095])
      (ex_priv, ex_ctrl 0 [] False)"
    by (rule run_rx [OF run_start]) (simp_all add: ex_defs reorder_eval)
  then have "reorder_run (\<lambda>_. True) ?s [ex_frame 4095] [ex_frame 4095] (ex_priv, ex_ctrl 0 [] False)" by simp
  then have "reorder_run (\<lambda>_. True) ?s
      (if RX_HANDLED = RX_HANDLED then [ex_frame 4095] @ [ex_frame 1] else [ex_frame 4095]) ([ex_frame 4095] @ [])
      (ex_priv, ex_ctrl 0 [ex_frame 1] True)"
    by (rule run_rx) (simp_all add: ex_defs reorder_eval)
  then show ?thesis by simp
qed

lemma ex_fresh: "fresh_ctrl (ex_ctrl 0xFFFF [] False)"
  by (simp add: fresh_ctrl_def ex_ctrl_def)

text \<open>C1: Whatever QoS frames arrive, in whatever order and with whatever repetitions, and whenever the
  timer expires: from a fresh reordering state, the frames handed on to \<open>recv_process_mpdu\<close> follow one another in
  sequence-number order (in the sense of \<open>SN_LESS\<close>, modulo 4096), and the frames still pending continue that
  order.\<close>

theorem reorder_run_in_order:
  assumes "fresh_ctrl c0" and "reorder_run process (priv0, c0) acc out (priv, c)"
  shows "successively (\<lambda>f g. SN_LESS (sn f) (sn g)) (out @ pending c)"
  using run_facts(1) [OF assms(2)] assms(1) by simp

theorem reorder_run_in_order_witness:
  "successively (\<lambda>f g. SN_LESS (sn f) (sn g)) ([ex_frame 4095] @ pending (ex_ctrl 0 [ex_frame 1] True))"
  by (rule reorder_run_in_order [OF ex_fresh ex_run])

text \<open>C20: No frame is lost or duplicated by the reordering buffer: at every point of a run the frames it
  accepted are, as a multiset, those handed on and those still pending.\<close>

theorem reorder_run_conserves:
  assumes "fresh_ctrl c0" and "reorder_run process (priv0, c0) acc out (priv, c)"
  shows "mset acc = mset out + mset (pending c)"
  using run_facts(2) [OF assms(2)] assms(1) by simp

theorem reorder_run_conserves_witness:
  "mset [ex_frame 4095, ex_frame 1] = mset [ex_frame 4095] + mset (pending (ex_ctrl 0 [ex_frame 1] True))"
  by (rule reorder_run_conserves [OF ex_fresh ex_run])

text \<open>C27: No frame waits for ever: whenever frames are pending in a run, the timer is armed, its handler
  hands on at least the first of them and keeps the others in order, and fewer frames than the window holds are
  pending.\<close>

theorem reorder_timeout_progress:
  assumes "fresh_ctrl c0" and "reorder_run process (priv0, c0) acc out (priv, c)" and "pending c \<noteq> []"
  shows "timer c \<and> length (pending c) < unat (wsize_b c0) \<and>
         (\<exists>priv' c' out'. rtw_reordering_ctrl_timeout_handler process False priv (Some c) = (priv', Some c', out') \<and>
           out' \<noteq> [] \<and> pending c = out' @ pending c')"
proof -
  have inv: "run_inv (wsize_b c0) acc out c" using reorder_run_inv [OF assms(2)] assms(1) by simp
  from inv assms(3) obtain b p where ok: "rctrl_ok c b p" by (auto simp: run_inv_def fresh_ctrl_def)
  obtain b' p' o' where t: "atimeout b p = (b', p', o')" by (metis prod_cases3)
  have pend: "pending c = map snd p" and wf: "awf (unat (wsize_b c)) b p" using ok by (auto simp: rctrl_ok_def crel_def)
  obtain priv' c' where h: "rtw_reordering_ctrl_timeout_handler process False priv (Some c) = (priv', Some c', map snd o')"
    and ok': "rctrl_ok c' b' p'" using reorder_timeout_refines [OF ok t] by blast
  have "pending c' = map snd p'" using ok' by (simp add: rctrl_ok_def crel_def)
  with awf_timeout(2,3) [OF wf t] pend assms(3) h
  have "\<exists>priv' c' out'. rtw_reordering_ctrl_timeout_handler process False priv (Some c) = (priv', Some c', out') \<and>
           out' \<noteq> [] \<and> pending c = out' @ pending c'" by auto
  with run_facts(3,4) [OF assms(2)] assms(1,3) show ?thesis by auto
qed

theorem reorder_timeout_progress_witness:
  "pending (ex_ctrl 0 [ex_frame 1] True) \<noteq> [] \<and>
   (\<exists>priv' c' out'. rtw_reordering_ctrl_timeout_handler (\<lambda>_. True) False ex_priv (Some (ex_ctrl 0 [ex_frame 1] True)) =
        (priv', Some c', out') \<and> out' \<noteq> [] \<and> pending (ex_ctrl 0 [ex_frame 1] True) = out' @ pending c')"
  using reorder_timeout_progress [OF ex_fresh ex_run] by (simp add: ex_ctrl_def)

text \<open>C9: The receive handler implements the reordering specification on sequence numbers that never wrap:
  related states stay related, a frame is refused exactly when the specification refuses it (2048 or more ahead of the
  window start, or a duplicate of a pending frame), and the frames handed on are the specification's.\<close>

theorem reorder_recv_simulation:
  assumes "rctrl_ok c b p" and "qos (attrib f)" and "unat (sn f) < 4096"
  shows "case arecv (unat (wsize_b c)) b p f of
           None \<Rightarrow> \<exists>priv'. recv_indicatepkt_reorder process priv (Some c) f = (RX_FAIL, priv', Some c, [])
         | Some (b', p', out) \<Rightarrow>
             \<exists>priv' c'. recv_indicatepkt_reorder process priv (Some c) f = (RX_HANDLED, priv', Some c', map snd out) \<and>
               rctrl_ok c' b' p' \<and> wsize_b c' = wsize_b c"
  by (rule reorder_recv_refines [OF assms])

theorem reorder_recv_simulation_witness:
  "\<exists>priv' c'. recv_indicatepkt_reorder (\<lambda>_. True) ex_priv (Some (ex_ctrl 0 [ex_frame 1] True)) (ex_frame 0) =
      (RX_HANDLED, priv', Some c', [ex_frame 0, ex_frame 1]) \<and>
      rctrl_ok c' 4098 [] \<and> wsize_b c' = 64"
proof -
  have "rctrl_ok (ex_ctrl 0 [ex_frame 1] True) 4096 [(4097, ex_frame 1)]"
    by (simp add: rctrl_ok_def crel_def awf_def timer_ok_def ex_defs)
  from reorder_recv_simulation [OF this, of "ex_frame 0" "\<lambda>_. True" ex_priv] show ?thesis
    by (simp add: ex_defs arecv_def ahead_def ashift_def)
qed


end
