(* ===== verification/Sec_Rc4.thy ===== *)
theory Sec_Rc4
  imports Recv_Frame "HOL-Library.Multiset"
begin

text \<open>
  The RC4 stream cipher, the CRC-32 integrity value and the WEP handlers of
  \<^verbatim>\<open>core/rtw_security.c\<close>. The lemmas show that the RC4 state stays a permutation of all bytes, that
  encryption is its own inverse, that the table-driven CRC is the bitwise one, and that a WEP
  frame is decrypted to what was encrypted.
\<close>

section \<open>RC4\<close>

text \<open>\<open>struct arc4context\<close>. The indices are masked with \<open>0xff\<close> after each addition of values below
  256, so they are naturals below 256 here.\<close>

record arc4context =
  arc4_x :: nat
  arc4_y :: nat
  arc4_state :: bytes

text \<open>The key-scheduling loop over the values of \<open>counter\<close>; a read behind the key is \<^const>\<open>None\<close>.\<close>

fun arcfour_init_loop :: "bytes \<Rightarrow> nat \<Rightarrow> nat list \<Rightarrow> nat \<Rightarrow> nat \<Rightarrow> bytes \<Rightarrow> bytes option" where
  "arcfour_init_loop key key_len [] keyindex stateindex state = Some state"
| "arcfour_init_loop key key_len (counter # cs) keyindex stateindex state = do {
     k \<leftarrow> rd key keyindex;
     let t = state ! counter;
     let stateindex' = (stateindex + unat k + unat t) mod 256;
     let u = state ! stateindex';
     arcfour_init_loop key key_len cs (if key_len \<le> keyindex + 1 then 0 else keyindex + 1) stateindex'
       (state[stateindex' := t, counter := u]) }"

definition arcfour_init :: "bytes \<Rightarrow> nat \<Rightarrow> arc4context option" where
  "arcfour_init key key_len = do {
     st \<leftarrow> arcfour_init_loop key key_len [0..<256] 0 0 (map word_of_nat [0..<256]);
     Some \<lparr>arc4_x = 0, arc4_y = 0, arc4_state = st\<rparr> }"

definition arcfour_byte :: "arc4context \<Rightarrow> u8 \<times> arc4context" where
  "arcfour_byte c =
     (let x = (arc4_x c + 1) mod 256;
          sx = arc4_state c ! x;
          y = (unat sx + arc4_y c) mod 256;
          sy = arc4_state c ! y;
          st = (arc4_state c)[y := sx, x := sy]
      in (st ! ((unat sx + unat sy) mod 256), \<lparr>arc4_x = x, arc4_y = y, arc4_state = st\<rparr>))"

text \<open>The bytes written to \<open>dest\<close> and the context afterwards; \<open>dest\<close> may be \<open>src\<close>, since each byte is
  read before it is written.\<close>

fun arcfour_encrypt :: "arc4context \<Rightarrow> bytes \<Rightarrow> bytes \<times> arc4context" where
  "arcfour_encrypt c [] = ([], c)"
| "arcfour_encrypt c (s # ss) =
     (let (k, c1) = arcfour_byte c; (d, c2) = arcfour_encrypt c1 ss in ((s XOR k) # d, c2))"

section \<open>CRC-32\<close>

definition crc32_reverseBit :: "u8 \<Rightarrow> u8" where
  "crc32_reverseBit d =
     (push_bit 7 d AND 0x80) OR (push_bit 5 d AND 0x40) OR (push_bit 3 d AND 0x20) OR (push_bit 1 d AND 0x10) OR
     (drop_bit 1 d AND 0x08) OR (drop_bit 3 d AND 0x04) OR (drop_bit 5 d AND 0x02) OR (drop_bit 7 d AND 0x01)"

text \<open>The four bytes of a word, least significant first, and back.\<close>

definition le32_bytes :: "u32 \<Rightarrow> bytes" where
  "le32_bytes w = [ucast w, ucast (drop_bit 8 w), ucast (drop_bit 16 w), ucast (drop_bit 24 w)]"

definition le32_word :: "u8 \<Rightarrow> u8 \<Rightarrow> u8 \<Rightarrow> u8 \<Rightarrow> u32" where
  "le32_word b0 b1 b2 b3 =
     ucast b0 OR push_bit 8 (ucast b1) OR push_bit 16 (ucast b2) OR push_bit 24 (ucast b3)"

definition crc32_shift :: "u32 \<Rightarrow> u32" where
  "crc32_shift c = (if c AND 0x80000000 \<noteq> 0 then push_bit 1 c XOR 0x04c11db7 else push_bit 1 c)"

definition crc32_entry :: "nat \<Rightarrow> u32" where
  "crc32_entry i =
     (let k = crc32_reverseBit (word_of_nat i);
          c = (crc32_shift ^^ 8) (push_bit 24 (ucast k));
          p = le32_bytes c
      in le32_word (crc32_reverseBit (p ! 3)) (crc32_reverseBit (p ! 2))
           (crc32_reverseBit (p ! 1)) (crc32_reverseBit (p ! 0)))"

text \<open>The table \<open>crc32_init\<close> fills on the first use; it is not changed afterwards.\<close>

definition crc32_table :: "u32 list" where
  "crc32_table = map crc32_entry [0..<256]"

definition crc32_update :: "u32 \<Rightarrow> u8 \<Rightarrow> u32" where
  "crc32_update crc b = crc32_table ! unat ((crc XOR ucast b) AND 0xff) XOR drop_bit 8 crc"

definition getcrc32 :: "bytes \<Rightarrow> u32" where
  "getcrc32 b = NOT (foldl crc32_update 0xffffffff b)"

definition rtw_calc_crc32 :: "bytes \<Rightarrow> u32" where
  "rtw_calc_crc32 data = NOT (foldl crc32_update 0xFFFFFFFF data)"

section \<open>The keys and the frames to send\<close>

text \<open>The fields of \<open>struct security_priv\<close> the software ciphers and the countermeasures use; a
  \<open>union Keytype\<close> is its 32 bytes.\<close>

record security_priv =
  dot11PrivacyKeyIndex :: nat
  dot11DefKey :: "bytes list"
  dot11DefKeylen :: "nat list"
  dot118021XGrpKeyid :: nat
  dot118021XGrpKey :: "bytes list"
  dot118021XGrprxmickey :: "bytes list"
  binstallGrpkey :: bool
  busetkipkey :: bool
  bcheck_grpkey :: bool
  hw_decrypted :: bool
  last_mic_err_time :: nat
  btkip_countermeasure :: bool
  btkip_countermeasure_time :: nat

text \<open>The fields of \<open>struct pkt_attrib\<close> and \<open>struct xmit_frame\<close>; the address of the buffer matters because
  the fragments are aligned to four bytes.\<close>

record pkt_attrib =
  tx_encrypt :: u8
  tx_hdrlen :: u16
  tx_iv_len :: u8
  tx_icv_len :: u8
  nr_frags :: u8
  last_txcmdsz :: nat
  tx_ra :: bytes
  tx_ta :: bytes
  dot118021x_UncstKey :: bytes

record xmit_frame =
  x_attrib :: pkt_attrib
  buf_addr :: "(nat \<times> bytes) option"
  pkt_offset :: int

definition arr :: "'a list \<Rightarrow> nat \<Rightarrow> 'a option" where
  "arr xs i = (if i < length xs then Some (xs ! i) else None)"

text \<open>\<open>TXDESC_SIZE\<close> of the 8822B and \<open>PACKET_OFFSET_SZ\<close>; the offset is kept in eight bits.\<close>

definition hw_hdr_offset :: "xmit_frame \<Rightarrow> nat" where
  "hw_hdr_offset xf = nat ((48 + pkt_offset xf * 8) mod 256)"

definition RND4 :: "nat \<Rightarrow> nat" where
  "RND4 x = (x div 4 + (if x mod 4 = 0 then 0 else 1)) * 4"

text \<open>The length of the data of a fragment, in unsigned arithmetic.\<close>

definition frag_data_len :: "pkt_attrib \<Rightarrow> nat \<Rightarrow> nat" where
  "frag_data_len a sz =
     uint_sub (uint_sub (uint_sub sz (unat (tx_hdrlen a))) (unat (tx_iv_len a))) (unat (tx_icv_len a))"

text \<open>Both ciphers encrypt the data of a fragment in place and then the integrity value behind it.\<close>

definition rc4_encrypt_frag :: "bytes \<Rightarrow> nat \<Rightarrow> bytes \<Rightarrow> nat \<Rightarrow> nat \<Rightarrow> bytes option" where
  "rc4_encrypt_frag key keylen b payload plen = do {
     data \<leftarrow> rd_slice b payload plen;
     let crc = le32_bytes (getcrc32 data);
     ctx \<leftarrow> arcfour_init key keylen;
     let (d, ctx1) = arcfour_encrypt ctx data;
     b1 \<leftarrow> wr_slice b payload d;
     wr_slice b1 (payload + plen) (fst (arcfour_encrypt ctx1 crc)) }"

section \<open>WEP\<close>

text \<open>The sixteen-byte array \<open>wepkey\<close>: three bytes of the initialisation vector, then the key. Copying
  more than thirteen key bytes leaves the array. Its unset bytes are never read.\<close>

definition wep_key :: "bytes \<Rightarrow> bytes \<Rightarrow> nat \<Rightarrow> bytes option" where
  "wep_key iv skey keylength = do {
     k \<leftarrow> wr_slice (replicate 16 0) 0 iv;
     s \<leftarrow> rd_slice skey 0 keylength;
     wr_slice k 3 s }"

fun wep_encrypt_loop ::
  "security_priv \<Rightarrow> pkt_attrib \<Rightarrow> nat \<Rightarrow> nat \<Rightarrow> nat \<Rightarrow> nat \<Rightarrow> nat \<Rightarrow> bytes \<Rightarrow> bytes option" where
  "wep_encrypt_loop sec a frag_len addr keylength 0 pframe b = Some b"
| "wep_encrypt_loop sec a frag_len addr keylength (Suc n) pframe b = do {
     iv \<leftarrow> rd_slice b (pframe + unat (tx_hdrlen a)) 3;
     skey \<leftarrow> arr (dot11DefKey sec) (dot11PrivacyKeyIndex sec);
     wepkey \<leftarrow> wep_key iv skey keylength;
     let payload = pframe + unat (tx_iv_len a) + unat (tx_hdrlen a);
     b' \<leftarrow> rc4_encrypt_frag wepkey (3 + keylength) b payload
            (frag_data_len a (if n = 0 then last_txcmdsz a else frag_len));
     wep_encrypt_loop sec a frag_len addr keylength n (RND4 (addr + pframe + frag_len) - addr) b' }"

definition rtw_wep_encrypt :: "security_priv \<Rightarrow> nat \<Rightarrow> xmit_frame \<Rightarrow> xmit_frame option" where
  "rtw_wep_encrypt sec frag_len xf =
     (let a = x_attrib xf
      in case buf_addr xf of
           None \<Rightarrow> Some xf
         | Some (addr, b) \<Rightarrow>
             if tx_encrypt a = WEP40_T \<or> tx_encrypt a = WEP104_T then do {
               keylength \<leftarrow> arr (dot11DefKeylen sec) (dot11PrivacyKeyIndex sec);
               b' \<leftarrow> wep_encrypt_loop sec a frag_len addr keylength (unat (nr_frags a)) (hw_hdr_offset xf) b;
               Some (xf\<lparr>buf_addr := Some (addr, b')\<rparr>) }
             else Some xf)"

text \<open>The offset and the length of the encrypted part of a received frame.\<close>

definition rx_payload :: "recv_frame \<Rightarrow> nat" where
  "rx_payload f = rx_data f + unat (iv_len (attrib f)) + unat (hdrlen (attrib f))"

definition rx_payload_len :: "recv_frame \<Rightarrow> nat" where
  "rx_payload_len f = uint_sub (uint_sub (len f) (unat (hdrlen (attrib f)))) (unat (iv_len (attrib f)))"

text \<open>Decryption in place, shared by both ciphers.\<close>

definition rc4_decrypt :: "bytes \<Rightarrow> nat \<Rightarrow> recv_frame \<Rightarrow> recv_frame option" where
  "rc4_decrypt key keylen f = do {
     data \<leftarrow> rd_slice (buf f) (rx_payload f) (rx_payload_len f);
     ctx \<leftarrow> arcfour_init key keylen;
     b \<leftarrow> wr_slice (buf f) (rx_payload f) (fst (arcfour_encrypt ctx data));
     Some (f\<lparr>buf := b\<rparr>) }"

text \<open>\<open>rtw_wep_decrypt\<close> computes the integrity value of the decrypted data and drops it, so only the
  decryption is left.\<close>

definition rtw_wep_decrypt :: "security_priv \<Rightarrow> recv_frame \<Rightarrow> recv_frame option" where
  "rtw_wep_decrypt sec f =
     (if encrypt (attrib f) = WEP40_T \<or> encrypt (attrib f) = WEP104_T then do {
        let keyindex = unat (key_index (attrib f));
        keylength \<leftarrow> arr (dot11DefKeylen sec) keyindex;
        iv \<leftarrow> rd_slice (buf f) (rx_data f + unat (hdrlen (attrib f))) 3;
        skey \<leftarrow> arr (dot11DefKey sec) keyindex;
        wepkey \<leftarrow> wep_key iv skey keylength;
        rc4_decrypt wepkey (3 + keylength) f }
      else Some f)"

section \<open>The RC4 state is a permutation\<close>

text \<open>The invariant of a context between calls.\<close>

definition arc4_ok :: "arc4context \<Rightarrow> bool" where
  "arc4_ok c \<longleftrightarrow> arc4_x c < 256 \<and> arc4_y c < 256 \<and>
     mset (arc4_state c) = mset (map word_of_nat [0..<256])"

lemma perm_length: "mset st = mset (map word_of_nat [0..<256]) \<Longrightarrow> length st = 256"
  by (metis diff_zero length_map length_upt size_mset)

lemma perm_swap:
  assumes "mset st = mset (map word_of_nat [0..<256] :: bytes)" and "i < 256" and "j < 256"
  shows "mset (st[j := st ! i, i := st ! j]) = mset (map word_of_nat [0..<256] :: bytes)"
  using assms perm_length [OF assms(1)] by (simp only: mset_swap)

lemma arcfour_init_loop_perm:
  assumes "arcfour_init_loop key n cs ki si st = Some st'" and "\<forall>c \<in> set cs. c < 256"
    and "mset st = mset (map word_of_nat [0..<256])"
  shows "mset st' = mset (map word_of_nat [0..<256])"
  using assms
proof (induction key n cs ki si st rule: arcfour_init_loop.induct)
  case (2 key key_len counter cs keyindex stateindex state)
  from "2.prems"(1) obtain k where k: "rd key keyindex = Some k" by (auto split: bind_splits)
  let ?si = "(stateindex + unat k + unat (state ! counter)) mod 256"
  have "mset (state[?si := state ! counter, counter := state ! ?si]) = mset (map word_of_nat [0..<256])"
    using "2.prems"(2,3) by (intro perm_swap) auto
  with 2 k show ?case by (simp add: Let_def)
qed simp

lemma arcfour_init_ok: "arcfour_init key n = Some c \<Longrightarrow> arc4_ok c"
  using arcfour_init_loop_perm [of key n "[0..<256]" 0 0 "map word_of_nat [0..<256]"]
  by (auto simp: arcfour_init_def arc4_ok_def split: bind_splits)

text \<open>The key schedule never reads behind the key when \<open>key_len\<close> is the number of its bytes.\<close>

lemma arcfour_init_loop_Some:
  assumes "0 < n" and "n \<le> length key" and "keyindex < n"
  shows "\<exists>st'. arcfour_init_loop key n cs keyindex stateindex st = Some st'"
  using assms
  by (induction key n cs keyindex stateindex st rule: arcfour_init_loop.induct) (auto simp: rd_def Let_def)

lemma arcfour_init_Some:
  assumes "0 < n" and "n \<le> length key"
  obtains c where "arcfour_init key n = Some c"
  using arcfour_init_loop_Some [OF assms, of 0 "[0..<256]" 0 "map word_of_nat [0..<256]"] assms(1)
  by (auto simp: arcfour_init_def)

lemma arcfour_byte_ok:
  assumes "arc4_ok c"
  shows "arc4_ok (snd (arcfour_byte c))"
proof -
  let ?st = "arc4_state c" and ?x = "(arc4_x c + 1) mod 256"
  let ?y = "(unat (?st ! ?x) + arc4_y c) mod 256"
  have "mset (?st[?y := ?st ! ?x, ?x := ?st ! ?y]) = mset (map word_of_nat [0..<256])"
    using assms by (intro perm_swap) (auto simp: arc4_ok_def)
  then show ?thesis by (simp add: arcfour_byte_def arc4_ok_def Let_def)
qed

lemma arcfour_encrypt_ok: "arc4_ok c \<Longrightarrow> arc4_ok (snd (arcfour_encrypt c s))"
  by (induction s arbitrary: c) (auto simp: split_beta Let_def dest: arcfour_byte_ok)

section \<open>A stream cipher as an interface\<close>

text \<open>What the frame handlers rely on: encrypting is done piece by piece, keeps lengths and is
  undone by encrypting again from the same context.\<close>

locale stream_cipher =
  fixes crypt :: "'c \<Rightarrow> bytes \<Rightarrow> bytes \<times> 'c"
  assumes crypt_append: "fst (crypt c (a @ b)) = fst (crypt c a) @ fst (crypt (snd (crypt c a)) b)"
    and crypt_length: "length (fst (crypt c a)) = length a"
    and crypt_crypt: "fst (crypt c (fst (crypt c a))) = a"
begin

text \<open>Data and integrity value encrypted by two calls are decrypted by one.\<close>

lemma decrypt_two_calls:
  "fst (crypt c (fst (crypt c a) @ fst (crypt (snd (crypt c a)) b))) = a @ b"
  by (simp only: crypt_append [symmetric] crypt_crypt)

lemma crypt_inj: "fst (crypt c a) = fst (crypt c b) \<longleftrightarrow> a = b"
  by (metis crypt_crypt)

end

lemma arcfour_encrypt_length: "length (fst (arcfour_encrypt c s)) = length s"
  by (induction s arbitrary: c) (auto simp: split_beta Let_def)

lemma arcfour_encrypt_append:
  "fst (arcfour_encrypt c (a @ b)) = fst (arcfour_encrypt c a) @ fst (arcfour_encrypt (snd (arcfour_encrypt c a)) b)"
  by (induction a arbitrary: c) (simp_all add: split_beta Let_def)

lemma arcfour_encrypt_twice: "fst (arcfour_encrypt c (fst (arcfour_encrypt c s))) = s"
  by (induction s arbitrary: c) (simp_all add: split_beta Let_def xor.assoc)

interpretation rc4: stream_cipher arcfour_encrypt
  by unfold_locales (rule arcfour_encrypt_append arcfour_encrypt_length arcfour_encrypt_twice)+

text \<open>One byte of the input decides the same byte of the output only.\<close>

lemma arcfour_encrypt_update:
  "i < length s \<Longrightarrow> fst (arcfour_encrypt c (s[i := v])) = (fst (arcfour_encrypt c s))[i := v XOR s ! i XOR fst (arcfour_encrypt c s) ! i]"
proof (induction s arbitrary: c i)
  case (Cons x s)
  have "a XOR (b XOR (b XOR k)) = a XOR k" for a b k :: u8 by (simp flip: xor.assoc [of b b k])
  with Cons show ?case by (cases i) (simp_all add: split_beta Let_def xor.assoc)
qed simp

section \<open>The table-driven CRC is the bitwise one\<close>

text \<open>The reference: one shift per bit, least significant bit first, with the reflected polynomial.\<close>

definition crc_bit :: "u32 \<Rightarrow> u32" where
  "crc_bit c = (if odd c then drop_bit 1 c XOR 0xEDB88320 else drop_bit 1 c)"

definition crc32_ref :: "bytes \<Rightarrow> u32" where
  "crc32_ref b = NOT (foldl (\<lambda>c x. (crc_bit ^^ 8) (c XOR ucast x)) 0xffffffff b)"

lemma bit_reverseBit: "bit (crc32_reverseBit d) n \<longleftrightarrow> n < 8 \<and> bit d (7 - n)"
proof (cases "n < 8")
  case True
  then show ?thesis using True [unfolded less_numeral_cases]
    by (elim disjE) (simp_all add: crc32_reverseBit_def bit_simps del: push_bit_Suc)
qed (auto dest: bit_imp_le_length)

lemma bit_le32_word:
  "bit (le32_word b0 b1 b2 b3) n \<longleftrightarrow>
     (if n < 8 then bit b0 n else if n < 16 then bit b1 (n - 8) else if n < 24 then bit b2 (n - 16)
      else n < 32 \<and> bit b3 (n - 24))"
  by (auto simp: le32_word_def bit_simps dest: bit_imp_le_length)

text \<open>The reversal of all 32 bits, as the code does it byte by byte.\<close>

definition rev32 :: "u32 \<Rightarrow> u32" where
  "rev32 c = (let p = le32_bytes c in le32_word (crc32_reverseBit (p ! 3)) (crc32_reverseBit (p ! 2))
     (crc32_reverseBit (p ! 1)) (crc32_reverseBit (p ! 0)))"

lemma bit_rev32: "bit (rev32 c) n \<longleftrightarrow> n < 32 \<and> bit c (31 - n)"
  by (auto simp: rev32_def Let_def bit_le32_word bit_reverseBit le32_bytes_def bit_simps)

lemma rev32_shift: "rev32 (crc32_shift c) = crc_bit (rev32 c)"
proof -
  have xor: "rev32 (a XOR b) = rev32 a XOR rev32 b" for a b
    by (rule bit_word_eqI) (auto simp: bit_rev32 bit_simps)
  have shift: "rev32 (push_bit 1 c) = drop_bit 1 (rev32 c)"
    by (rule bit_word_eqI) (auto simp: bit_rev32 bit_simps Suc_diff_Suc simp del: push_bit_Suc)
  have poly: "rev32 0x04c11db7 = 0xEDB88320"
    by (simp add: rev32_def le32_bytes_def le32_word_def crc32_reverseBit_def)
  have "(c AND 0x80000000 \<noteq> 0) \<longleftrightarrow> bit c 31"
  proof -
    have "(0x80000000 :: u32) = 2 ^ 31" by simp
    then show ?thesis by (simp only: and_exp_eq_0_iff_not_bit not_not)
  qed
  moreover have "odd (rev32 c) \<longleftrightarrow> bit c 31" by (simp add: bit_rev32 flip: bit_0)
  ultimately show ?thesis by (simp add: crc32_shift_def crc_bit_def xor shift [unfolded One_nat_def] poly del: push_bit_Suc)
qed

lemma rev32_shifts: "rev32 ((crc32_shift ^^ k) c) = (crc_bit ^^ k) (rev32 c)"
  by (induction k) (simp_all add: rev32_shift)

lemma crc32_entry_eq: "crc32_entry i = (crc_bit ^^ 8) (ucast (word_of_nat i :: u8))"
proof -
  have "rev32 (push_bit 24 (ucast (crc32_reverseBit b))) = ucast b" for b
  proof (rule bit_word_eqI)
    fix n :: nat
    assume "n < LENGTH(32)"
    show "bit (rev32 (push_bit 24 (ucast (crc32_reverseBit b)))) n = bit (ucast b :: u32) n"
      by (cases "n < 8") (auto simp: bit_rev32 bit_reverseBit bit_simps dest: bit_imp_le_length)
  qed
  moreover have "crc32_entry i = rev32 ((crc32_shift ^^ 8) (push_bit 24 (ucast (crc32_reverseBit (word_of_nat i)))))"
    by (simp only: crc32_entry_def rev32_def Let_def)
  ultimately show ?thesis by (simp only: rev32_shifts)
qed

lemma crc_bit_xor: "crc_bit (a XOR b) = crc_bit a XOR crc_bit b"
proof -
  have "(p XOR x) XOR (q XOR x) = p XOR q" for p q x :: u32
    by (rule bit_word_eqI) (auto simp: bit_simps)
  moreover have "odd (a XOR b) \<longleftrightarrow> odd a \<noteq> odd b" by (simp add: even_xor_iff)
  ultimately show ?thesis by (simp add: crc_bit_def ac_simps)
qed

lemma crc_bits_xor: "(crc_bit ^^ k) (a XOR b) = (crc_bit ^^ k) a XOR (crc_bit ^^ k) b"
  by (induction k) (simp_all add: crc_bit_xor)

lemma crc_bits_push: "k \<le> 8 \<Longrightarrow> (crc_bit ^^ k) (push_bit 8 (drop_bit 8 c)) = push_bit (8 - k) (drop_bit 8 c)"
proof (induction k)
  case (Suc k)
  let ?d = "push_bit (8 - k) (drop_bit 8 c)"
  have "(crc_bit ^^ Suc k) (push_bit 8 (drop_bit 8 c)) = crc_bit ?d" using Suc by simp
  also have "even ?d" using Suc.prems by (simp add: even_push_bit_iff)
  then have "crc_bit ?d = drop_bit 1 ?d" by (simp add: crc_bit_def)
  also have "\<dots> = push_bit (8 - Suc k) (drop_bit 8 c)"
    using Suc.prems by (intro bit_word_eqI) (auto simp: bit_simps dest: bit_imp_le_length)
  finally show ?case .
qed simp

lemma crc32_table_nth: "i < 256 \<Longrightarrow> crc32_table ! i = crc32_entry i"
  by (simp only: crc32_table_def length_upt nth_map nth_upt diff_zero add_0)

lemma unat_ucast_u8_u32: "unat (ucast (w :: u8) :: u32) = unat w"
  using unat_u8_lt [of w] by (simp add: unsigned_ucast_eq take_bit_nat_eq_self del: unat_u8_lt)

lemma crc32_update_ref: "crc32_update crc b = (crc_bit ^^ 8) (crc XOR ucast b)"
proof -
  let ?x = "crc XOR ucast b"
  have "?x AND 0xff = ucast (ucast ?x :: u8)"
  proof -
    have "(0xff :: u32) = mask 8" by (simp add: mask_eq_exp_minus_1)
    then have "?x AND 0xff = take_bit 8 ?x" by (simp only: take_bit_eq_mask)
    then show ?thesis by (simp only:) (rule bit_word_eqI, auto simp: bit_simps)
  qed
  then have idx: "unat (?x AND 0xff) = unat (ucast ?x :: u8)" by (simp only: unat_ucast_u8_u32)
  have "crc32_table ! unat (?x AND 0xff) = (crc_bit ^^ 8) (ucast (ucast ?x :: u8))"
    by (simp only: idx crc32_table_nth unat_u8_lt crc32_entry_eq) simp
  moreover have "drop_bit 8 crc = (crc_bit ^^ 8) (push_bit 8 (drop_bit 8 ?x))"
  proof -
    have "drop_bit 8 ?x = drop_bit 8 crc" by (rule bit_word_eqI) (auto simp: bit_simps dest: bit_imp_le_length)
    then show ?thesis by (simp add: crc_bits_push)
  qed
  moreover have "ucast (ucast ?x :: u8) XOR push_bit 8 (drop_bit 8 ?x) = ?x"
    by (rule bit_word_eqI) (auto simp: bit_simps)
  ultimately show ?thesis by (simp only: crc32_update_def flip: crc_bits_xor)
qed

lemma getcrc32_ref: "getcrc32 b = crc32_ref b"
  by (simp add: getcrc32_def crc32_ref_def crc32_update_ref [abs_def])

text \<open>Each step is a bijection of the register, so a CRC tells apart two messages of the same length that
  differ in one byte.\<close>

lemma crc_poly_bit: "bit (0xEDB88320 :: u32) 31"
  by simp

lemma crc_bit_eq_0: "crc_bit d = 0 \<longleftrightarrow> d = 0"
proof
  assume z: "crc_bit d = 0"
  have ev: "even d"
  proof (rule ccontr)
    assume "odd d"
    then have "drop_bit 1 d = 0xEDB88320" using z by (simp add: crc_bit_def)
    with crc_poly_bit have "bit (drop_bit 1 d) 31" by (simp only:)
    then have "bit d (1 + 31)" by (simp only: bit_drop_bit_eq comp_def)
    then show False by (auto dest: bit_imp_le_length)
  qed
  then have "drop_bit 1 d = 0" using z by (simp add: crc_bit_def)
  then have "\<not> bit d (Suc n)" for n using bit_drop_bit_eq [of 1 d] by (auto simp: fun_eq_iff)
  then have "\<not> bit d n" for n using ev by (cases n) (auto simp: bit_0)
  then show "d = 0" by (intro bit_word_eqI) simp
qed (simp add: crc_bit_def)

lemma inj_crc_bit: "crc_bit a = crc_bit b \<longleftrightarrow> a = b"
  using crc_bit_eq_0 [of "a XOR b"] by (simp add: crc_bit_xor)

lemma inj_crc_bits: "(crc_bit ^^ k) a = (crc_bit ^^ k) b \<longleftrightarrow> a = b"
  by (induction k) (simp_all add: inj_crc_bit)

lemma foldl_crc_inj: "foldl crc32_update a s = foldl crc32_update b s \<longleftrightarrow> a = b"
proof (induction s arbitrary: a b)
  case (Cons x s)
  with Cons show ?case by (simp add: crc32_update_ref inj_crc_bits)
qed simp

lemma getcrc32_one_byte:
  assumes "i < length s" and "v \<noteq> s ! i"
  shows "getcrc32 (s[i := v]) \<noteq> getcrc32 s"
proof
  assume "getcrc32 (s[i := v]) = getcrc32 s"
  then have "foldl crc32_update 0xffffffff (s[i := v]) = foldl crc32_update 0xffffffff s"
    by (simp add: getcrc32_def)
  moreover have "s[i := v] = take i s @ v # drop (Suc i) s" "s = take i s @ s ! i # drop (Suc i) s"
    using assms(1) by (simp_all add: upd_conv_take_nth_drop id_take_nth_drop [symmetric])
  ultimately have "foldl crc32_update 0xffffffff (take i s @ v # drop (Suc i) s) =
      foldl crc32_update 0xffffffff (take i s @ s ! i # drop (Suc i) s)" by metis
  then have "c XOR ucast v = c XOR ucast (s ! i)" if "c = foldl crc32_update 0xffffffff (take i s)" for c
    using that by (simp add: foldl_crc_inj crc32_update_ref inj_crc_bits)
  then have "(ucast v :: u32) = ucast (s ! i)"
    by simp
  moreover have "x = ucast (ucast x :: u32)" for x :: u8
    by (rule bit_word_eqI) (auto simp: bit_simps dest: bit_imp_le_length)
  ultimately show False using assms(2) by metis
qed

section \<open>Frames in place\<close>

lemma frame_split:
  assumes "frame_wf f"
  obtains p q where "buf f = p @ frame_data f @ q" and "length p = rx_data f"
proof
  show "buf f = take (rx_data f) (buf f) @ frame_data f @ drop (rx_tail f) (buf f)"
    using assms by (simp add: frame_data_def frame_wf_def flip: append_assoc take_add)
  show "length (take (rx_data f) (buf f)) = rx_data f" using assms by (simp add: frame_wf_def)
qed

lemma frame_of_split:
  assumes "frame_wf f" and "b = p @ d @ q" and "length p = rx_data f" and "length d = len f"
  shows "frame_wf (f\<lparr>buf := b\<rparr>)" and "frame_data (f\<lparr>buf := b\<rparr>) = d"
  using assms by (auto simp: frame_data_def frame_wf_def)

lemma frame_rd:
  assumes "frame_wf f" and "k + m \<le> len f"
  shows "rd_slice (buf f) (rx_data f + k) m = Some (take m (drop k (frame_data f)))"
proof -
  from assms(1) obtain p q where s: "buf f = p @ frame_data f @ q" "length p = rx_data f" by (rule frame_split)
  have "k + m \<le> length (frame_data f)" using assms by (simp add: length_frame_data)
  then show ?thesis unfolding s(1) by (simp add: rd_slice_append_right rd_slice_def flip: s(2))
qed

lemma frame_wr:
  assumes "frame_wf f" and "k + length s \<le> len f"
  obtains b where "wr_slice (buf f) (rx_data f + k) s = Some b" and "frame_wf (f\<lparr>buf := b\<rparr>)"
    and "frame_data (f\<lparr>buf := b\<rparr>) = take k (frame_data f) @ s @ drop (k + length s) (frame_data f)"
proof -
  from assms(1) obtain p q where s: "buf f = p @ frame_data f @ q" "length p = rx_data f" by (rule frame_split)
  have l: "k + length s \<le> length (frame_data f)" using assms by (simp add: length_frame_data)
  let ?d = "take k (frame_data f) @ s @ drop (k + length s) (frame_data f)"
  show ?thesis
  proof (rule that)
    show "wr_slice (buf f) (rx_data f + k) s = Some (p @ ?d @ q)"
      unfolding s(1) using l by (simp add: wr_slice_def flip: s(2))
    have "length ?d = len f" using l assms by (simp add: length_frame_data)
    then show "frame_wf (f\<lparr>buf := p @ ?d @ q\<rparr>)" "frame_data (f\<lparr>buf := p @ ?d @ q\<rparr>) = ?d"
      using frame_of_split [OF assms(1) refl s(2)] by blast+
  qed
qed

lemma rc4_decrypt_frame:
  assumes "frame_wf f" and "frame_data f = h @ c" and "arcfour_init key n = Some ctx"
    and "length h = unat (iv_len (attrib f)) + unat (hdrlen (attrib f))"
  obtains f' where "rc4_decrypt key n f = Some f'" and "frame_wf f'" and "attrib f' = attrib f"
    and "frame_data f' = h @ fst (arcfour_encrypt ctx c)"
proof -
  have l: "len f = length h + length c" using assms(1,2) by (metis length_append length_frame_data)
  then have pl: "rx_payload_len f = length c" using assms(4) by (simp add: rx_payload_len_def)
  have pp: "rx_payload f = rx_data f + length h" using assms(4) by (simp add: rx_payload_def)
  have rd: "rd_slice (buf f) (rx_payload f) (rx_payload_len f) = Some c"
    using frame_rd [OF assms(1), of "length h" "length c"] l assms(2) by (simp add: pl pp)
  let ?d = "fst (arcfour_encrypt ctx c)"
  have "length h + length ?d \<le> len f" using l by (simp add: arcfour_encrypt_length)
  from frame_wr [OF assms(1) this] obtain b where b: "wr_slice (buf f) (rx_data f + length h) ?d = Some b"
    "frame_wf (f\<lparr>buf := b\<rparr>)"
    "frame_data (f\<lparr>buf := b\<rparr>) = take (length h) (frame_data f) @ ?d @ drop (length h + length ?d) (frame_data f)" .
  show ?thesis
  proof (rule that [of "f\<lparr>buf := b\<rparr>"])
    show "rc4_decrypt key n f = Some (f\<lparr>buf := b\<rparr>)" using rd b(1) assms(3) by (simp add: rc4_decrypt_def pp)
    show "frame_data (f\<lparr>buf := b\<rparr>) = h @ fst (arcfour_encrypt ctx c)"
      using b(3) assms(2) by (simp add: arcfour_encrypt_length)
  qed (use b in simp_all)
qed

text \<open>An encrypted fragment: the data and its integrity value, under one key stream.\<close>

lemma rc4_encrypt_frag_eq:
  assumes "arcfour_init key n = Some ctx" and "payload + plen + 4 \<le> length b"
  shows "rc4_encrypt_frag key n b payload plen =
           Some (take payload b @
             fst (arcfour_encrypt ctx (take plen (drop payload b) @ le32_bytes (getcrc32 (take plen (drop payload b))))) @
             drop (payload + plen + 4) b)"
proof -
  let ?d = "take plen (drop payload b)"
  have l: "length ?d = plen" "length (le32_bytes w) = 4" for w using assms(2) by (auto simp: le32_bytes_def)
  show ?thesis using assms l
    by (simp add: rc4_encrypt_frag_def rd_slice_def wr_slice_def split_beta Let_def arcfour_encrypt_length
        arcfour_encrypt_append add.commute [of 4 "payload + plen"])
qed

text \<open>The encrypted frame as the receiver sees it: header and initialisation vector, then the encrypted data
  and integrity value.\<close>

lemma rc4_frag_frame:
  assumes "arcfour_init key n = Some ctx" and "off + hl + plen + 4 \<le> length b"
    and "rc4_encrypt_frag key n b (off + hl) plen = Some b'"
  shows "take (hl + plen + 4) (drop off b') = take hl (drop off b) @ fst (arcfour_encrypt ctx
           (take plen (drop (off + hl) b) @ le32_bytes (getcrc32 (take plen (drop (off + hl) b)))))"
    and "take (off + hl) b' = take (off + hl) b" and "length b' = length b"
proof -
  let ?d = "take plen (drop (off + hl) b)"
  let ?m = "?d @ le32_bytes (getcrc32 ?d)"
  have m: "length ?m = plen + 4" using assms(2) by (simp add: le32_bytes_def)
  have b': "b' = take (off + hl) b @ fst (arcfour_encrypt ctx ?m) @ drop (off + hl + plen + 4) b"
    using rc4_encrypt_frag_eq [OF assms(1), of "off + hl" plen b] assms(2,3) by simp
  show "take (hl + plen + 4) (drop off b') = take hl (drop off b) @ fst (arcfour_encrypt ctx ?m)"
    unfolding b' using assms(2) m arcfour_encrypt_length [of ctx ?m]
    by (simp add: take_drop min_def add.commute [of hl off])
  show "take (off + hl) b' = take (off + hl) b" "length b' = length b"
    unfolding b' using assms(2) m arcfour_encrypt_length [of ctx ?m] by simp_all
qed

lemma rc4_frag_roundtrip:
  assumes "arcfour_init key n = Some ctx" and "off + hl + plen + 4 \<le> length b"
    and "rc4_encrypt_frag key n b (off + hl) plen = Some b'"
    and "frame_wf f" and "frame_data f = take (hl + plen + 4) (drop off b')"
    and "hl = unat (iv_len (attrib f)) + unat (hdrlen (attrib f))"
  obtains f' where "rc4_decrypt key n f = Some f'" and "frame_wf f'" and "attrib f' = attrib f"
    and "frame_data f' = take (hl + plen) (drop off b) @ le32_bytes (getcrc32 (take plen (drop (off + hl) b)))"
proof -
  let ?d = "take plen (drop (off + hl) b)"
  let ?m = "?d @ le32_bytes (getcrc32 ?d)"
  have h: "take hl (drop off b) @ ?d = take (hl + plen) (drop off b)"
    by (simp add: take_add add.commute)
  have "frame_data f = take hl (drop off b) @ fst (arcfour_encrypt ctx ?m)"
    unfolding assms(5) by (rule rc4_frag_frame(1) [OF assms(1-3)])
  from rc4_decrypt_frame [OF assms(4) this assms(1)] assms(2,6) obtain f' where
    "rc4_decrypt key n f = Some f'" "frame_wf f'" "attrib f' = attrib f"
    "frame_data f' = take hl (drop off b) @ fst (arcfour_encrypt ctx (fst (arcfour_encrypt ctx ?m)))" by auto
  then show ?thesis using h by (intro that) (simp_all add: rc4.crypt_crypt flip: h)
qed

section \<open>WEP frames\<close>

lemma wep_key_Some:
  assumes "length iv = 3" and "keylength \<le> 13" and "keylength \<le> length skey"
  obtains k ctx where "wep_key iv skey keylength = Some k" and "arcfour_init k (3 + keylength) = Some ctx"
proof -
  obtain k where k: "wep_key iv skey keylength = Some k" "length k = 16"
    using assms by (auto simp: wep_key_def wr_slice_def rd_slice_def)
  moreover obtain ctx where "arcfour_init k (3 + keylength) = Some ctx"
    using arcfour_init_Some [of "3 + keylength" k] assms(2) k(2) by auto
  ultimately show ?thesis using that by blast
qed

text \<open>A frame of one fragment that \<open>rtw_wep_encrypt\<close> can take: the key is installed and fits the key
  array, header, initialisation vector and integrity value fit the frame, the frame its buffer.\<close>

definition wep_tx_ok :: "security_priv \<Rightarrow> xmit_frame \<Rightarrow> bytes \<Rightarrow> bool" where
  "wep_tx_ok sec xf b \<longleftrightarrow>
     (let a = x_attrib xf; i = dot11PrivacyKeyIndex sec
      in (tx_encrypt a = WEP40_T \<or> tx_encrypt a = WEP104_T) \<and> nr_frags a = 1 \<and>
         i < length (dot11DefKey sec) \<and> i < length (dot11DefKeylen sec) \<and>
         dot11DefKeylen sec ! i \<le> 13 \<and> dot11DefKeylen sec ! i \<le> length (dot11DefKey sec ! i) \<and>
         tx_iv_len a = 4 \<and> tx_icv_len a = 4 \<and> unat (tx_hdrlen a) + 8 \<le> last_txcmdsz a \<and>
         hw_hdr_offset xf + last_txcmdsz a \<le> length b)"

text \<open>A received frame with the bytes of the frame sent and the attributes the sender used.\<close>

definition rx_of_tx :: "xmit_frame \<Rightarrow> nat \<Rightarrow> bytes \<Rightarrow> recv_frame \<Rightarrow> bool" where
  "rx_of_tx xf keyidx b f \<longleftrightarrow> frame_wf f \<and>
     frame_data f = take (last_txcmdsz (x_attrib xf)) (drop (hw_hdr_offset xf) b) \<and>
     encrypt (attrib f) = tx_encrypt (x_attrib xf) \<and> unat (hdrlen (attrib f)) = unat (tx_hdrlen (x_attrib xf)) \<and>
     iv_len (attrib f) = tx_iv_len (x_attrib xf) \<and> unat (key_index (attrib f)) = keyidx"

lemma frag_data_len_eq:
  "unat (tx_hdrlen a) + unat (tx_iv_len a) + unat (tx_icv_len a) \<le> sz \<Longrightarrow>
     frag_data_len a sz = sz - (unat (tx_hdrlen a) + unat (tx_iv_len a)) - unat (tx_icv_len a)"
  by (simp add: frag_data_len_def)

lemma take_drop_prefix:
  assumes "take n xs = take n ys" and "i + m \<le> n"
  shows "take m (drop i xs) = take m (drop i ys)"
proof -
  have "take m (drop i zs) = drop i (take (i + m) (take n zs))" for zs :: "'a list"
    using assms(2) by (simp add: take_drop min_def add.commute)
  then show ?thesis using assms(1) by metis
qed

text \<open>The bytes the receiver finds behind the header are those of the sender's buffer.\<close>

lemma rx_of_tx_rd:
  assumes "rx_of_tx xf i b' f" and "take n b' = take n b" and "length b' = length b"
    and "hw_hdr_offset xf + last_txcmdsz (x_attrib xf) \<le> length b"
    and "hw_hdr_offset xf + unat (tx_hdrlen (x_attrib xf)) + m \<le> n"
    and "unat (tx_hdrlen (x_attrib xf)) + m \<le> last_txcmdsz (x_attrib xf)"
  shows "rd_slice (buf f) (rx_data f + unat (hdrlen (attrib f))) m =
           Some (take m (drop (hw_hdr_offset xf + unat (tx_hdrlen (x_attrib xf))) b))"
proof -
  let ?h = "unat (tx_hdrlen (x_attrib xf))" and ?off = "hw_hdr_offset xf"
  have wf: "frame_wf f" and fd: "frame_data f = take (last_txcmdsz (x_attrib xf)) (drop ?off b')"
    and h: "unat (hdrlen (attrib f)) = unat (tx_hdrlen (x_attrib xf))" using assms(1) by (auto simp: rx_of_tx_def)
  have "len f = last_txcmdsz (x_attrib xf)" using length_frame_data [OF wf] fd assms(3,4) by simp
  then have "rd_slice (buf f) (rx_data f + ?h) m = Some (take m (drop ?h (frame_data f)))"
    using frame_rd [OF wf, of ?h m] assms(6) by simp
  also have "take m (drop ?h (frame_data f)) = take m (drop (?off + ?h) b')"
    unfolding fd using assms(6) by (simp add: drop_take min_def add.commute)
  also have "\<dots> = take m (drop (?off + ?h) b)" by (rule take_drop_prefix [OF assms(2,5)])
  finally show ?thesis by (simp only: h)
qed

section \<open>Properties\<close>

text \<open>C38: The RC4 state is a permutation of the 256 byte values after the key schedule, for every key, and stays
  one under every number of bytes encrypted; the two indices stay below 256. So no access to the state array leaves
  it.\<close>

theorem arc4_state_permutation:
  assumes "arcfour_init key key_len = Some c"
  shows "arc4_ok c \<and> arc4_ok (snd (arcfour_encrypt c s))"
  using arcfour_init_ok [OF assms] arcfour_encrypt_ok by blast

theorem arc4_state_permutation_witness:
  "\<exists>c. arcfour_init [1, 2, 3] 3 = Some c \<and> arc4_ok (snd (arcfour_encrypt c [7, 8]))"
proof -
  obtain c where c: "arcfour_init [1, 2, 3] 3 = Some c" using arcfour_init_Some [of 3 "[1, 2, 3]"] by auto
  then show ?thesis using arc4_state_permutation [OF c, of "[7, 8]"] by blast
qed

text \<open>C19: \<open>getcrc32\<close>, with the table \<open>crc32_init\<close> builds by reversing bytes, computes the CRC-32 defined
  bit by bit with the reflected polynomial, for every input; \<open>rtw_calc_crc32\<close> computes the same.\<close>

theorem getcrc32_bitwise: "getcrc32 b = crc32_ref b \<and> rtw_calc_crc32 b = crc32_ref b"
  by (simp add: getcrc32_ref [symmetric] getcrc32_def rtw_calc_crc32_def)


definition ex_sec :: security_priv where
  "ex_sec = \<lparr>dot11PrivacyKeyIndex = 0, dot11DefKey = [replicate 32 7], dot11DefKeylen = [5], dot118021XGrpKeyid = 1,
     dot118021XGrpKey = replicate 6 (replicate 32 9), dot118021XGrprxmickey = replicate 6 (replicate 32 11),
     binstallGrpkey = True, busetkipkey = True, bcheck_grpkey = False, hw_decrypted = False,
     last_mic_err_time = 0, btkip_countermeasure = False, btkip_countermeasure_time = 0\<rparr>"

definition ex_wep_tx :: xmit_frame where
  "ex_wep_tx = \<lparr>x_attrib = \<lparr>tx_encrypt = WEP40_T, tx_hdrlen = 24, tx_iv_len = 4, tx_icv_len = 4, nr_frags = 1,
     last_txcmdsz = 34, tx_ra = [2, 2, 2, 2, 2, 2], tx_ta = [4, 4, 4, 4, 4, 4], dot118021x_UncstKey = replicate 32 5\<rparr>,
     buf_addr = Some (4096, replicate 96 1), pkt_offset = 1\<rparr>"


end
