(* ===== verification/Sec_Tkip.thy ===== *)
theory Sec_Tkip
  imports Sec_Rc4
begin

text \<open>
  TKIP of \<^verbatim>\<open>core/rtw_security.c\<close>: the Michael message integrity code, the two-phase key mixing, the
  handlers that encrypt and decrypt frames, the check of the integrity code on receive
  (\<open>recvframe_chkmic\<close> of \<^verbatim>\<open>core/rtw_recv.c\<close>), and the countermeasures of
  \<^verbatim>\<open>os_dep/linux/recv_linux.c\<close>. The lemmas show that the byte-wise Michael is the block-wise one, that different
  packets get different keys, that frames survive the round trip and corrupted ones do not.
\<close>

section \<open>Michael\<close>

record mic_data =
  mic_K0 :: u32
  mic_K1 :: u32
  mic_L :: u32
  mic_R :: u32
  mic_M :: u32
  nBytesInM :: nat

definition ROL32 :: "u32 \<Rightarrow> nat \<Rightarrow> u32" where
  "ROL32 a n = push_bit n a OR (drop_bit (32 - n) a AND (push_bit n 1 - 1))"

definition ROR32 :: "u32 \<Rightarrow> nat \<Rightarrow> u32" where
  "ROR32 a n = ROL32 a (32 - n)"

definition secmicgetuint32 :: "bytes \<Rightarrow> nat \<Rightarrow> u32 option" where
  "secmicgetuint32 p i = do {
     b0 \<leftarrow> rd p i; b1 \<leftarrow> rd p (i + 1); b2 \<leftarrow> rd p (i + 2); b3 \<leftarrow> rd p (i + 3);
     Some (le32_word b0 b1 b2 b3) }"

definition secmicclear :: "mic_data \<Rightarrow> mic_data" where
  "secmicclear d = d\<lparr>mic_L := mic_K0 d, mic_R := mic_K1 d, nBytesInM := 0, mic_M := 0\<rparr>"

definition rtw_secmicsetkey :: "mic_data \<Rightarrow> bytes \<Rightarrow> mic_data option" where
  "rtw_secmicsetkey d key = do {
     k0 \<leftarrow> secmicgetuint32 key 0; k1 \<leftarrow> secmicgetuint32 key 4;
     Some (secmicclear (d\<lparr>mic_K0 := k0, mic_K1 := k1\<rparr>)) }"

definition rtw_secmicappendbyte :: "mic_data \<Rightarrow> u8 \<Rightarrow> mic_data" where
  "rtw_secmicappendbyte d b =
     (let m = mic_M d OR push_bit (8 * nBytesInM d) (ucast b);
          n = nBytesInM d + 1
      in if 4 \<le> n then
           (let l0 = mic_L d XOR m;
                r0 = mic_R d XOR ROL32 l0 17;
                l1 = l0 + r0;
                r1 = r0 XOR (drop_bit 8 (l1 AND 0xff00ff00) OR push_bit 8 (l1 AND 0x00ff00ff));
                l2 = l1 + r1;
                r2 = r1 XOR ROL32 l2 3;
                l3 = l2 + r2;
                r3 = r2 XOR ROR32 l3 2;
                l4 = l3 + r3
            in d\<lparr>mic_L := l4, mic_R := r3, mic_M := 0, nBytesInM := 0\<rparr>)
         else d\<lparr>mic_M := m, nBytesInM := n\<rparr>)"

definition rtw_secmicappend :: "mic_data \<Rightarrow> bytes \<Rightarrow> mic_data" where
  "rtw_secmicappend d s = foldl rtw_secmicappendbyte d s"

text \<open>The padding loop of \<open>rtw_secgetmic\<close>: zeroes until the word is processed.\<close>

function secgetmic_loop :: "mic_data \<Rightarrow> mic_data" where
  "secgetmic_loop d = (if nBytesInM d \<noteq> 0 then secgetmic_loop (rtw_secmicappendbyte d 0) else d)"
  by pat_completeness auto
termination
  by (relation "measure (\<lambda>d. if nBytesInM d = 0 then 0 else 5 - nBytesInM d + 1)")
    (auto simp: rtw_secmicappendbyte_def Let_def)

declare secgetmic_loop.simps [simp del]

definition rtw_secgetmic :: "mic_data \<Rightarrow> bytes \<times> mic_data" where
  "rtw_secgetmic d =
     (let d1 = secgetmic_loop (foldl rtw_secmicappendbyte d [0x5a, 0, 0, 0, 0])
      in (le32_bytes (mic_L d1) @ le32_bytes (mic_R d1), secmicclear d1))"

text \<open>\<open>rtw_seccalctkipmic\<close>: the pseudo header (destination, source, priority), then the data. The
  addresses are taken from the header by the ToDS and FromDS bits.\<close>

definition rtw_seccalctkipmic :: "bytes \<Rightarrow> bytes \<Rightarrow> bytes \<Rightarrow> u8 \<Rightarrow> bytes option" where
  "rtw_seccalctkipmic key header data pri = do {
     d0 \<leftarrow> rtw_secmicsetkey \<lparr>mic_K0 = 0, mic_K1 = 0, mic_L = 0, mic_R = 0, mic_M = 0, nBytesInM = 0\<rparr> key;
     h1 \<leftarrow> rd header 1;
     da \<leftarrow> rd_slice header (if h1 AND 1 \<noteq> 0 then 16 else 4) 6;
     sa \<leftarrow> rd_slice header (if h1 AND 2 \<noteq> 0 then (if h1 AND 1 \<noteq> 0 then 24 else 16) else 10) 6;
     let d1 = rtw_secmicappend (rtw_secmicappend d0 da) sa;
     let d2 = rtw_secmicappend d1 [pri, 0, 0, 0];
     Some (fst (rtw_secgetmic (rtw_secmicappend d2 data))) }"

section \<open>Key mixing\<close>

definition RotR1 :: "u16 \<Rightarrow> u16" where
  "RotR1 v = (drop_bit 1 v AND 0x7FFF) XOR push_bit 15 (v AND 1)"

definition Mk16 :: "u8 \<Rightarrow> u8 \<Rightarrow> u16" where
  "Mk16 hi lo = ucast lo XOR push_bit 8 (ucast hi)"

text \<open>The sixteen-bit words of the sixteen-byte temporal key.\<close>

definition TK16 :: "bytes \<Rightarrow> nat \<Rightarrow> u16" where
  "TK16 tk n = Mk16 (tk ! (2 * n + 1)) (tk ! (2 * n))"

definition Sbox1_0 :: "u16 list" where
  "Sbox1_0 =
    [0xC6A5, 0xF884, 0xEE99, 0xF68D, 0xFF0D, 0xD6BD, 0xDEB1, 0x9154, 0x6050, 0x0203, 0xCEA9, 0x567D, 0xE719, 0xB562,
     0x4DE6, 0xEC9A, 0x8F45, 0x1F9D, 0x8940, 0xFA87, 0xEF15, 0xB2EB, 0x8EC9, 0xFB0B, 0x41EC, 0xB367, 0x5FFD, 0x45EA,
     0x23BF, 0x53F7, 0xE496, 0x9B5B, 0x75C2, 0xE11C, 0x3DAE, 0x4C6A, 0x6C5A, 0x7E41, 0xF502, 0x834F, 0x685C, 0x51F4,
     0xD134, 0xF908, 0xE293, 0xAB73, 0x6253, 0x2A3F, 0x080C, 0x9552, 0x4665, 0x9D5E, 0x3028, 0x37A1, 0x0A0F, 0x2FB5,
     0x0E09, 0x2436, 0x1B9B, 0xDF3D, 0xCD26, 0x4E69, 0x7FCD, 0xEA9F, 0x121B, 0x1D9E, 0x5874, 0x342E, 0x362D, 0xDCB2,
     0xB4EE, 0x5BFB, 0xA4F6, 0x764D, 0xB761, 0x7DCE, 0x527B, 0xDD3E, 0x5E71, 0x1397, 0xA6F5, 0xB968, 0x0000, 0xC12C,
     0x4060, 0xE31F, 0x79C8, 0xB6ED, 0xD4BE, 0x8D46, 0x67D9, 0x724B, 0x94DE, 0x98D4, 0xB0E8, 0x854A, 0xBB6B, 0xC52A,
     0x4FE5, 0xED16, 0x86C5, 0x9AD7, 0x6655, 0x1194, 0x8ACF, 0xE910, 0x0406, 0xFE81, 0xA0F0, 0x7844, 0x25BA, 0x4BE3,
     0xA2F3, 0x5DFE, 0x80C0, 0x058A, 0x3FAD, 0x21BC, 0x7048, 0xF104, 0x63DF, 0x77C1, 0xAF75, 0x4263, 0x2030, 0xE51A,
     0xFD0E, 0xBF6D, 0x814C, 0x1814, 0x2635, 0xC32F, 0xBEE1, 0x35A2, 0x88CC, 0x2E39, 0x9357, 0x55F2, 0xFC82, 0x7A47,
     0xC8AC, 0xBAE7, 0x322B, 0xE695, 0xC0A0, 0x1998, 0x9ED1, 0xA37F, 0x4466, 0x547E, 0x3BAB, 0x0B83, 0x8CCA, 0xC729,
     0x6BD3, 0x283C, 0xA779, 0xBCE2, 0x161D, 0xAD76, 0xDB3B, 0x6456, 0x744E, 0x141E, 0x92DB, 0x0C0A, 0x486C, 0xB8E4,
     0x9F5D, 0xBD6E, 0x43EF, 0xC4A6, 0x39A8, 0x31A4, 0xD337, 0xF28B, 0xD532, 0x8B43, 0x6E59, 0xDAB7, 0x018C, 0xB164,
     0x9CD2, 0x49E0, 0xD8B4, 0xACFA, 0xF307, 0xCF25, 0xCAAF, 0xF48E, 0x47E9, 0x1018, 0x6FD5, 0xF088, 0x4A6F, 0x5C72,
     0x3824, 0x57F1, 0x73C7, 0x9751, 0xCB23, 0xA17C, 0xE89C, 0x3E21, 0x96DD, 0x61DC, 0x0D86, 0x0F85, 0xE090, 0x7C42,
     0x71C4, 0xCCAA, 0x90D8, 0x0605, 0xF701, 0x1C12, 0xC2A3, 0x6A5F, 0xAEF9, 0x69D0, 0x1791, 0x9958, 0x3A27, 0x27B9,
     0xD938, 0xEB13, 0x2BB3, 0x2233, 0xD2BB, 0xA970, 0x0789, 0x33A7, 0x2DB6, 0x3C22, 0x1592, 0xC920, 0x8749, 0xAAFF,
     0x5078, 0xA57A, 0x038F, 0x59F8, 0x0980, 0x1A17, 0x65DA, 0xD731, 0x84C6, 0xD0B8, 0x82C3, 0x29B0, 0x5A77, 0x1E11,
     0x7BCB, 0xA8FC, 0x6DD6, 0x2C3A]"

definition Sbox1_1 :: "u16 list" where
  "Sbox1_1 =
    [0xA5C6, 0x84F8, 0x99EE, 0x8DF6, 0x0DFF, 0xBDD6, 0xB1DE, 0x5491, 0x5060, 0x0302, 0xA9CE, 0x7D56, 0x19E7, 0x62B5,
     0xE64D, 0x9AEC, 0x458F, 0x9D1F, 0x4089, 0x87FA, 0x15EF, 0xEBB2, 0xC98E, 0x0BFB, 0xEC41, 0x67B3, 0xFD5F, 0xEA45,
     0xBF23, 0xF753, 0x96E4, 0x5B9B, 0xC275, 0x1CE1, 0xAE3D, 0x6A4C, 0x5A6C, 0x417E, 0x02F5, 0x4F83, 0x5C68, 0xF451,
     0x34D1, 0x08F9, 0x93E2, 0x73AB, 0x5362, 0x3F2A, 0x0C08, 0x5295, 0x6546, 0x5E9D, 0x2830, 0xA137, 0x0F0A, 0xB52F,
     0x090E, 0x3624, 0x9B1B, 0x3DDF, 0x26CD, 0x694E, 0xCD7F, 0x9FEA, 0x1B12, 0x9E1D, 0x7458, 0x2E34, 0x2D36, 0xB2DC,
     0xEEB4, 0xFB5B, 0xF6A4, 0x4D76, 0x61B7, 0xCE7D, 0x7B52, 0x3EDD, 0x715E, 0x9713, 0xF5A6, 0x68B9, 0x0000, 0x2CC1,
     0x6040, 0x1FE3, 0xC879, 0xEDB6, 0xBED4, 0x468D, 0xD967, 0x4B72, 0xDE94, 0xD498, 0xE8B0, 0x4A85, 0x6BBB, 0x2AC5,
     0xE54F, 0x16ED, 0xC586, 0xD79A, 0x5566, 0x9411, 0xCF8A, 0x10E9, 0x0604, 0x81FE, 0xF0A0, 0x4478, 0xBA25, 0xE34B,
     0xF3A2, 0xFE5D, 0xC080, 0x8A05, 0xAD3F, 0xBC21, 0x4870, 0x04F1, 0xDF63, 0xC177, 0x75AF, 0x6342, 0x3020, 0x1AE5,
     0x0EFD, 0x6DBF, 0x4C81, 0x1418, 0x3526, 0x2FC3, 0xE1BE, 0xA235, 0xCC88, 0x392E, 0x5793, 0xF255, 0x82FC, 0x477A,
     0xACC8, 0xE7BA, 0x2B32, 0x95E6, 0xA0C0, 0x9819, 0xD19E, 0x7FA3, 0x6644, 0x7E54, 0xAB3B, 0x830B, 0xCA8C, 0x29C7,
     0xD36B, 0x3C28, 0x79A7, 0xE2BC, 0x1D16, 0x76AD, 0x3BDB, 0x5664, 0x4E74, 0x1E14, 0xDB92, 0x0A0C, 0x6C48, 0xE4B8,
     0x5D9F, 0x6EBD, 0xEF43, 0xA6C4, 0xA839, 0xA431, 0x37D3, 0x8BF2, 0x32D5, 0x438B, 0x596E, 0xB7DA, 0x8C01, 0x64B1,
     0xD29C, 0xE049, 0xB4D8, 0xFAAC, 0x07F3, 0x25CF, 0xAFCA, 0x8EF4, 0xE947, 0x1810, 0xD56F, 0x88F0, 0x6F4A, 0x725C,
     0x2438, 0xF157, 0xC773, 0x5197, 0x23CB, 0x7CA1, 0x9CE8, 0x213E, 0xDD96, 0xDC61, 0x860D, 0x850F, 0x90E0, 0x427C,
     0xC471, 0xAACC, 0xD890, 0x0506, 0x01F7, 0x121C, 0xA3C2, 0x5F6A, 0xF9AE, 0xD069, 0x9117, 0x5899, 0x273A, 0xB927,
     0x38D9, 0x13EB, 0xB32B, 0x3322, 0xBBD2, 0x70A9, 0x8907, 0xA733, 0xB62D, 0x223C, 0x9215, 0x20C9, 0x4987, 0xFFAA,
     0x7850, 0x7AA5, 0x8F03, 0xF859, 0x8009, 0x171A, 0xDA65, 0x31D7, 0xC684, 0xB8D0, 0xC382, 0xB029, 0x775A, 0x111E,
     0xCB7B, 0xFCA8, 0xD66D, 0x3A2C]"

definition S_box :: "u16 \<Rightarrow> u16" where
  "S_box v = Sbox1_0 ! unat (v AND 0xff) XOR Sbox1_1 ! unat (drop_bit 8 v)"

type_synonym p1k = "u16 \<times> u16 \<times> u16 \<times> u16 \<times> u16"

text \<open>One pass of the loop of \<open>phase1\<close>.\<close>

definition phase1_round :: "bytes \<Rightarrow> nat \<Rightarrow> p1k \<Rightarrow> p1k" where
  "phase1_round tk i p =
     (let (p0, p1, p2, p3, p4) = p;
          j = i mod 2;
          q0 = p0 + S_box (p4 XOR TK16 tk (j + 0));
          q1 = p1 + S_box (q0 XOR TK16 tk (j + 2));
          q2 = p2 + S_box (q1 XOR TK16 tk (j + 4));
          q3 = p3 + S_box (q2 XOR TK16 tk (j + 6));
          q4 = p4 + S_box (q3 XOR TK16 tk (j + 0)) + of_nat i
      in (q0, q1, q2, q3, q4))"

definition phase1_start :: "bytes \<Rightarrow> u32 \<Rightarrow> p1k" where
  "phase1_start a iv32 =
     (ucast iv32, ucast (drop_bit 16 iv32), Mk16 (a ! 1) (a ! 0), Mk16 (a ! 3) (a ! 2), Mk16 (a ! 5) (a ! 4))"

definition phase1 :: "bytes \<Rightarrow> bytes \<Rightarrow> u32 \<Rightarrow> p1k" where
  "phase1 tk a iv32 = foldl (\<lambda>p i. phase1_round tk i p) (phase1_start a iv32) [0, 1, 2, 3, 4, 5, 6, 7]"

text \<open>The six words \<open>PPK\<close> of \<open>phase2\<close>.\<close>

definition phase2_ppk :: "bytes \<Rightarrow> p1k \<Rightarrow> u16 \<Rightarrow> u16 \<times> u16 \<times> u16 \<times> u16 \<times> u16 \<times> u16" where
  "phase2_ppk tk p iv16 =
     (let (p0, p1, p2, p3, p4) = p;
          p5 = p4 + iv16;
          q0 = p0 + S_box (p5 XOR TK16 tk 0);
          q1 = p1 + S_box (q0 XOR TK16 tk 1);
          q2 = p2 + S_box (q1 XOR TK16 tk 2);
          q3 = p3 + S_box (q2 XOR TK16 tk 3);
          q4 = p4 + S_box (q3 XOR TK16 tk 4);
          q5 = p5 + S_box (q4 XOR TK16 tk 5);
          r0 = q0 + RotR1 (q5 XOR TK16 tk 6);
          r1 = q1 + RotR1 (r0 XOR TK16 tk 7);
          r2 = q2 + RotR1 r1;
          r3 = q3 + RotR1 r2;
          r4 = q4 + RotR1 r3;
          r5 = q5 + RotR1 r4
      in (r0, r1, r2, r3, r4, r5))"

definition Lo8 :: "u16 \<Rightarrow> u8" where "Lo8 v = ucast (v AND 0xff)"
definition Hi8 :: "u16 \<Rightarrow> u8" where "Hi8 v = ucast (drop_bit 8 v)"

definition phase2 :: "bytes \<Rightarrow> p1k \<Rightarrow> u16 \<Rightarrow> bytes" where
  "phase2 tk p iv16 =
     (let (r0, r1, r2, r3, r4, r5) = phase2_ppk tk p iv16
      in [Hi8 iv16, (Hi8 iv16 OR 0x20) AND 0x7F, Lo8 iv16, Lo8 (drop_bit 1 (r5 XOR TK16 tk 0)),
          Lo8 r0, Hi8 r0, Lo8 r1, Hi8 r1, Lo8 r2, Hi8 r2, Lo8 r3, Hi8 r3, Lo8 r4, Hi8 r4, Lo8 r5, Hi8 r5])"

section \<open>Packet numbers\<close>

text \<open>The byte \<open>TSCi\<close> of the union \<open>pn48\<close>, and the initialisation vectors the transmit path writes; each
  macro first advances the number.\<close>

definition TSC :: "u64 \<Rightarrow> nat \<Rightarrow> u8" where
  "TSC v i = ucast (drop_bit (8 * i) v)"

definition WEP_IV :: "u64 \<Rightarrow> u8 \<Rightarrow> bytes \<times> u64" where
  "WEP_IV pn keyidx =
     (let v = (if pn = 0xffffff then 0 else pn + 1)
      in ([TSC v 0, TSC v 1, TSC v 2, push_bit 6 (keyidx AND 3)], v))"

definition TKIP_IV :: "u64 \<Rightarrow> u8 \<Rightarrow> bytes \<times> u64" where
  "TKIP_IV pn keyidx =
     (let v = (if pn = 0xffffffffffff then 0 else pn + 1)
      in ([TSC v 1, (TSC v 1 OR 0x20) AND 0x7f, TSC v 0, 0x20 OR push_bit 6 (keyidx AND 3),
           TSC v 2, TSC v 3, TSC v 4, TSC v 5], v))"

definition AES_IV :: "u64 \<Rightarrow> u8 \<Rightarrow> bytes \<times> u64" where
  "AES_IV pn keyidx =
     (let v = (if pn = 0xffffffffffff then 0 else pn + 1)
      in ([TSC v 0, TSC v 1, 0, 0x20 OR push_bit 6 (keyidx AND 3), TSC v 2, TSC v 3, TSC v 4, TSC v 5], v))"

text \<open>\<open>GET_TKIP_PN\<close> and the split into \<open>pnl\<close> (16 bits) and \<open>pnh\<close> (32 bits); the two bytes the macro leaves
  unset are cut off by the split.\<close>

definition GET_TKIP_PN :: "bytes \<Rightarrow> u16 \<times> u32" where
  "GET_TKIP_PN iv = (Mk16 (iv ! 0) (iv ! 2), le32_word (iv ! 4) (iv ! 5) (iv ! 6) (iv ! 7))"

section \<open>Frames\<close>

text \<open>The RC4 key of a packet, from the temporal key, the transmitter address and the initialisation
  vector.\<close>

definition tkip_rc4key :: "bytes \<Rightarrow> bytes \<Rightarrow> bytes \<Rightarrow> bytes option" where
  "tkip_rc4key prwskey a iv = do {
     tk \<leftarrow> rd_slice prwskey 0 16;
     a6 \<leftarrow> rd_slice a 0 6;
     let (pnl, pnh) = GET_TKIP_PN iv;
     Some (phase2 tk (phase1 tk a6 pnh) pnl) }"

fun tkip_encrypt_loop ::
  "bytes \<Rightarrow> pkt_attrib \<Rightarrow> nat \<Rightarrow> nat \<Rightarrow> nat \<Rightarrow> nat \<Rightarrow> bytes \<Rightarrow> bytes option" where
  "tkip_encrypt_loop prwskey a frag_len addr 0 pframe b = Some b"
| "tkip_encrypt_loop prwskey a frag_len addr (Suc n) pframe b = do {
     iv \<leftarrow> rd_slice b (pframe + unat (tx_hdrlen a)) 8;
     rc4key \<leftarrow> tkip_rc4key prwskey (tx_ta a) iv;
     let payload = pframe + unat (tx_iv_len a) + unat (tx_hdrlen a);
     b' \<leftarrow> rc4_encrypt_frag rc4key 16 b payload
            (frag_data_len a (if n = 0 then last_txcmdsz a else frag_len));
     tkip_encrypt_loop prwskey a frag_len addr n (RND4 (addr + pframe + frag_len) - addr) b' }"

text \<open>The result is \<^const>\<open>Inl\<close> for \<open>_FAIL\<close>; leaving a buffer is \<^const>\<open>None\<close>.\<close>

definition rtw_tkip_encrypt :: "security_priv \<Rightarrow> nat \<Rightarrow> xmit_frame \<Rightarrow> (unit + xmit_frame) option" where
  "rtw_tkip_encrypt sec frag_len xf =
     (let a = x_attrib xf
      in case buf_addr xf of
           None \<Rightarrow> Some (Inl ())
         | Some (addr, b) \<Rightarrow>
             if tx_encrypt a = TKIP_T then do {
               prwskey \<leftarrow> (if IS_MCAST (tx_ra a) then arr (dot118021XGrpKey sec) (dot118021XGrpKeyid sec)
                           else Some (dot118021x_UncstKey a));
               b' \<leftarrow> tkip_encrypt_loop prwskey a frag_len addr (unat (nr_frags a)) (hw_hdr_offset xf) b;
               Some (Inr (xf\<lparr>buf_addr := Some (addr, b')\<rparr>)) }
             else Some (Inr xf))"

text \<open>The keys of the station \<open>rtw_get_stainfo\<close> finds for the transmitter address.\<close>

record sta_keys =
  sta_UncstKey :: bytes
  sta_tkiprxmickey :: bytes

text \<open>\<open>rtw_tkip_decrypt\<close>: the result (\<open>_SUCCESS\<close> or not) and the frame. The four bytes compared end at
  \<open>payload + length\<close>; the frame stays decrypted when they differ. The counters of frames without a group key are
  only printed.\<close>

definition rtw_tkip_decrypt :: "security_priv \<Rightarrow> sta_keys option \<Rightarrow> recv_frame \<Rightarrow> (bool \<times> recv_frame) option" where
  "rtw_tkip_decrypt sec stainfo f =
     (if encrypt (attrib f) = TKIP_T then
        case stainfo of
          None \<Rightarrow> Some (False, f)
        | Some sta \<Rightarrow>
            if IS_MCAST (ra (attrib f)) \<and> \<not> binstallGrpkey sec then Some (False, f)
            else do {
              prwskey \<leftarrow> (if IS_MCAST (ra (attrib f)) then arr (dot118021XGrpKey sec) (unat (key_index (attrib f)))
                          else Some (sta_UncstKey sta));
              iv \<leftarrow> rd_slice (buf f) (rx_data f + unat (hdrlen (attrib f))) 8;
              rc4key \<leftarrow> tkip_rc4key prwskey (ta (attrib f)) iv;
              f' \<leftarrow> rc4_decrypt rc4key 16 f;
              if rx_payload f + rx_payload_len f < 4 then None
              else do {
                data \<leftarrow> rd_slice (buf f') (rx_payload f) (rx_payload_len f - 4);
                icv \<leftarrow> rd_slice (buf f') (rx_payload f + rx_payload_len f - 4) 4;
                Some (le32_bytes (getcrc32 data) = icv, f') } }
      else Some (True, f))"

section \<open>The integrity code on receive and the countermeasures\<close>

text \<open>\<open>rtw_handle_tkip_mic_err\<close>: the second failure within 60 seconds starts the countermeasures. Times
  are in milliseconds, 0 is no failure yet; the reports to user space are not part of the state.\<close>

definition rtw_handle_tkip_mic_err :: "nat \<Rightarrow> security_priv \<Rightarrow> security_priv" where
  "rtw_handle_tkip_mic_err now s =
     (if last_mic_err_time s = 0 then s\<lparr>last_mic_err_time := now\<rparr>
      else if now - last_mic_err_time s < 60000 then
        s\<lparr>btkip_countermeasure := True, last_mic_err_time := 0, btkip_countermeasure_time := now\<rparr>
      else s\<lparr>last_mic_err_time := now\<rparr>)"

definition rtw_handle_tkip_countermeasure :: "nat \<Rightarrow> security_priv \<Rightarrow> bool \<times> security_priv" where
  "rtw_handle_tkip_countermeasure now s =
     (if btkip_countermeasure s then
        (if 60000 < now - btkip_countermeasure_time s
         then (True, s\<lparr>btkip_countermeasure := False, btkip_countermeasure_time := 0\<rparr>)
         else (False, s))
      else (True, s))"

text \<open>\<open>recvframe_chkmic\<close> for a station that was found or not; \<open>mlme_key_index\<close> is \<open>pmlmeinfo->key_index\<close>.
  The length of the data is computed in unsigned arithmetic.\<close>

definition recvframe_chkmic ::
  "nat \<Rightarrow> u8 \<Rightarrow> security_priv \<Rightarrow> sta_keys option \<Rightarrow> recv_frame \<Rightarrow> (bool \<times> recv_frame \<times> security_priv) option" where
  "recvframe_chkmic now mlme_key_index sec stainfo f =
     (let a = attrib f; mcast = IS_MCAST (ra a)
      in if encrypt a \<noteq> TKIP_T then Some (True, f, sec)
         else
           case stainfo of
             None \<Rightarrow> Some (True, snd (recvframe_pull_tail f 8), sec)
           | Some sta \<Rightarrow>
               if mcast \<and> \<not> binstallGrpkey sec then Some (False, f, sec)
               else do {
                 mickey \<leftarrow> (if mcast then arr (dot118021XGrprxmickey sec) (unat (key_index a))
                            else Some (sta_tkiprxmickey sta));
                 let datalen = uint_sub (uint_sub (rx_payload_len f) (unat (icv_len a))) 8;
                 let payload = rx_payload f;
                 header \<leftarrow> rd_slice (buf f) (rx_data f) (length (buf f) - rx_data f);
                 data \<leftarrow> rd_slice (buf f) payload datalen;
                 miccode \<leftarrow> rtw_seccalctkipmic mickey header data (priority a);
                 framemic \<leftarrow> rd_slice (buf f) (payload + datalen) 8;
                 let err = (miccode \<noteq> framemic);
                 let rpt = (\<not> (mcast \<and> key_index a \<noteq> mlme_key_index));
                 let sec' = (if err \<and> bdecrypted a \<and> rpt then rtw_handle_tkip_mic_err now sec
                             else if \<not> err \<and> \<not> bcheck_grpkey sec \<and> mcast then sec\<lparr>bcheck_grpkey := True\<rparr>
                             else sec);
                 Some (\<not> err, snd (recvframe_pull_tail f 8), sec') })"

section \<open>Michael block by block\<close>

text \<open>The reference: the message padded with \<open>0x5a\<close> and zeroes to whole words, one block function per
  word.\<close>

definition michael_block :: "u32 \<times> u32 \<Rightarrow> u32 \<Rightarrow> u32 \<times> u32" where
  "michael_block s m =
     (let (l, r) = s;
          l0 = l XOR m; r0 = r XOR ROL32 l0 17;
          l1 = l0 + r0; r1 = r0 XOR (drop_bit 8 (l1 AND 0xff00ff00) OR push_bit 8 (l1 AND 0x00ff00ff));
          l2 = l1 + r1; r2 = r1 XOR ROL32 l2 3;
          l3 = l2 + r2; r3 = r2 XOR ROR32 l3 2
      in (l3 + r3, r3))"

fun michael_blocks :: "u32 \<times> u32 \<Rightarrow> bytes \<Rightarrow> u32 \<times> u32" where
  "michael_blocks s (b0 # b1 # b2 # b3 # bs) = michael_blocks (michael_block s (le32_word b0 b1 b2 b3)) bs"
| "michael_blocks s _ = s"

definition michael_pad :: "bytes \<Rightarrow> bytes" where
  "michael_pad m = m @ 0x5a # replicate (4 + (3 - length m mod 4)) 0"

definition michael :: "u32 \<times> u32 \<Rightarrow> bytes \<Rightarrow> bytes" where
  "michael k m = (let (l, r) = michael_blocks k (michael_pad m) in le32_bytes l @ le32_bytes r)"

lemma append_four:
  assumes "nBytesInM d = 0" and "mic_M d = 0"
  shows "foldl rtw_secmicappendbyte d [b0, b1, b2, b3] =
           (let (l, r) = michael_block (mic_L d, mic_R d) (le32_word b0 b1 b2 b3) in d\<lparr>mic_L := l, mic_R := r\<rparr>)"
  using assms
  by (simp add: rtw_secmicappendbyte_def michael_block_def Let_def le32_word_def or.assoc)

text \<open>Whole words appended to an empty accumulator.\<close>

lemma append_words:
  assumes "nBytesInM d = 0" and "mic_M d = 0" and "length s mod 4 = 0"
  shows "rtw_secmicappend d s =
           (let (l, r) = michael_blocks (mic_L d, mic_R d) s in d\<lparr>mic_L := l, mic_R := r\<rparr>)"
  using assms
proof (induction "(mic_L d, mic_R d)" s arbitrary: d rule: michael_blocks.induct)
  case (1 b0 b1 b2 b3 bs)
  obtain l r where lr: "michael_block (mic_L d, mic_R d) (le32_word b0 b1 b2 b3) = (l, r)" by fastforce
  let ?d = "d\<lparr>mic_L := l, mic_R := r\<rparr>"
  have "rtw_secmicappend d (b0 # b1 # b2 # b3 # bs) = rtw_secmicappend ?d bs"
    using append_four [OF "1.prems"(1,2), of b0 b1 b2 b3] lr by (simp add: rtw_secmicappend_def)
  also have "\<dots> = (let (l', r') = michael_blocks (l, r) bs in ?d\<lparr>mic_L := l', mic_R := r'\<rparr>)"
    using 1(1) [of ?d] lr "1.prems" by (simp add: rtw_secmicappend_def)
  finally show ?case by (simp add: lr split_beta Let_def)
qed (auto simp: rtw_secmicappend_def)

lemma appendbyte_n: "nBytesInM (rtw_secmicappendbyte d b) = (if 3 \<le> nBytesInM d then 0 else nBytesInM d + 1)"
  by (simp add: rtw_secmicappendbyte_def Let_def)

lemma append_n: "nBytesInM d < 4 \<Longrightarrow> nBytesInM (rtw_secmicappend d s) = (nBytesInM d + length s) mod 4"
proof (induction s arbitrary: d)
  case (Cons b s)
  then show ?case
    by (cases "nBytesInM d = 3") (auto simp: rtw_secmicappend_def appendbyte_n)
qed (simp add: rtw_secmicappend_def)

text \<open>The padding loop appends the zeroes that are missing.\<close>

lemma secgetmic_loop_zeros:
  "nBytesInM d < 4 \<Longrightarrow> secgetmic_loop d = rtw_secmicappend d (replicate ((4 - nBytesInM d) mod 4) 0)"
proof (induction d rule: secgetmic_loop.induct)
  case (1 d)
  show ?case
  proof (cases "nBytesInM d = 0")
    case True
    then show ?thesis by (subst secgetmic_loop.simps) (simp add: rtw_secmicappend_def)
  next
    case False
    let ?d = "rtw_secmicappendbyte d 0"
    have n: "nBytesInM ?d = (if nBytesInM d = 3 then 0 else nBytesInM d + 1)" using 1(2) by (simp add: appendbyte_n)
    have "secgetmic_loop d = secgetmic_loop ?d" using False by (subst secgetmic_loop.simps) simp
    also have "\<dots> = rtw_secmicappend ?d (replicate ((4 - nBytesInM ?d) mod 4) 0)"
      using 1(1) [OF False] 1(2) n by (simp split: if_splits)
    also have "\<dots> = rtw_secmicappend d (replicate (Suc ((4 - nBytesInM ?d) mod 4)) 0)"
      by (simp add: rtw_secmicappend_def)
    also have "Suc ((4 - nBytesInM ?d) mod 4) = (4 - nBytesInM d) mod 4"
    proof -
      consider "nBytesInM d = 1" | "nBytesInM d = 2" | "nBytesInM d = 3" using False 1(2) by linarith
      then show ?thesis by cases (simp_all add: n)
    qed
    finally show ?thesis .
  qed
qed

lemma pad_mod: "length (michael_pad m) mod 4 = 0"
  by (simp add: michael_pad_def) presburger

lemma rtw_secgetmic_eq:
  assumes "nBytesInM d = 0" and "mic_M d = 0"
  shows "fst (rtw_secgetmic (rtw_secmicappend d m)) = michael (mic_L d, mic_R d) m"
proof -
  let ?d1 = "rtw_secmicappend d (m @ [0x5a, 0, 0, 0, 0])"
  have n1: "nBytesInM ?d1 = (length m + 5) mod 4" using append_n [of d "m @ [0x5a, 0, 0, 0, 0]"] assms(1) by (simp add: add.commute)
  have "secgetmic_loop ?d1 = rtw_secmicappend ?d1 (replicate ((4 - nBytesInM ?d1) mod 4) 0)"
    by (rule secgetmic_loop_zeros) (simp add: n1)
  also have "\<dots> = rtw_secmicappend d ((m @ [0x5a, 0, 0, 0, 0]) @ replicate ((4 - nBytesInM ?d1) mod 4) 0)"
    by (simp add: rtw_secmicappend_def)
  also have "(m @ [0x5a, 0, 0, 0, 0]) @ replicate ((4 - nBytesInM ?d1) mod 4) 0 = michael_pad m"
  proof -
    have "(4 - (length m + 5) mod 4) mod 4 = 3 - length m mod 4"
    proof -
      have e: "(length m + 5) mod 4 = (length m mod 4 + 5) mod 4" by (simp only: mod_add_left_eq)
      have "length m mod 4 < 4" by simp
      then consider "length m mod 4 = 0" | "length m mod 4 = 1" | "length m mod 4 = 2" | "length m mod 4 = 3"
        by linarith
      then show ?thesis unfolding e by cases (simp_all only:, simp_all)
    qed
    moreover have "replicate 4 (0 :: u8) = [0, 0, 0, 0]" by (simp add: eval_nat_numeral)
    ultimately show ?thesis by (simp only: n1 michael_pad_def replicate_add) simp
  qed
  finally have "secgetmic_loop ?d1 = (let (l, r) = michael_blocks (mic_L d, mic_R d) (michael_pad m)
      in d\<lparr>mic_L := l, mic_R := r\<rparr>)"
    using append_words [OF assms pad_mod] by simp
  then show ?thesis
    by (simp add: rtw_secgetmic_def michael_def rtw_secmicappend_def split_beta Let_def)
qed

section \<open>Different packets get different keys\<close>

text \<open>Each round of \<open>phase1\<close> and the mixing of \<open>phase2\<close> can be undone, whatever the S-box holds.\<close>

definition phase1_unround :: "bytes \<Rightarrow> nat \<Rightarrow> p1k \<Rightarrow> p1k" where
  "phase1_unround tk i q =
     (let (q0, q1, q2, q3, q4) = q;
          j = i mod 2;
          p4 = q4 - of_nat i - S_box (q3 XOR TK16 tk (j + 0));
          p3 = q3 - S_box (q2 XOR TK16 tk (j + 6));
          p2 = q2 - S_box (q1 XOR TK16 tk (j + 4));
          p1 = q1 - S_box (q0 XOR TK16 tk (j + 2));
          p0 = q0 - S_box (p4 XOR TK16 tk (j + 0))
      in (p0, p1, p2, p3, p4))"

lemma phase1_unround: "phase1_unround tk i (phase1_round tk i p) = p"
  by (cases p) (simp add: phase1_unround_def phase1_round_def Let_def)

lemma phase1_round_inj: "phase1_round tk i p = phase1_round tk i p' \<longleftrightarrow> p = p'"
  by (metis phase1_unround)

lemma foldl_round_inj:
  "foldl (\<lambda>p i. phase1_round tk i p) p is = foldl (\<lambda>p i. phase1_round tk i p) p' is \<longleftrightarrow> p = p'"
  by (induction "is" arbitrary: p p') (simp_all add: phase1_round_inj)

lemma Mk16_inject: "Mk16 a b = Mk16 c d \<longleftrightarrow> a = c \<and> b = d"
proof
  assume eq: "Mk16 a b = Mk16 c d"
  have lo: "ucast (Mk16 x y) = y" for x y
    by (rule bit_word_eqI) (auto simp: Mk16_def bit_simps dest: bit_imp_le_length)
  have hi: "ucast (drop_bit 8 (Mk16 x y)) = x" for x y
    by (rule bit_word_eqI) (auto simp: Mk16_def bit_simps dest: bit_imp_le_length)
  show "a = c \<and> b = d" using eq lo hi by metis
qed simp

lemma halves_inject:
  assumes "(ucast a :: u16) = ucast (b :: u32)" and "(ucast (drop_bit 16 a) :: u16) = ucast (drop_bit 16 b)"
  shows "a = b"
proof -
  have "x = ucast (ucast x :: u16) OR push_bit 16 (ucast (ucast (drop_bit 16 x) :: u16))" for x :: u32
    by (rule bit_word_eqI) (auto simp: bit_simps)
  then show ?thesis using assms by metis
qed

lemma list6_eq:
  assumes "length xs = 6" and "length ys = 6"
    and "xs ! 0 = ys ! 0" "xs ! 1 = ys ! 1" "xs ! 2 = ys ! 2" "xs ! 3 = ys ! 3" "xs ! 4 = ys ! 4" "xs ! 5 = ys ! 5"
  shows "xs = ys"
proof (rule nth_equalityI)
  fix i
  assume "i < length xs"
  then consider "i = 0" | "i = 1" | "i = 2" | "i = 3" | "i = 4" | "i = 5" using assms(1) by linarith
  then show "xs ! i = ys ! i" by cases (use assms in simp_all)
qed (use assms in simp)

lemma phase1_inj:
  assumes "phase1 tk a iv = phase1 tk a' iv'" and "length a = 6" and "length a' = 6"
  shows "a = a' \<and> iv = iv'"
proof -
  have "phase1_start a iv = phase1_start a' iv'" using assms(1) unfolding phase1_def foldl_round_inj .
  then have "iv = iv'" "a ! 0 = a' ! 0" "a ! 1 = a' ! 1" "a ! 2 = a' ! 2" "a ! 3 = a' ! 3" "a ! 4 = a' ! 4" "a ! 5 = a' ! 5"
    by (auto simp: phase1_start_def Mk16_inject intro: halves_inject)
  then show ?thesis using list6_eq [OF assms(2,3)] by blast
qed

lemma phase2_ppk_inj:
  assumes "phase2_ppk tk p v = phase2_ppk tk p' v'"
  shows "p = p' \<and> v = v'"
proof -
  obtain p0 p1 p2 p3 p4 where p: "p = (p0, p1, p2, p3, p4)" by (cases p)
  obtain p0' p1' p2' p3' p4' where p': "p' = (p0', p1', p2', p3', p4')" by (cases p')
  from assms show ?thesis
    unfolding p p' phase2_ppk_def Let_def prod.case by (elim Pair_inject) (simp only: add_right_cancel prod.inject, simp)
qed

lemma halves8_inject: "Lo8 a = Lo8 b \<Longrightarrow> Hi8 a = Hi8 b \<Longrightarrow> a = b"
proof -
  assume h: "Lo8 a = Lo8 b" "Hi8 a = Hi8 b"
  have "x = push_bit 8 (ucast (Hi8 x)) OR ucast (Lo8 x)" for x :: u16 by (simp add: Lo8_def Hi8_def)
  then show "a = b" using h by metis
qed

lemma phase2_inj:
  assumes "phase2 tk p v = phase2 tk p' v'"
  shows "p = p' \<and> v = v'"
proof -
  obtain r0 r1 r2 r3 r4 r5 where r: "phase2_ppk tk p v = (r0, r1, r2, r3, r4, r5)" by (metis prod_cases6)
  obtain s0 s1 s2 s3 s4 s5 where s: "phase2_ppk tk p' v' = (s0, s1, s2, s3, s4, s5)" by (metis prod_cases6)
  have "r0 = s0 \<and> r1 = s1 \<and> r2 = s2 \<and> r3 = s3 \<and> r4 = s4 \<and> r5 = s5"
    using assms by (simp add: phase2_def r s halves8_inject)
  then show ?thesis using r s phase2_ppk_inj by metis
qed

section \<open>TKIP frames\<close>

lemma tkip_rc4key_Some:
  assumes "16 \<le> length prwskey" and "6 \<le> length a"
  obtains k ctx where "tkip_rc4key prwskey a iv = Some k" and "arcfour_init k 16 = Some ctx"
proof -
  obtain pnl pnh where pn: "GET_TKIP_PN iv = (pnl, pnh)" by fastforce
  let ?k = "phase2 (take 16 prwskey) (phase1 (take 16 prwskey) (take 6 a) pnh) pnl"
  have "length ?k = 16" by (simp add: phase2_def split_beta Let_def)
  then obtain ctx where "arcfour_init ?k 16 = Some ctx" using arcfour_init_Some [of 16 ?k] by auto
  then show ?thesis using assms pn by (intro that) (auto simp: tkip_rc4key_def rd_slice_def)
qed

text \<open>The key \<open>rtw_tkip_decrypt\<close> takes for a frame.\<close>

definition tkip_rx_key :: "security_priv \<Rightarrow> sta_keys \<Rightarrow> recv_frame \<Rightarrow> bytes option" where
  "tkip_rx_key sec sta f =
     (if IS_MCAST (ra (attrib f)) then
        (if binstallGrpkey sec then arr (dot118021XGrpKey sec) (unat (key_index (attrib f))) else None)
      else Some (sta_UncstKey sta))"

text \<open>Decrypted data that ends with its own CRC.\<close>

definition icv_ok :: "bytes \<Rightarrow> bool" where
  "icv_ok d \<longleftrightarrow> le32_bytes (getcrc32 (take (length d - 4) d)) = drop (length d - 4) d"

lemma length_le32_bytes [simp]: "length (le32_bytes w) = 4"
  by (simp add: le32_bytes_def)

lemma icv_ok_append: "icv_ok (d @ le32_bytes (getcrc32 d))"
  by (simp add: icv_ok_def)

lemma rtw_tkip_decrypt_eq:
  assumes "frame_wf f" and "frame_data f = h @ c" and "length h = unat (iv_len (attrib f)) + unat (hdrlen (attrib f))"
    and "encrypt (attrib f) = TKIP_T" and "8 \<le> unat (iv_len (attrib f))" and "4 \<le> length c"
    and "tkip_rx_key sec sta f = Some key"
    and "tkip_rc4key key (ta (attrib f)) (take 8 (drop (unat (hdrlen (attrib f))) h)) = Some k"
    and "arcfour_init k 16 = Some ctx"
  obtains f' where "rtw_tkip_decrypt sec (Some sta) f = Some (icv_ok (fst (arcfour_encrypt ctx c)), f')"
    and "frame_wf f'" and "frame_data f' = h @ fst (arcfour_encrypt ctx c)"
proof -
  let ?hd = "unat (hdrlen (attrib f))" and ?d = "fst (arcfour_encrypt ctx c)"
  have l: "len f = length h + length c" using assms(1,2) by (metis length_append length_frame_data)
  have "rd_slice (buf f) (rx_data f + ?hd) 8 = Some (take 8 (drop ?hd (frame_data f)))"
    using frame_rd [OF assms(1), of ?hd 8] l assms(3,5) by simp
  then have iv: "rd_slice (buf f) (rx_data f + ?hd) 8 = Some (take 8 (drop ?hd h))"
    using assms(2,3,5) by simp
  from rc4_decrypt_frame [OF assms(1,2,9,3)] obtain f' where f': "rc4_decrypt k 16 f = Some f'" "frame_wf f'"
    "attrib f' = attrib f" "frame_data f' = h @ ?d" .
  have same: "rx_data f' = rx_data f" "len f' = len f"
    using f'(1) by (auto simp: rc4_decrypt_def split: bind_splits)
  have pl: "rx_payload_len f = length c" "rx_payload f = rx_data f' + length h"
    using l assms(3) same by (auto simp: rx_payload_len_def rx_payload_def)
  have dl: "length ?d = length c" by (rule arcfour_encrypt_length)
  have "rd_slice (buf f') (rx_data f' + length h) (length c - 4) = Some (take (length c - 4) ?d)"
    using frame_rd [OF f'(2), of "length h" "length c - 4"] l same f'(4) by simp
  moreover have "rd_slice (buf f') (rx_data f' + length h + length c - 4) 4 = Some (drop (length c - 4) ?d)"
    using frame_rd [OF f'(2), of "length h + (length c - 4)" 4] l same f'(4) assms(6) dl by (simp add: add.assoc)
  ultimately have "rtw_tkip_decrypt sec (Some sta) f = Some (icv_ok ?d, f')"
    using assms(4,6,7,8) iv f'(1) pl dl
    by (auto simp: rtw_tkip_decrypt_def tkip_rx_key_def icv_ok_def split: if_splits)
  then show ?thesis using that f'(2,4) by blast
qed

text \<open>One changed byte is always noticed.\<close>

lemma icv_ok_update:
  assumes "icv_ok d" and "4 \<le> length d" and "i < length d" and "v \<noteq> d ! i"
  shows "\<not> icv_ok (d[i := v])"
proof
  assume bad: "icv_ok (d[i := v])"
  let ?n = "length d - 4"
  have inj: "le32_bytes x = le32_bytes y \<Longrightarrow> x = y" for x y
  proof -
    assume "le32_bytes x = le32_bytes y"
    moreover have "w = le32_word (ucast w) (ucast (drop_bit 8 w)) (ucast (drop_bit 16 w)) (ucast (drop_bit 24 w))" for w
      by (rule bit_word_eqI) (auto simp: bit_le32_word bit_simps)
    ultimately show "x = y" unfolding le32_bytes_def by (metis list.inject)
  qed
  show False
  proof (cases "i < ?n")
    case True
    then have "take ?n (d[i := v]) = (take ?n d)[i := v]" "drop ?n (d[i := v]) = drop ?n d"
      by (simp_all add: take_update_swap drop_update_cancel)
    then have "getcrc32 ((take ?n d)[i := v]) = getcrc32 (take ?n d)"
      using assms(1) bad inj by (simp add: icv_ok_def)
    then show False using getcrc32_one_byte [of i "take ?n d" v] True assms(4) by simp
  next
    case False
    then have "take ?n (d[i := v]) = take ?n d" by simp
    then have "drop ?n (d[i := v]) = drop ?n d" using assms(1) bad by (simp add: icv_ok_def)
    then have "d[i := v] ! i = d ! i"
      using nth_drop [of ?n "d[i := v]" "i - ?n"] nth_drop [of ?n d "i - ?n"] False assms(3) by simp
    then show False using assms(3,4) by simp
  qed
qed

section \<open>Properties\<close>

lemma secmicgetuint32_in: "i + 4 \<le> length p \<Longrightarrow>
    secmicgetuint32 p i = Some (le32_word (p ! i) (p ! (i + 1)) (p ! (i + 2)) (p ! (i + 3)))"
  by (simp add: secmicgetuint32_def rd_def)

text \<open>The key words and the pseudo header of the Michael code for a frame header.\<close>

definition michael_key :: "bytes \<Rightarrow> u32 \<times> u32" where
  "michael_key key = (le32_word (key ! 0) (key ! 1) (key ! 2) (key ! 3), le32_word (key ! 4) (key ! 5) (key ! 6) (key ! 7))"

definition michael_da :: "bytes \<Rightarrow> bytes" where
  "michael_da header = take 6 (drop (if odd (header ! 1) then 16 else 4) header)"

definition michael_sa :: "bytes \<Rightarrow> bytes" where
  "michael_sa header =
     take 6 (drop (if bit (header ! 1) 1 then (if odd (header ! 1) then 24 else 16) else 10) header)"

lemma ds_bits: "(h :: u8) AND 1 \<noteq> 0 \<longleftrightarrow> odd h" "h AND 2 \<noteq> 0 \<longleftrightarrow> bit h 1"
proof -
  show "h AND 1 \<noteq> 0 \<longleftrightarrow> odd h" by (simp add: and_one_eq odd_iff_mod_2_eq_one)
  show "h AND 2 \<noteq> 0 \<longleftrightarrow> bit h 1" using and_exp_eq_0_iff_not_bit [of h 1] by simp
qed

text \<open>C17: \<open>rtw_seccalctkipmic\<close>, which feeds the message byte by byte through an accumulator and a padding loop,
  computes the Michael code defined on whole words of the padded message, over the pseudo header of destination, source
  and priority that the ToDS and FromDS bits select.\<close>

theorem rtw_seccalctkipmic_michael:
  assumes "8 \<le> length key" and "30 \<le> length header"
  shows "rtw_seccalctkipmic key header data pri =
           Some (michael (michael_key key) (michael_da header @ michael_sa header @ [pri, 0, 0, 0] @ data))"
proof -
  let ?d0 = "\<lparr>mic_K0 = fst (michael_key key), mic_K1 = snd (michael_key key), mic_L = fst (michael_key key),
      mic_R = snd (michael_key key), mic_M = 0, nBytesInM = 0\<rparr>"
  have k: "rtw_secmicsetkey \<lparr>mic_K0 = 0, mic_K1 = 0, mic_L = 0, mic_R = 0, mic_M = 0, nBytesInM = 0\<rparr> key = Some ?d0"
    using assms(1) by (simp add: rtw_secmicsetkey_def secmicgetuint32_in secmicclear_def michael_key_def numeral_2_eq_2)
  have app: "rtw_secmicappend (rtw_secmicappend (rtw_secmicappend (rtw_secmicappend d a) b) c) e = rtw_secmicappend d (a @ b @ c @ e)"
    for d a b c e by (simp add: rtw_secmicappend_def)
  have "rd header 1 = Some (header ! 1)" using assms(2) by (intro rd_in) simp
  moreover have "rd_slice header (if odd (header ! 1) then 16 else 4) 6 = Some (michael_da header)"
    "rd_slice header (if bit (header ! 1) 1 then (if odd (header ! 1) then 24 else 16) else 10) 6 = Some (michael_sa header)"
    using assms(2) by (auto simp: michael_da_def michael_sa_def rd_slice_def)
  ultimately show ?thesis
    using rtw_secgetmic_eq [of ?d0 "michael_da header @ michael_sa header @ [pri, 0, 0, 0] @ data"]
    by (simp only: rtw_seccalctkipmic_def k ds_bits app bind.bind_lunit Let_def) simp
qed

theorem rtw_seccalctkipmic_michael_witness:
  "rtw_seccalctkipmic (replicate 8 3) (replicate 30 1) [9, 8, 7] 5 =
     Some (michael (michael_key (replicate 8 3)) (michael_da (replicate 30 1) @ michael_sa (replicate 30 1) @ [5, 0, 0, 0] @ [9, 8, 7]))"
  by (rule rtw_seccalctkipmic_michael) simp_all

text \<open>C18: For a given temporal key the RC4 key of a packet determines the transmitter address and the whole
  48-bit sequence counter, as the comments of \<open>phase1\<close> and \<open>phase2\<close> promise: packets that differ in one of them never
  share an RC4 key.\<close>

theorem tkip_keys_unique:
  assumes "length a = 6" and "length a' = 6"
  shows "phase2 tk (phase1 tk a iv32) iv16 = phase2 tk (phase1 tk a' iv32') iv16' \<longleftrightarrow>
           a = a' \<and> iv32 = iv32' \<and> iv16 = iv16'"
  using phase2_inj [of tk "phase1 tk a iv32" iv16 "phase1 tk a' iv32'" iv16'] phase1_inj [OF _ assms] by blast

theorem tkip_keys_unique_witness:
  "\<forall>tk. phase2 tk (phase1 tk [2, 2, 2, 2, 2, 2] 5) 65535 \<noteq> phase2 tk (phase1 tk [2, 2, 2, 2, 2, 2] 6) 65535"
  using tkip_keys_unique [of "[2, 2, 2, 2, 2, 2]" "[2, 2, 2, 2, 2, 2]" _ 5 65535 6 65535] by simp

text \<open>The sequence counter written into the initialisation vector by \<open>TKIP_IV\<close> is the one \<open>GET_TKIP_PN\<close> reads
  back: the low 16 and the upper 32 of its 48 bits.\<close>

lemma tkip_iv_roundtrip:
  "GET_TKIP_PN (fst (TKIP_IV pn keyidx)) = (ucast (snd (TKIP_IV pn keyidx)), ucast (drop_bit 16 (snd (TKIP_IV pn keyidx))))"
proof -
  have "Mk16 (TSC v 1) (TSC v 0) = ucast v" for v
    by (rule bit_word_eqI) (auto simp: Mk16_def TSC_def bit_simps)
  moreover have "le32_word (TSC v 2) (TSC v 3) (TSC v 4) (TSC v 5) = ucast (drop_bit 16 v)" for v
    by (rule bit_word_eqI) (auto simp: bit_le32_word TSC_def bit_simps)
  ultimately show ?thesis by (simp add: GET_TKIP_PN_def TKIP_IV_def Let_def eval_nat_numeral)
qed

text \<open>A frame of one fragment \<open>rtw_tkip_encrypt\<close> can take.\<close>

definition tkip_tx_ok :: "security_priv \<Rightarrow> bytes \<Rightarrow> xmit_frame \<Rightarrow> bytes \<Rightarrow> bool" where
  "tkip_tx_ok sec key xf b \<longleftrightarrow>
     (let a = x_attrib xf
      in tx_encrypt a = TKIP_T \<and> nr_frags a = 1 \<and>
         (if IS_MCAST (tx_ra a) then arr (dot118021XGrpKey sec) (dot118021XGrpKeyid sec) = Some key
          else dot118021x_UncstKey a = key) \<and>
         16 \<le> length key \<and> 6 \<le> length (tx_ta a) \<and> tx_iv_len a = 8 \<and> tx_icv_len a = 4 \<and>
         unat (tx_hdrlen a) + 12 \<le> last_txcmdsz a \<and> hw_hdr_offset xf + last_txcmdsz a \<le> length b)"


definition ex_tkip_tx :: xmit_frame where
  "ex_tkip_tx = ex_wep_tx\<lparr>x_attrib := (x_attrib ex_wep_tx)\<lparr>tx_encrypt := TKIP_T, tx_iv_len := 8, last_txcmdsz := 38\<rparr>\<rparr>"


text \<open>C39: When \<open>rtw_tkip_decrypt\<close> accepts a frame, it refuses every frame that differs from it in one byte behind the
  initialisation vector, be it data or integrity value.\<close>

theorem tkip_corruption_detected:
  assumes "frame_wf f" and "frame_data f = h @ c" and "length h = unat (iv_len (attrib f)) + unat (hdrlen (attrib f))"
    and "encrypt (attrib f) = TKIP_T" and "8 \<le> unat (iv_len (attrib f))" and "4 \<le> length c"
    and "tkip_rx_key sec sta f = Some key" and "16 \<le> length key" and "6 \<le> length (ta (attrib f))"
    and "rtw_tkip_decrypt sec (Some sta) f = Some (True, f1)"
    and "frame_wf g" and "attrib g = attrib f" and "frame_data g = h @ c[i := v]" and "i < length c" and "v \<noteq> c ! i"
  shows "\<exists>g1. rtw_tkip_decrypt sec (Some sta) g = Some (False, g1)"
proof -
  let ?iv = "take 8 (drop (unat (hdrlen (attrib f))) h)"
  obtain k ctx where k: "tkip_rc4key key (ta (attrib f)) ?iv = Some k" "arcfour_init k 16 = Some ctx"
    using tkip_rc4key_Some [OF assms(8,9)] by blast
  let ?d = "fst (arcfour_encrypt ctx c)" and ?w = "v XOR c ! i XOR fst (arcfour_encrypt ctx c) ! i"
  obtain f' where "rtw_tkip_decrypt sec (Some sta) f = Some (icv_ok ?d, f')"
    by (rule rtw_tkip_decrypt_eq [OF assms(1-7) k]) blast
  then have ok: "icv_ok ?d" using assms(10) by simp
  have key: "tkip_rx_key sec sta g = Some key" using assms(7,12) by (simp only: tkip_rx_key_def)
  obtain g' where "rtw_tkip_decrypt sec (Some sta) g = Some (icv_ok (fst (arcfour_encrypt ctx (c[i := v]))), g')"
    by (rule rtw_tkip_decrypt_eq [of g h "c[i := v]" sec sta key k ctx]) (use assms k key in simp_all)
  moreover have "fst (arcfour_encrypt ctx (c[i := v])) = ?d[i := ?w]"
    using arcfour_encrypt_update [OF assms(14)] by simp
  moreover have "?w \<noteq> ?d ! i"
    using assms(15) xor_right_cancel [of "v XOR c ! i" "?d ! i" 0] by (simp add: xor.assoc)
  then have "\<not> icv_ok (?d[i := ?w])"
    by (intro icv_ok_update [OF ok]) (use assms(6,14) in \<open>simp_all add: arcfour_encrypt_length\<close>)
  ultimately show ?thesis by simp
qed

definition ex_tkip_rx :: "bytes \<Rightarrow> recv_frame" where
  "ex_tkip_rx d = \<lparr>attrib = \<lparr>hdrlen = 24, to_fr_ds = 0, amsdu = False, qos = False, priority = 0, seq_num = 0,
     frag_num = 0, mfrag = False, privacy = True, bdecrypted = False, encrypt = TKIP_T, iv_len = 8, icv_len = 4,
     dst = [], src = [], ta = [2, 2, 2, 2, 2, 2], ra = [4, 4, 4, 4, 4, 4], bssid = [], key_index = 0\<rparr>,
     buf = d, rx_data = 0, rx_tail = length d, len = length d, keytrack = 0\<rparr>"

lemma ex_tkip_rx_wf: "frame_wf (ex_tkip_rx d)" "frame_data (ex_tkip_rx d) = d"
  by (simp_all add: frame_wf_def frame_data_def ex_tkip_rx_def)

theorem tkip_corruption_detected_witness:
  "\<exists>c f1 g1 sta. rtw_tkip_decrypt ex_sec (Some sta) (ex_tkip_rx (replicate 32 1 @ c)) = Some (True, f1) \<and>
     rtw_tkip_decrypt ex_sec (Some sta) (ex_tkip_rx (replicate 32 1 @ c[0 := c ! 0 + 1])) = Some (False, g1)"
proof -
  let ?h = "replicate 32 (1 :: u8)" and ?key = "replicate 16 (3 :: u8)"
  let ?sta = "\<lparr>sta_UncstKey = ?key, sta_tkiprxmickey = ?key\<rparr>" and ?m = "[7] @ le32_bytes (getcrc32 [7])"
  obtain k ctx where k: "tkip_rc4key ?key [2, 2, 2, 2, 2, 2] (take 8 (drop 24 ?h)) = Some k" "arcfour_init k 16 = Some ctx"
    using tkip_rc4key_Some [of ?key "[2, 2, 2, 2, 2, 2]"] by auto
  define c where "c = fst (arcfour_encrypt ctx ?m)"
  have lc: "length c = 5" by (simp only: c_def arcfour_encrypt_length length_append length_le32_bytes) simp
  have key: "tkip_rx_key ex_sec ?sta (ex_tkip_rx d) = Some ?key" for d
    by (simp add: tkip_rx_key_def ex_tkip_rx_def IS_MCAST_def)
  have a: "unat (hdrlen (attrib (ex_tkip_rx d))) = 24" "unat (iv_len (attrib (ex_tkip_rx d))) = 8"
      "encrypt (attrib (ex_tkip_rx d)) = TKIP_T" "ta (attrib (ex_tkip_rx d)) = [2, 2, 2, 2, 2, 2]" for d
    by (simp_all add: ex_tkip_rx_def)
  obtain f1 where f1: "rtw_tkip_decrypt ex_sec (Some ?sta) (ex_tkip_rx (?h @ c)) = Some (icv_ok (fst (arcfour_encrypt ctx c)), f1)"
    by (rule rtw_tkip_decrypt_eq [OF ex_tkip_rx_wf(1), of "?h @ c" ?h c]) (use k key lc a ex_tkip_rx_wf in simp_all)
  moreover have "icv_ok (fst (arcfour_encrypt ctx c))" unfolding c_def rc4.crypt_crypt by (rule icv_ok_append)
  ultimately have acc: "rtw_tkip_decrypt ex_sec (Some ?sta) (ex_tkip_rx (?h @ c)) = Some (True, f1)" by simp
  have "\<exists>g1. rtw_tkip_decrypt ex_sec (Some ?sta) (ex_tkip_rx (?h @ c[0 := c ! 0 + 1])) = Some (False, g1)"
    by (rule tkip_corruption_detected [OF ex_tkip_rx_wf(1,2) _ _ _ _ key _ _ acc ex_tkip_rx_wf(1) _ ex_tkip_rx_wf(2)])
      (use lc a in \<open>simp_all add: ex_tkip_rx_def\<close>)
  with acc show ?thesis by blast
qed

text \<open>The second Michael failure within 60 seconds of the first starts the countermeasures, failures at least 60
  seconds apart do not; once started they refuse for 60 seconds and end at the first query after that.\<close>

lemma tkip_countermeasures:
  assumes "last_mic_err_time sec = 0" and "\<not> btkip_countermeasure sec" and "0 < t1" and "t1 \<le> t2"
  shows "let s2 = rtw_handle_tkip_mic_err t2 (rtw_handle_tkip_mic_err t1 sec)
         in btkip_countermeasure s2 = (t2 < t1 + 60000) \<and>
            (\<forall>t\<ge>t2. fst (rtw_handle_tkip_countermeasure t s2) = (t2 < t1 + 60000 \<longrightarrow> t2 + 60000 < t)) \<and>
            (\<forall>t>t2 + 60000. \<not> btkip_countermeasure (snd (rtw_handle_tkip_countermeasure t s2)))"
  using assms by (auto simp: Let_def rtw_handle_tkip_mic_err_def rtw_handle_tkip_countermeasure_def)

end
