(* ===== verification/Recv_Defrag.thy ===== *)
theory Recv_Defrag
  imports Sec_Tkip
begin

text \<open>
  Reassembly of fragmented frames in \<^verbatim>\<open>core/rtw_recv.c\<close>: \<open>recvframe_defrag\<close> and \<open>recvframe_chk_defrag\<close>. The
  lemmas show what a reassembled frame holds, which sequences of fragments are refused, and that no
  frame buffer leaks on any path.
\<close>

section \<open>Packet numbers in received frames\<close>

definition le64_word :: "bytes \<Rightarrow> u64" where
  "le64_word b = horner_sum ucast (2 ^ 8) (take 8 b)"

definition CCMPH_2_PN :: "u64 \<Rightarrow> u64" where
  "CCMPH_2_PN ch = (ch AND 0x000000000000ffff) OR drop_bit 16 (ch AND 0xffffffff00000000)"

text \<open>The ciphers whose fragments must have consecutive packet numbers.\<close>

definition pn_checked :: "recv_frame \<Rightarrow> bool" where
  "pn_checked f \<longleftrightarrow> encrypt (attrib f) = AES_T \<or> encrypt (attrib f) = CCMP_256_T \<or>
     encrypt (attrib f) = GCMP_T \<or> encrypt (attrib f) = GCMP_256_T"

definition frame_pn :: "recv_frame \<Rightarrow> u64 option" where
  "frame_pn f = do {
     iv \<leftarrow> rd_slice (buf f) (rx_data f + unat (hdrlen (attrib f))) 8;
     Some (CCMPH_2_PN (le64_word iv)) }"

section \<open>Reassembly\<close>

text \<open>The space behind the data of the first fragment, and a fragment without header and initialisation
  vector. The offset is kept in eight bits; a fragment shorter than it is left whole.\<close>

definition frag_room :: "recv_frame \<Rightarrow> nat" where
  "frag_room f = length (buf f) - rx_tail f"

definition frag_pull :: "recv_frame \<Rightarrow> recv_frame" where
  "frag_pull g = snd (recvframe_pull g (unat (hdrlen (attrib g) + iv_len (attrib g))))"

text \<open>Appending the fragment \<open>g\<close>: the integrity value of the data so far is cut off, that of \<open>g\<close> stays until
  the next one is appended.\<close>

definition frag_append :: "recv_frame \<Rightarrow> recv_frame \<Rightarrow> recv_frame option" where
  "frag_append pr g = do {
     let pr1 = snd (recvframe_pull_tail pr (unat (icv_len (attrib pr))));
     d \<leftarrow> rd_slice (buf g) (rx_data g) (len g);
     b \<leftarrow> wr_slice (buf pr1) (rx_tail pr1) d;
     let pr2 = snd (recvframe_put (pr1\<lparr>buf := b\<rparr>) (len g));
     Some (pr2\<lparr>attrib := (attrib pr2)\<lparr>icv_len := icv_len (attrib g)\<rparr>\<rparr>) }"

text \<open>The loop over the queue: whether all fragments fit together, the first fragment, and the queue, whose
  fragments are pulled as they are read. \<open>done\<close> holds those already appended.\<close>

fun defrag_loop ::
  "recv_frame \<Rightarrow> u64 \<Rightarrow> u8 \<Rightarrow> recv_frame list \<Rightarrow> recv_frame list \<Rightarrow> (bool \<times> recv_frame \<times> recv_frame list) option" where
  "defrag_loop pr cur_pn curfragnum qs [] = Some (True, pr, qs)"
| "defrag_loop pr cur_pn curfragnum qs (g # gs) = do {
     pkt_pn \<leftarrow> (if pn_checked g then frame_pn g else Some (cur_pn + 1));
     if pkt_pn \<noteq> cur_pn + 1 then Some (False, pr, qs @ g # gs)
     else if keytrack pr \<noteq> keytrack g then Some (False, pr, qs @ g # gs)
     else if curfragnum \<noteq> frag_num (attrib g) then Some (False, pr, qs @ g # gs)
     else do {
       let g' = frag_pull g;
       if frag_room pr < len g' then Some (False, pr, qs @ g' # gs)
       else do {
         pr' \<leftarrow> frag_append pr g';
         defrag_loop pr' (if pn_checked g then pkt_pn else cur_pn) (curfragnum + 1) (qs @ [g']) gs } } }"

text \<open>\<open>recvframe_defrag\<close>: the frame reassembled, if any, and the pool of free frames. The queue is empty
  afterwards; it is not empty before, its head would not be a frame.\<close>

definition recvframe_defrag ::
  "recv_frame list \<Rightarrow> recv_frame list \<Rightarrow> (recv_frame option \<times> recv_frame list) option" where
  "recvframe_defrag q pool =
     (case q of
        [] \<Rightarrow> None
      | f # fs \<Rightarrow> do {
          cur_pn \<leftarrow> (if pn_checked f then frame_pn f else Some 0);
          if frag_num (attrib f) \<noteq> 0 then Some (None, rtw_free_recvframe_queue fs (rtw_free_recvframe f pool))
          else do {
            (ok, pr, q') \<leftarrow> defrag_loop f cur_pn 1 [] fs;
            Some (if ok then (Some pr, rtw_free_recvframe_queue q' pool)
                  else (None, rtw_free_recvframe_queue q' (rtw_free_recvframe pr pool))) } })"

text \<open>What the receive path uses of \<open>struct sta_info\<close>.\<close>

record sta_rx =
  rx_keys :: sta_keys
  rx_keytrack :: int
  defrag_q :: "recv_frame list"

definition GetFrameType :: "recv_frame \<Rightarrow> u16 option" where
  "GetFrameType f = map_option (\<lambda>w. w AND 0xC) (RTW_GET_LE16 (buf f) (rx_data f))"

definition WIFI_DATA_TYPE :: u16 where "WIFI_DATA_TYPE = 8"

text \<open>The station whose queue is used: that of the transmitter (\<^const>\<open>True\<close>) or, for frames other than data
  from an unknown one, the station that stands for broadcast (\<^const>\<open>False\<close>).\<close>

definition defrag_sta :: "sta_rx option \<Rightarrow> sta_rx option \<Rightarrow> recv_frame \<Rightarrow> (bool \<times> sta_rx) option option" where
  "defrag_sta sta bcmc f =
     (case sta of
        Some s \<Rightarrow> Some (Some (True, s))
      | None \<Rightarrow> do {
          ty \<leftarrow> GetFrameType f;
          Some (if ty \<noteq> WIFI_DATA_TYPE then map_option (Pair False) bcmc else None) })"

record rx_state =
  st_sta :: "sta_rx option"
  st_bcmc :: "sta_rx option"
  st_pool :: "recv_frame list"
  st_sec :: security_priv

definition set_defrag_q :: "bool \<times> sta_rx \<Rightarrow> recv_frame list \<Rightarrow> rx_state \<Rightarrow> rx_state" where
  "set_defrag_q w q st =
     (if fst w then st\<lparr>st_sta := Some ((snd w)\<lparr>defrag_q := q\<rparr>)\<rparr>
      else st\<lparr>st_bcmc := Some ((snd w)\<lparr>defrag_q := q\<rparr>)\<rparr>)"

text \<open>The check of the integrity code at the end, for a frame with the privacy bit.\<close>

definition chk_defrag_mic ::
  "nat \<Rightarrow> u8 \<Rightarrow> rx_state \<Rightarrow> recv_frame option \<Rightarrow> (recv_frame option \<times> rx_state) option" where
  "chk_defrag_mic now mki st r =
     (case r of
        None \<Rightarrow> Some (None, st)
      | Some f \<Rightarrow>
          if privacy (attrib f) then do {
            (ok, f', sec') \<leftarrow> recvframe_chkmic now mki (st_sec st) (map_option rx_keys (st_sta st)) f;
            let st' = st\<lparr>st_sec := sec'\<rparr>;
            Some (if ok then (Some f', st')
                  else (None, st'\<lparr>st_pool := rtw_free_recvframe f' (st_pool st')\<rparr>)) }
          else Some (Some f, st))"

definition recvframe_chk_defrag ::
  "nat \<Rightarrow> u8 \<Rightarrow> rx_state \<Rightarrow> recv_frame \<Rightarrow> (recv_frame option \<times> rx_state) option" where
  "recvframe_chk_defrag now mki st f = do {
     w \<leftarrow> defrag_sta (st_sta st) (st_bcmc st) f;
     if \<not> mfrag (attrib f) \<and> frag_num (attrib f) = 0 then chk_defrag_mic now mki st (Some f)
     else if IS_MCAST (ra (attrib f)) then Some (None, st\<lparr>st_pool := rtw_free_recvframe f (st_pool st)\<rparr>)
     else
       case w of
         None \<Rightarrow> Some (None, st\<lparr>st_pool := rtw_free_recvframe f (st_pool st)\<rparr>)
       | Some ws \<Rightarrow> do {
           let f1 = f\<lparr>keytrack := rx_keytrack (snd ws)\<rparr>;
           let q = defrag_q (snd ws);
           if mfrag (attrib f) then
             (if frag_num (attrib f) = 0 \<and> q \<noteq> [] then
                Some (None, set_defrag_q ws [f1] (st\<lparr>st_pool := rtw_free_recvframe_queue q (st_pool st)\<rparr>))
              else Some (None, set_defrag_q ws (q @ [f1]) st))
           else do {
             (r, pool') \<leftarrow> recvframe_defrag (q @ [f1]) (st_pool st);
             chk_defrag_mic now mki (set_defrag_q ws [] (st\<lparr>st_pool := pool'\<rparr>)) r } } }"

section \<open>Reassembly specified\<close>

text \<open>A fragment the receive path has checked: its fields fit together and, where the packet number is read,
  the initialisation vector is there.\<close>

definition frag_ok :: "recv_frame \<Rightarrow> bool" where
  "frag_ok g \<longleftrightarrow> frame_wf g \<and> (pn_checked g \<longrightarrow> unat (hdrlen (attrib g)) + 8 \<le> len g)"

text \<open>The fragments continue one another: consecutive fragment numbers from \<open>n\<close>, one key, consecutive packet
  numbers after \<open>pn\<close> wherever the cipher has them.\<close>

fun frag_chain :: "int \<Rightarrow> u64 \<Rightarrow> u8 \<Rightarrow> recv_frame list \<Rightarrow> bool" where
  "frag_chain kt pn n [] = True"
| "frag_chain kt pn n (g # gs) =
     ((pn_checked g \<longrightarrow> frame_pn g = Some (pn + 1)) \<and> keytrack g = kt \<and> frag_num (attrib g) = n \<and>
      frag_chain kt (if pn_checked g then pn + 1 else pn) (n + 1) gs)"

text \<open>The data: that of each fragment behind header and initialisation vector, with the integrity value of the
  fragment before cut off, as long as the buffer of the first fragment has room.\<close>

definition cut_icv :: "bytes \<Rightarrow> nat \<Rightarrow> bytes" where
  "cut_icv d icv = (if icv \<le> length d then take (length d - icv) d else d)"

fun reassemble :: "bytes \<Rightarrow> nat \<Rightarrow> nat \<Rightarrow> recv_frame list \<Rightarrow> bytes option" where
  "reassemble d icv room [] = Some d"
| "reassemble d icv room (g # gs) =
     (let body = frame_data (frag_pull g); d1 = cut_icv d icv
      in if room < length body then None
         else reassemble (d1 @ body) (unat (icv_len (attrib g))) (room + (length d - length d1) - length body) gs)"

lemma frag_pull_facts:
  assumes "frame_wf g"
  shows "frame_wf (frag_pull g)" and "attrib (frag_pull g) = attrib g" and "buf (frag_pull g) = buf g"
  using assms frame_wf_ops(2) [OF assms] by (auto simp: frag_pull_def recvframe_pull_def)

lemma frag_append_spec:
  assumes "frame_wf pr" and "frame_wf g" and "len g \<le> frag_room pr"
  obtains pr' where "frag_append pr g = Some pr'" and "frame_wf pr'" and "keytrack pr' = keytrack pr"
    and "icv_len (attrib pr') = icv_len (attrib g)"
    and "frame_data pr' = cut_icv (frame_data pr) (unat (icv_len (attrib pr))) @ frame_data g"
    and "frag_room pr' = frag_room pr + (len pr - length (cut_icv (frame_data pr) (unat (icv_len (attrib pr))))) - len g"
proof -
  let ?icv = "unat (icv_len (attrib pr))"
  let ?pr1 = "snd (recvframe_pull_tail pr ?icv)"
  have w1: "frame_wf ?pr1" by (rule frame_wf_ops(4) [OF assms(1)])
  have l: "length (frame_data pr) = len pr" by (rule length_frame_data [OF assms(1)])
  have d1: "frame_data ?pr1 = cut_icv (frame_data pr) ?icv"
  proof (cases "?icv \<le> len pr")
    case True
    then show ?thesis using frame_data_pull_tail(2) [OF assms(1) True] l by (simp add: cut_icv_def)
  next
    case False
    then have "?pr1 = pr" using assms(1) by (simp add: recvframe_pull_tail_def frame_wf_def)
    then show ?thesis using False l by (simp add: cut_icv_def)
  qed
  have b1: "buf ?pr1 = buf pr" "keytrack ?pr1 = keytrack pr" "rx_data ?pr1 = rx_data pr"
    by (simp_all add: recvframe_pull_tail_def)
  have l1: "length (cut_icv (frame_data pr) ?icv) = len ?pr1" using length_frame_data [OF w1] d1 by simp
  have t1: "rx_tail ?pr1 = rx_data pr + len ?pr1" "rx_tail pr = rx_data pr + len pr"
    using w1 assms(1) b1(3) by (auto simp: frame_wf_def)
  have lle: "len ?pr1 \<le> len pr" using l1 l by (simp add: cut_icv_def split: if_splits)
  have room: "rx_tail ?pr1 + len g \<le> length (buf ?pr1)"
    using assms(1,3) b1 t1 lle by (auto simp: frag_room_def frame_wf_def)
  have g: "rd_slice (buf g) (rx_data g) (len g) = Some (frame_data g)"
    using frame_rd [OF assms(2), of 0 "len g"] length_frame_data [OF assms(2)] by simp
  let ?b = "take (rx_tail ?pr1) (buf ?pr1) @ frame_data g @ drop (rx_tail ?pr1 + len g) (buf ?pr1)"
  have lg: "length (frame_data g) = len g" by (rule length_frame_data [OF assms(2)])
  have wr: "wr_slice (buf ?pr1) (rx_tail ?pr1) (frame_data g) = Some ?b"
    using room by (simp add: wr_slice_def lg)
  let ?pr' = "?pr1\<lparr>buf := ?b, rx_tail := rx_tail ?pr1 + len g, len := len ?pr1 + len g,
      attrib := (attrib ?pr1)\<lparr>icv_len := icv_len (attrib g)\<rparr>\<rparr>"
  show ?thesis
  proof (rule that [of ?pr'])
    show "frag_append pr g = Some ?pr'"
      using wr g room by (simp add: frag_append_def recvframe_put_def Let_def lg)
    show "frame_wf ?pr'" using w1 room lg by (auto simp: frame_wf_def)
    have "frame_data ?pr' = frame_data ?pr1 @ frame_data g"
    proof -
      obtain p q where s: "buf ?pr1 = p @ frame_data ?pr1 @ q" "length p = rx_data ?pr1"
        using w1 by (rule frame_split)
      have "take (rx_tail ?pr1) (buf ?pr1) = p @ frame_data ?pr1"
        using s t1 b1(3) l1 d1 by simp
      then show ?thesis unfolding frame_data_def [of ?pr'] using s(2) t1 b1(3) l1 d1 lg by simp
    qed
    then show "frame_data ?pr' = cut_icv (frame_data pr) ?icv @ frame_data g" by (simp add: d1)
    show "frag_room ?pr' = frag_room pr + (len pr - length (cut_icv (frame_data pr) ?icv)) - len g"
      using room lg t1 b1 l1 lle assms(1) by (auto simp: frag_room_def frame_wf_def)
  qed (use b1 in simp_all)
qed

lemma frame_pn_Some:
  assumes "frag_ok g" and "pn_checked g"
  obtains pn where "frame_pn g = Some pn"
proof -
  have "rd_slice (buf g) (rx_data g + unat (hdrlen (attrib g))) 8 = Some (take 8 (drop (unat (hdrlen (attrib g))) (frame_data g)))"
    using assms by (intro frame_rd) (auto simp: frag_ok_def)
  then show ?thesis by (intro that) (simp add: frame_pn_def)
qed

lemma defrag_loop_spec:
  assumes "frame_wf pr" and "\<forall>g \<in> set gs. frag_ok g"
  shows "\<exists>ok pr' q'. defrag_loop pr pn n qs gs = Some (ok, pr', q') \<and> length q' = length qs + length gs \<and>
           (if ok then Some (frame_data pr') else None) =
             (if frag_chain (keytrack pr) pn n gs
              then reassemble (frame_data pr) (unat (icv_len (attrib pr))) (frag_room pr) gs else None)"
  using assms
proof (induction gs arbitrary: pr pn n qs)
  case (Cons g gs)
  have g: "frag_ok g" and wg: "frame_wf g" using Cons.prems by (auto simp: frag_ok_def)
  let ?g = "frag_pull g"
  note gf = frag_pull_facts [OF wg]
  have lg: "length (frame_data ?g) = len ?g" by (rule length_frame_data [OF gf(1)])
  let ?pkt = "if pn_checked g then frame_pn g else Some (pn + 1)"
  obtain pkt where pkt: "?pkt = Some pkt"
  proof (cases "pn_checked g")
    case True
    from frame_pn_Some [OF g True] obtain p where "frame_pn g = Some p" .
    with True show ?thesis by (intro that) simp
  qed (auto intro: that)
  show ?case
  proof (cases "pkt = pn + 1 \<and> keytrack pr = keytrack g \<and> n = frag_num (attrib g)")
    case False
    with pkt show ?thesis by (auto split: if_splits)
  next
    case head: True
    show ?thesis
    proof (cases "frag_room pr < len ?g")
      case True
      with head pkt lg show ?thesis by (auto simp: Let_def)
    next
      case False
      then have "len ?g \<le> frag_room pr" by simp
      from frag_append_spec [OF Cons.prems(1) gf(1) this] obtain pr' where
        pr': "frag_append pr ?g = Some pr'" "frame_wf pr'" "keytrack pr' = keytrack pr"
        "icv_len (attrib pr') = icv_len (attrib ?g)"
        "frame_data pr' = cut_icv (frame_data pr) (unat (icv_len (attrib pr))) @ frame_data ?g"
        "frag_room pr' = frag_room pr + (len pr - length (cut_icv (frame_data pr) (unat (icv_len (attrib pr))))) - len ?g" .
      have l: "length (frame_data pr) = len pr" by (rule length_frame_data [OF Cons.prems(1)])
      let ?pn = "if pn_checked g then pkt else pn"
      have step: "defrag_loop pr pn n qs (g # gs) = defrag_loop pr' ?pn (n + 1) (qs @ [?g]) gs"
        using head pkt False pr'(1) by (auto simp: Let_def split: if_splits)
      have chain: "frag_chain (keytrack pr) pn n (g # gs) = frag_chain (keytrack pr') ?pn (n + 1) gs"
        using head pkt pr'(3) by (auto split: if_splits)
      have re: "reassemble (frame_data pr) (unat (icv_len (attrib pr))) (frag_room pr) (g # gs) =
          reassemble (frame_data pr') (unat (icv_len (attrib pr'))) (frag_room pr') gs"
        using False pr'(4-6) gf(2) by (simp add: Let_def lg l)
      from Cons.IH [OF pr'(2), of ?pn "n + 1" "qs @ [?g]"] Cons.prems(2) show ?thesis
        unfolding step chain re by simp
    qed
  qed
qed auto

lemma length_free_queue [simp]: "length (rtw_free_recvframe_queue q pool) = length pool + length q"
  by (simp add: free_queue_eq)

lemma length_free_recvframe [simp]: "length (rtw_free_recvframe f pool) = length pool + 1"
  by (simp add: rtw_free_recvframe_def)

text \<open>The packet number the second fragment is measured against.\<close>

definition first_pn :: "recv_frame \<Rightarrow> u64" where
  "first_pn f = (if pn_checked f then the (frame_pn f) else 0)"

lemma recvframe_defrag_facts:
  assumes "\<forall>g \<in> set (f # fs). frag_ok g"
  shows "\<exists>r pool'. recvframe_defrag (f # fs) pool = Some (r, pool') \<and>
           map_option frame_data r =
             (if frag_num (attrib f) = 0 \<and> frag_chain (keytrack f) (first_pn f) 1 fs
              then reassemble (frame_data f) (unat (icv_len (attrib f))) (frag_room f) fs else None) \<and>
           length pool' + (if r = None then 0 else 1) = length pool + length (f # fs)"
proof -
  have f: "frag_ok f" "frame_wf f" and fs: "\<forall>g \<in> set fs. frag_ok g" using assms by (auto simp: frag_ok_def)
  have pn: "(if pn_checked f then frame_pn f else Some 0) = Some (first_pn f)"
  proof (cases "pn_checked f")
    case True
    from frame_pn_Some [OF f(1) True] obtain p where "frame_pn f = Some p" .
    with True show ?thesis by (simp add: first_pn_def)
  qed (simp add: first_pn_def)
  from defrag_loop_spec [OF f(2) fs, of "first_pn f" 1 "[]"] obtain ok pr' q' where
    l: "defrag_loop f (first_pn f) 1 [] fs = Some (ok, pr', q')" "length q' = length fs"
    "(if ok then Some (frame_data pr') else None) =
       (if frag_chain (keytrack f) (first_pn f) 1 fs
        then reassemble (frame_data f) (unat (icv_len (attrib f))) (frag_room f) fs else None)" by auto
  show ?thesis
  proof (cases "frag_num (attrib f) = 0")
    case True
    have e: "recvframe_defrag (f # fs) pool =
        Some (if ok then (Some pr', rtw_free_recvframe_queue q' pool)
              else (None, rtw_free_recvframe_queue q' (rtw_free_recvframe pr' pool)))"
      by (simp only: recvframe_defrag_def list.case pn bind.bind_lunit l(1) True not_True_eq_False if_False prod.case simp_thms)
    show ?thesis
      by (cases ok) (use e l(2,3) True in simp_all)
  next
    case False
    then have "recvframe_defrag (f # fs) pool = Some (None, rtw_free_recvframe_queue fs (rtw_free_recvframe f pool))"
      by (simp only: recvframe_defrag_def list.case pn bind.bind_lunit not_False_eq_True if_True)
    with False show ?thesis by simp
  qed
qed

text \<open>The number of frame buffers a state holds.\<close>

definition frames_held :: "rx_state \<Rightarrow> nat" where
  "frames_held st = length (st_pool st) + (case st_sta st of None \<Rightarrow> 0 | Some s \<Rightarrow> length (defrag_q s)) +
     (case st_bcmc st of None \<Rightarrow> 0 | Some s \<Rightarrow> length (defrag_q s))"

lemma frames_held_set:
  assumes "defrag_sta (st_sta st) (st_bcmc st) f = Some (Some w)"
  shows "frames_held (set_defrag_q w q (st\<lparr>st_pool := p\<rparr>)) + length (defrag_q (snd w)) + length (st_pool st) =
           frames_held st + length q + length p"
  using assms
  by (auto simp: defrag_sta_def set_defrag_q_def frames_held_def split: option.splits bind_splits if_splits)

lemma chk_defrag_mic_held:
  assumes "chk_defrag_mic now mki st r = Some (r', st')"
  shows "frames_held st' + (if r' = None then 0 else 1) = frames_held st + (if r = None then 0 else 1)"
  using assms by (auto simp: chk_defrag_mic_def frames_held_def Let_def split: option.splits if_splits bind_splits)

lemma defrag_loop_length:
  "defrag_loop pr pn n qs gs = Some (ok, pr', q') \<Longrightarrow> length q' = length qs + length gs"
proof (induction gs arbitrary: pr pn n qs)
  case (Cons g gs)
  from Cons.prems show ?case
    by (auto simp: Let_def split: if_splits bind_splits dest: Cons.IH)
qed simp

lemma recvframe_defrag_held:
  assumes "recvframe_defrag q pool = Some (r, pool')"
  shows "length pool' + (if r = None then 0 else 1) = length pool + length q"
  using assms
  by (auto simp: recvframe_defrag_def split: list.splits if_splits bind_splits dest!: defrag_loop_length)

lemma chk_defrag_held:
  assumes "recvframe_chk_defrag now mki st f = Some (r, st')"
  shows "frames_held st' + (if r = None then 0 else 1) = frames_held st + 1"
proof -
  from assms obtain w where w: "defrag_sta (st_sta st) (st_bcmc st) f = Some w"
    by (auto simp: recvframe_chk_defrag_def split: bind_splits)
  let ?frag = "mfrag (attrib f) \<or> frag_num (attrib f) \<noteq> 0"
  consider (whole) "\<not> ?frag" | (drop) ?frag "IS_MCAST (ra (attrib f)) \<or> w = None"
    | (frag) ws where ?frag "\<not> IS_MCAST (ra (attrib f))" "w = Some ws" by blast
  then show ?thesis
  proof cases
    case whole
    then have "chk_defrag_mic now mki st (Some f) = Some (r, st')"
      using assms w by (simp add: recvframe_chk_defrag_def)
    from chk_defrag_mic_held [OF this] show ?thesis by simp
  next
    case drop
    then have "r = None" "st' = st\<lparr>st_pool := rtw_free_recvframe f (st_pool st)\<rparr>"
      using assms w by (auto simp: recvframe_chk_defrag_def split: if_splits)
    then show ?thesis by (simp add: frames_held_def)
  next
    case frag
    let ?q = "defrag_q (snd ws)" and ?f1 = "f\<lparr>keytrack := rx_keytrack (snd ws)\<rparr>"
    note held = frames_held_set [OF w [unfolded frag(3)]]
    show ?thesis
    proof (cases "mfrag (attrib f)")
      case True
      with assms w frag have "r = None \<and> (st' = set_defrag_q ws [?f1] (st\<lparr>st_pool := rtw_free_recvframe_queue ?q (st_pool st)\<rparr>) \<or>
          st' = set_defrag_q ws (?q @ [?f1]) (st\<lparr>st_pool := st_pool st\<rparr>))"
        by (auto simp: recvframe_chk_defrag_def Let_def split: if_splits)
      then show ?thesis
        using held [of "[?f1]" "rtw_free_recvframe_queue ?q (st_pool st)"] held [of "?q @ [?f1]" "st_pool st"] by auto
    next
      case False
      with assms w frag obtain r1 pool' where
        d: "recvframe_defrag (?q @ [?f1]) (st_pool st) = Some (r1, pool')"
        "chk_defrag_mic now mki (set_defrag_q ws [] (st\<lparr>st_pool := pool'\<rparr>)) r1 = Some (r, st')"
        by (auto simp: recvframe_chk_defrag_def Let_def split: bind_splits)
      show ?thesis
        using held [of "[]" pool'] chk_defrag_mic_held [OF d(2)] recvframe_defrag_held [OF d(1)]
        by (simp split: if_splits)
    qed
  qed
qed

section \<open>Properties\<close>

text \<open>C3: Reassembly does what it should and nothing else. For every queue of well-formed fragments \<open>recvframe_defrag\<close>
  returns without leaving a buffer; it returns a frame exactly when the first fragment has number 0, the others continue
  it (consecutive fragment numbers, the same key, consecutive packet numbers where the cipher has them) and the data
  fits; and then the frame holds the data of the fragments one after the other, each without header, initialisation
  vector and the integrity value of its predecessor. All other frames go back to the pool.\<close>

theorem recvframe_defrag_spec:
  assumes "\<forall>g \<in> set (f # fs). frag_ok g"
  shows "\<exists>r pool'. recvframe_defrag (f # fs) pool = Some (r, pool') \<and>
           map_option frame_data r =
             (if frag_num (attrib f) = 0 \<and> frag_chain (keytrack f) (first_pn f) 1 fs
              then reassemble (frame_data f) (unat (icv_len (attrib f))) (frag_room f) fs else None) \<and>
           length pool' + (if r = None then 0 else 1) = length pool + length (f # fs)"
  by (rule recvframe_defrag_facts [OF assms])

definition ex_frag :: "u8 \<Rightarrow> bytes \<Rightarrow> recv_frame" where
  "ex_frag n d = \<lparr>attrib = \<lparr>hdrlen = 24, to_fr_ds = 0, amsdu = False, qos = False, priority = 0, seq_num = 9,
     frag_num = n, mfrag = True, privacy = False, bdecrypted = True, encrypt = 0, iv_len = 0, icv_len = 0,
     dst = [], src = [], ta = [2, 2, 2, 2, 2, 2], ra = [4, 4, 4, 4, 4, 4], bssid = [], key_index = 0\<rparr>,
     buf = d @ [0, 0, 0, 0], rx_data = 0, rx_tail = length d, len = length d, keytrack = 0\<rparr>"

theorem recvframe_defrag_spec_witness:
  "\<exists>r pool'. recvframe_defrag [ex_frag 0 (replicate 24 8 @ [1, 2]), ex_frag 1 (replicate 24 8 @ [3])] [] = Some (Some r, pool') \<and>
     frame_data r = replicate 24 8 @ [1, 2, 3] \<and> length pool' = 1"
proof -
  let ?f = "ex_frag 0 (replicate 24 8 @ [1, 2])" and ?g = "ex_frag 1 (replicate 24 8 @ [3])"
  have "\<forall>g \<in> set [?f, ?g]. frag_ok g"
    by (simp add: frag_ok_def frame_wf_def ex_frag_def pn_checked_def sec_type_defs)
  from recvframe_defrag_spec [OF this, of "[]"] show ?thesis
    by (auto simp: ex_frag_def pn_checked_def sec_type_defs frag_pull_def recvframe_pull_def frame_data_def cut_icv_def
        frag_room_def Let_def split: if_splits)
qed



end
