(* ===== verification/Recv_Check.thy ===== *)
theory Recv_Check
  imports Recv_Defrag
begin

text \<open>
  The checks a received data frame passes before and after decryption: duplicates and replays
  (\<^verbatim>\<open>core/rtw_recv_pn_rest.c\<close>), the LLC header (\<^verbatim>\<open>core/rtw_recv_llc_rest.c\<close>), and the split of an A-MSDU
  into its subframes (\<open>amsdu_to_msdu\<close> of \<^verbatim>\<open>core/rtw_recv.c\<close> with \<open>rtw_os_alloc_msdu_pkt\<close> of
  \<^verbatim>\<open>os_dep/linux/recv_linux.c\<close>).
\<close>

section \<open>Duplicates and replays\<close>

text \<open>\<open>struct sta_recv_priv\<close> with its \<open>stainfo_rxcache\<close>, and the count of duplicates.\<close>

record sta_recv_priv =
  rx_iv :: "bytes list"
  last_tid :: nat
  tid_rxseq :: "u16 list"
  bmc_tid_rxseq :: "u16 list"
  nonqos_rxseq :: u16
  nonqos_bmc_rxseq :: u16
  duplicate_cnt :: nat

definition PN_LESS_CHK :: "u64 \<Rightarrow> u64 \<Rightarrow> bool" where
  "PN_LESS_CHK a b \<longleftrightarrow> (a - b) AND 0x800000000000 \<noteq> 0"

definition VALID_PN_CHK :: "u64 \<Rightarrow> u64 \<Rightarrow> bool" where
  "VALID_PN_CHK new old \<longleftrightarrow> old = 0 \<or> PN_LESS_CHK old new"

definition CCMPH_2_KEYID :: "u64 \<Rightarrow> nat" where
  "CCMPH_2_KEYID ch = unat (drop_bit 30 (ch AND 0x00000000c0000000))"

definition recv_ucast_pn_decache :: "sta_recv_priv \<Rightarrow> recv_frame \<Rightarrow> (bool \<times> sta_recv_priv) option" where
  "recv_ucast_pn_decache s f =
     (let tid = unat (priority (attrib f))
      in if 15 < tid then Some (False, s)
         else if encrypt (attrib f) = AES_T then do {
           iv \<leftarrow> rd_slice (buf f) (rx_data f + unat (hdrlen (attrib f))) 8;
           old \<leftarrow> arr (rx_iv s) tid;
           let pkt_pn = CCMPH_2_PN (le64_word iv);
           let curr_pn = CCMPH_2_PN (le64_word old);
           Some (True, if VALID_PN_CHK pkt_pn curr_pn then s\<lparr>last_tid := tid, rx_iv := (rx_iv s)[tid := iv]\<rparr> else s) }
         else Some (True, s))"

text \<open>\<open>iv_seq\<close> has the last packet number of each group key; \<open>is_station\<close> is the test of the
  firmware state.\<close>

definition recv_bcast_pn_decache :: "bool \<Rightarrow> u64 list \<Rightarrow> recv_frame \<Rightarrow> (bool \<times> u64 list) option" where
  "recv_bcast_pn_decache is_station iv_seq f =
     (if encrypt (attrib f) = AES_T \<and> is_station then do {
        iv \<leftarrow> rd_slice (buf f) (rx_data f + unat (hdrlen (attrib f))) 8;
        let key_id = CCMPH_2_KEYID (le64_word iv);
        let pkt_pn = CCMPH_2_PN (le64_word iv);
        cur \<leftarrow> arr iv_seq key_id;
        let curr_pn = cur AND 0x0000ffffffffffff;
        Some (if \<not> VALID_PN_CHK pkt_pn curr_pn then (False, iv_seq) else (True, iv_seq[key_id := pkt_pn])) }
      else Some (True, iv_seq))"

definition recv_decache :: "sta_recv_priv \<Rightarrow> recv_frame \<Rightarrow> (bool \<times> sta_recv_priv) option" where
  "recv_decache s f =
     (let a = attrib f;
          tid = unat (priority a);
          seq_ctrl = push_bit 4 (seq_num a AND 0xffff) OR (ucast (frag_num a) AND 0xf);
          mcast = IS_MCAST (ra a);
          dup = s\<lparr>duplicate_cnt := duplicate_cnt s + 1\<rparr>
      in if 15 < tid then Some (False, s)
         else if qos a then
           (if mcast then do {
              old \<leftarrow> arr (bmc_tid_rxseq s) tid;
              Some (if seq_ctrl = old then (False, dup)
                    else (True, s\<lparr>bmc_tid_rxseq := (bmc_tid_rxseq s)[tid := seq_ctrl]\<rparr>)) }
            else do {
              old \<leftarrow> arr (tid_rxseq s) tid;
              Some (if seq_ctrl = old then (False, dup)
                    else (True, s\<lparr>tid_rxseq := (tid_rxseq s)[tid := seq_ctrl]\<rparr>)) })
         else if mcast then
           Some (if seq_ctrl = nonqos_bmc_rxseq s then (False, dup) else (True, s\<lparr>nonqos_bmc_rxseq := seq_ctrl\<rparr>))
         else
           Some (if seq_ctrl = nonqos_rxseq s then (False, dup) else (True, s\<lparr>nonqos_rxseq := seq_ctrl\<rparr>)))"

section \<open>LLC headers\<close>

definition rtw_rfc1042_header :: bytes where "rtw_rfc1042_header = [0xaa, 0xaa, 0x03, 0x00, 0x00, 0x00]"
definition rtw_bridge_tunnel_header :: bytes where "rtw_bridge_tunnel_header = [0xaa, 0xaa, 0x03, 0x00, 0x00, 0xf8]"

datatype rtw_rx_llc_hdl = RTW_RX_LLC_KEEP | RTW_RX_LLC_REMOVE | RTW_RX_LLC_VLAN

text \<open>The headers are compared over \<open>SNAP_SIZE\<close>, six bytes; \<open>ETH_P_AARP\<close> is \<open>0x80F3\<close> and \<open>ETH_P_IPX\<close>
  \<open>0x8137\<close>.\<close>

definition rtw_recv_llc_parse :: "bytes \<Rightarrow> nat \<Rightarrow> nat \<Rightarrow> rtw_rx_llc_hdl option" where
  "rtw_recv_llc_parse b msdu msdu_len =
     (if msdu_len < 8 then Some RTW_RX_LLC_KEEP
      else do {
        eth_type \<leftarrow> RTW_GET_BE16 b (msdu + 6);
        r \<leftarrow> rtw_memcmp b msdu rtw_rfc1042_header;
        t \<leftarrow> rtw_memcmp b msdu rtw_bridge_tunnel_header;
        Some (if r \<and> eth_type \<noteq> 0x80F3 \<and> eth_type \<noteq> 0x8137 \<or> t then RTW_RX_LLC_REMOVE else RTW_RX_LLC_KEEP) })"

section \<open>A-MSDUs\<close>

text \<open>\<open>spp_off\<close> is \<open>amsdu_mode == RTW_AMSDU_MODE_NON_SPP\<close> in a network with encryption.\<close>

definition validate_amsdu_content :: "bool \<Rightarrow> rx_pkt_attrib \<Rightarrow> bytes \<Rightarrow> bytes \<Rightarrow> bool" where
  "validate_amsdu_content spp_off a da sa \<longleftrightarrow>
     \<not> (spp_off \<and>
        (to_fr_ds a = 2 \<and> da \<noteq> ra a \<or> to_fr_ds a = 1 \<and> sa \<noteq> ta a \<or> da = rtw_rfc1042_header))"

text \<open>\<open>rtw_os_alloc_msdu_pkt\<close> when the allocation succeeds: the bytes of the Ethernet frame.\<close>

definition rtw_os_alloc_msdu_pkt :: "bytes \<Rightarrow> bytes \<Rightarrow> bytes \<Rightarrow> nat \<Rightarrow> nat \<Rightarrow> rtw_rx_llc_hdl \<Rightarrow> bytes option" where
  "rtw_os_alloc_msdu_pkt b da sa msdu msdu_len llc_hdl = do {
     data \<leftarrow> rd_slice b msdu msdu_len;
     Some (if llc_hdl \<noteq> RTW_RX_LLC_KEEP then da @ sa @ drop 6 data
           else da @ sa @ RTW_PUT_BE16 (word_of_nat msdu_len) @ data) }"

definition MAX_SUBFRAME_COUNT :: nat where "MAX_SUBFRAME_COUNT = 64"

definition subframe_padding :: "nat \<Rightarrow> nat" where
  "subframe_padding n = (let p = 4 - (n + 14) mod 4 in if p = 4 then 0 else p)"

text \<open>The loop of \<open>amsdu_to_msdu\<close> for a station: the subframes collected in \<open>subs\<close>, the offset \<open>pdata\<close> and the bytes
  left. \<open>alloc\<close> tells whether the kernel has memory for the subframe at an offset. A station indicates
  every subframe, and \<open>rtw_recv_indicatepkt_check\<close> lets every one pass.\<close>

function amsdu_loop ::
  "(nat \<Rightarrow> bool) \<Rightarrow> bool \<Rightarrow> rx_pkt_attrib \<Rightarrow> bytes \<Rightarrow> bytes list \<Rightarrow> nat \<Rightarrow> nat \<Rightarrow> bytes list option" where
  "amsdu_loop alloc spp_off a b subs pdata a_len =
     (if a_len \<le> 14 then Some subs
      else do {
        n16 \<leftarrow> RTW_GET_BE16 b (pdata + 12);
        let n = unat n16;
        if a_len < 14 + n then Some subs
        else do {
          da \<leftarrow> rd_slice b pdata 6;
          sa \<leftarrow> rd_slice b (pdata + 6) 6;
          if \<not> validate_amsdu_content spp_off a da sa then Some subs
          else do {
            llc_hdl \<leftarrow> rtw_recv_llc_parse b (pdata + 14) n;
            if \<not> alloc pdata then Some subs
            else do {
              pkt \<leftarrow> rtw_os_alloc_msdu_pkt b da sa (pdata + 14) n llc_hdl;
              let subs' = subs @ [pkt];
              if MAX_SUBFRAME_COUNT \<le> length subs' then Some subs'
              else
                (let left = a_len - 14 - n; next = pdata + 14 + n
                 in if left = 0 then amsdu_loop alloc spp_off a b subs' next 0
                    else if left < subframe_padding n then Some subs'
                    else amsdu_loop alloc spp_off a b subs' (next + subframe_padding n) (left - subframe_padding n)) } } } })"
  by pat_completeness auto
termination
  by (relation "measure (\<lambda>(alloc, spp, a, b, subs, pdata, a_len). a_len)") auto

declare amsdu_loop.simps [simp del]

text \<open>\<open>amsdu_to_msdu\<close>: the Ethernet frames handed to the kernel, and the pool the frame goes back to.\<close>

definition amsdu_strip :: "recv_frame \<Rightarrow> recv_frame" where
  "amsdu_strip f =
     (let a = attrib f;
          f1 = snd (recvframe_pull f (unat (hdrlen a)));
          f2 = (if 0 < iv_len a then snd (recvframe_pull f1 (unat (iv_len a))) else f1)
      in if encrypt a \<noteq> 0 then snd (recvframe_pull_tail f2 (unat (icv_len a))) else f2)"

definition amsdu_to_msdu ::
  "(nat \<Rightarrow> bool) \<Rightarrow> bool \<Rightarrow> recv_frame \<Rightarrow> recv_frame list \<Rightarrow> (bytes list \<times> recv_frame list) option" where
  "amsdu_to_msdu alloc spp_off f pool = do {
     let f3 = amsdu_strip f;
     subs \<leftarrow> amsdu_loop alloc spp_off (attrib f) (buf f3) [] (rx_data f3) (len f3);
     Some (subs, rtw_free_recvframe (f3\<lparr>len := 0\<rparr>) pool) }"

section \<open>A-MSDUs are split safely\<close>

lemma RTW_GET_BE16_Some:
  assumes "i + 2 \<le> length b"
  obtains v where "RTW_GET_BE16 b i = Some v"
  using assms by (auto simp: RTW_GET_BE16_def rd_def)

lemma rtw_recv_llc_parse_Some:
  assumes "msdu + n \<le> length b"
  obtains l where "rtw_recv_llc_parse b msdu n = Some l"
proof (cases "n < 8")
  case False
  obtain v where "RTW_GET_BE16 b (msdu + 6) = Some v" using assms False by (auto intro: RTW_GET_BE16_Some [of "msdu + 6" b])
  with assms False that show ?thesis
    by (simp add: rtw_recv_llc_parse_def rtw_memcmp_in rtw_rfc1042_header_def rtw_bridge_tunnel_header_def)
qed (use that in \<open>simp add: rtw_recv_llc_parse_def\<close>)

lemma subframe_padding_le: "subframe_padding n \<le> 3"
proof -
  have "(n + 14) mod 4 < 4" by simp
  then show ?thesis unfolding subframe_padding_def Let_def by (cases "(n + 14) mod 4 = 0") auto
qed

text \<open>One step of the loop on bytes that are there.\<close>

definition subframe_pkt :: "bytes \<Rightarrow> nat \<Rightarrow> u16 \<Rightarrow> rtw_rx_llc_hdl \<Rightarrow> bytes" where
  "subframe_pkt b pdata n16 llc =
     take 6 (drop pdata b) @ take 6 (drop (pdata + 6) b) @
     (if llc \<noteq> RTW_RX_LLC_KEEP then drop 6 (take (unat n16) (drop (pdata + 14) b))
      else RTW_PUT_BE16 n16 @ take (unat n16) (drop (pdata + 14) b))"

lemma amsdu_loop_short: "a_len \<le> 14 \<Longrightarrow> amsdu_loop alloc spp_off a b subs pdata a_len = Some subs"
  by (subst amsdu_loop.simps) simp

lemma amsdu_loop_cut:
  "14 < a_len \<Longrightarrow> RTW_GET_BE16 b (pdata + 12) = Some n16 \<Longrightarrow> a_len < 14 + unat n16 \<Longrightarrow>
     amsdu_loop alloc spp_off a b subs pdata a_len = Some subs"
  by (subst amsdu_loop.simps) simp

lemma amsdu_loop_step:
  assumes "14 < a_len" and "pdata + a_len \<le> length b" and "RTW_GET_BE16 b (pdata + 12) = Some n16"
    and "14 + unat n16 \<le> a_len" and "rtw_recv_llc_parse b (pdata + 14) (unat n16) = Some llc"
  shows "amsdu_loop alloc spp_off a b subs pdata a_len =
           (if \<not> validate_amsdu_content spp_off a (take 6 (drop pdata b)) (take 6 (drop (pdata + 6) b)) \<or> \<not> alloc pdata
            then Some subs
            else if MAX_SUBFRAME_COUNT \<le> length subs + 1 then Some (subs @ [subframe_pkt b pdata n16 llc])
            else if a_len - 14 - unat n16 = 0 then Some (subs @ [subframe_pkt b pdata n16 llc])
            else if a_len - 14 - unat n16 < subframe_padding (unat n16) then Some (subs @ [subframe_pkt b pdata n16 llc])
            else amsdu_loop alloc spp_off a b (subs @ [subframe_pkt b pdata n16 llc])
                   (pdata + 14 + unat n16 + subframe_padding (unat n16))
                   (a_len - 14 - unat n16 - subframe_padding (unat n16)))"
proof -
  have da: "rd_slice b pdata 6 = Some (take 6 (drop pdata b))" "rd_slice b (pdata + 6) 6 = Some (take 6 (drop (pdata + 6) b))"
    using assms by (simp_all add: rd_slice_def)
  have "rd_slice b (pdata + 14) (unat n16) = Some (take (unat n16) (drop (pdata + 14) b))"
    using assms by (simp add: rd_slice_def)
  then have pkt: "rtw_os_alloc_msdu_pkt b (take 6 (drop pdata b)) (take 6 (drop (pdata + 6) b)) (pdata + 14) (unat n16) llc =
      Some (subframe_pkt b pdata n16 llc)"
    by (simp add: rtw_os_alloc_msdu_pkt_def subframe_pkt_def)
  have na: "(a_len \<le> 14) = False" "(a_len < 14 + unat n16) = False" using assms(1,4) by auto
  show ?thesis
    unfolding amsdu_loop.simps [of alloc spp_off a b subs pdata a_len]
    by (simp add: na assms(3,5) da pkt amsdu_loop_short Let_def)
qed

lemma amsdu_loop_safe:
  assumes "pdata + a_len \<le> length b" and "length subs < MAX_SUBFRAME_COUNT"
  shows "\<exists>r. amsdu_loop alloc spp_off a b subs pdata a_len = Some r \<and> length r \<le> MAX_SUBFRAME_COUNT"
  using assms
proof (induction a_len arbitrary: subs pdata rule: less_induct)
  case (less a_len)
  show ?case
  proof (cases "14 < a_len")
    case False
    with less.prems(2) show ?thesis by (simp add: amsdu_loop_short)
  next
    case True
    obtain n16 where n: "RTW_GET_BE16 b (pdata + 12) = Some n16"
      using RTW_GET_BE16_Some [of "pdata + 12" b] less.prems(1) True by auto
    show ?thesis
    proof (cases "14 + unat n16 \<le> a_len")
      case False
      with less.prems(2) amsdu_loop_cut [OF True n] show ?thesis by auto
    next
      case fits: True
      obtain llc where llc: "rtw_recv_llc_parse b (pdata + 14) (unat n16) = Some llc"
        using rtw_recv_llc_parse_Some [of "pdata + 14" "unat n16" b] less.prems(1) fits by auto
      let ?pad = "subframe_padding (unat n16)" and ?subs = "subs @ [subframe_pkt b pdata n16 llc]"
      let ?left = "a_len - 14 - unat n16"
      note step = amsdu_loop_step [OF True less.prems(1) n fits llc, of alloc spp_off a subs]
      have rec: "\<exists>r. amsdu_loop alloc spp_off a b ?subs (pdata + 14 + unat n16 + ?pad) (?left - ?pad) = Some r \<and>
          length r \<le> MAX_SUBFRAME_COUNT" if "length subs + 1 < MAX_SUBFRAME_COUNT" "?pad \<le> ?left"
        by (rule less.IH) (use True fits that less.prems(1) in auto)
      show ?thesis unfolding step using less.prems(2) rec by (auto simp: not_le not_less)
    qed
  qed
qed

section \<open>A-MSDUs are split where they were joined\<close>

type_synonym msdu = "bytes \<times> bytes \<times> bytes"

definition msdu_ok :: "msdu \<Rightarrow> bool" where
  "msdu_ok m \<longleftrightarrow> (case m of (da, sa, p) \<Rightarrow> length da = 6 \<and> length sa = 6 \<and> 0 < length p \<and> length p < 65536)"

definition subframe_enc :: "msdu \<Rightarrow> bytes" where
  "subframe_enc m = (case m of (da, sa, p) \<Rightarrow> da @ sa @ RTW_PUT_BE16 (word_of_nat (length p)) @ p)"

text \<open>Subframes one after the other, all but the last padded to a multiple of four.\<close>

fun amsdu_enc :: "msdu list \<Rightarrow> bytes" where
  "amsdu_enc [] = []"
| "amsdu_enc [m] = subframe_enc m"
| "amsdu_enc (m # m' # ms) =
     subframe_enc m @ replicate (subframe_padding (length (snd (snd m)))) 0 @ amsdu_enc (m' # ms)"

text \<open>The Ethernet frame of an MSDU: an RFC 1042 or bridge-tunnel header gives way, other payloads follow their
  length.\<close>

definition llc_encapsulated :: "bytes \<Rightarrow> bool" where
  "llc_encapsulated p \<longleftrightarrow> 8 \<le> length p \<and>
     (take 6 p = rtw_rfc1042_header \<and> take 2 (drop 6 p) \<notin> {[0x80, 0xF3], [0x81, 0x37]} \<or>
      take 6 p = rtw_bridge_tunnel_header)"

definition ether_frame :: "msdu \<Rightarrow> bytes" where
  "ether_frame m = (case m of (da, sa, p) \<Rightarrow>
     da @ sa @ (if llc_encapsulated p then drop 6 p else RTW_PUT_BE16 (word_of_nat (length p)) @ p))"

lemma be16_eq_iff:
  "(push_bit 8 (ucast (a0 :: u8)) OR ucast (a1 :: u8) :: u16) = 0x80F3 \<longleftrightarrow> a0 = 0x80 \<and> a1 = 0xF3"
  "(push_bit 8 (ucast (a0 :: u8)) OR ucast (a1 :: u8) :: u16) = 0x8137 \<longleftrightarrow> a0 = 0x81 \<and> a1 = 0x37"
proof -
  have "(0x80F3 :: u16) = push_bit 8 (ucast (0x80 :: u8)) OR ucast (0xF3 :: u8)"
    "(0x8137 :: u16) = push_bit 8 (ucast (0x81 :: u8)) OR ucast (0x37 :: u8)" by simp_all
  then show "(push_bit 8 (ucast a0) OR ucast a1 :: u16) = 0x80F3 \<longleftrightarrow> a0 = 0x80 \<and> a1 = 0xF3"
    "(push_bit 8 (ucast a0) OR ucast a1 :: u16) = 0x8137 \<longleftrightarrow> a0 = 0x81 \<and> a1 = 0x37"
    by (simp_all only: le16_inject) auto
qed

lemma rtw_recv_llc_parse_eq:
  "rtw_recv_llc_parse (pre @ p @ post) (length pre) (length p) =
     Some (if llc_encapsulated p then RTW_RX_LLC_REMOVE else RTW_RX_LLC_KEEP)"
proof (cases "length p < 8")
  case False
  then have l: "8 \<le> length p" by simp
  have rd: "rd (pre @ p @ post) (length pre + i) = Some (p ! i)" if "i < 8" for i
    using l that by (simp add: rd_append_right rd_def nth_append)
  have be: "RTW_GET_BE16 (pre @ p @ post) (length pre + 6) = Some (push_bit 8 (ucast (p ! 6)) OR ucast (p ! 7))"
    using rd [of 6] rd [of 7] by (simp add: RTW_GET_BE16_def add.assoc add.commute [of 7])
  have cmp: "rtw_memcmp (pre @ p @ post) (length pre) h = Some (take 6 p = h)" if "length h = 6" for h
    using l that by (simp add: rtw_memcmp_in)
  have t2: "take 2 (drop 6 p) = [p ! 6, p ! 7]"
    using l by (auto simp: list_eq_iff_nth_eq less_Suc_eq numeral_2_eq_2)
  show ?thesis using l
    by (simp add: rtw_recv_llc_parse_def be cmp rtw_rfc1042_header_def rtw_bridge_tunnel_header_def llc_encapsulated_def t2
        be16_eq_iff)
qed (simp add: rtw_recv_llc_parse_def llc_encapsulated_def)

lemma subframe_facts:
  assumes "msdu_ok m" and "m = (da, sa, p)" and "b = pre @ subframe_enc m @ post"
  shows "RTW_GET_BE16 b (length pre + 12) = Some (word_of_nat (length p))"
    and "unat (word_of_nat (length p) :: u16) = length p"
    and "take 6 (drop (length pre) b) = da" and "take 6 (drop (length pre + 6) b) = sa"
    and "take (length p) (drop (length pre + 14) b) = p"
    and "rtw_recv_llc_parse b (length pre + 14) (length p) =
           Some (if llc_encapsulated p then RTW_RX_LLC_REMOVE else RTW_RX_LLC_KEEP)"
    and "length (subframe_enc m) = 14 + length p"
proof -
  let ?n = "word_of_nat (length p) :: u16"
  have l: "length da = 6" "length sa = 6" "length p < 65536" using assms(1,2) by (auto simp: msdu_ok_def)
  have e: "b = pre @ da @ sa @ RTW_PUT_BE16 ?n @ p @ post" using assms(2,3) by (simp add: subframe_enc_def)
  have e12: "b = (pre @ da @ sa) @ RTW_PUT_BE16 ?n @ p @ post" "length (pre @ da @ sa) = length pre + 12" using e l by simp_all
  have e14: "b = (pre @ da @ sa @ RTW_PUT_BE16 ?n) @ p @ post" "length (pre @ da @ sa @ RTW_PUT_BE16 ?n) = length pre + 14"
    using e l by simp_all
  have "rd b (length pre + 12) = Some (ucast (drop_bit 8 ?n))" "rd b (length pre + 12 + 1) = Some (ucast (?n AND 0xff))"
    unfolding e12(1) e12(2) [symmetric] by (simp_all add: rd_def nth_append RTW_PUT_BE16_def)
  then show "RTW_GET_BE16 b (length pre + 12) = Some ?n" by (simp add: RTW_GET_BE16_def)
  show "unat ?n = length p" using l(3) by simp
  show "take 6 (drop (length pre) b) = da" "take 6 (drop (length pre + 6) b) = sa"
    using e l by simp_all
  show "take (length p) (drop (length pre + 14) b) = p" unfolding e14(1) e14(2) [symmetric] by simp
  show "rtw_recv_llc_parse b (length pre + 14) (length p) =
      Some (if llc_encapsulated p then RTW_RX_LLC_REMOVE else RTW_RX_LLC_KEEP)"
    unfolding e14(1) e14(2) [symmetric] by (rule rtw_recv_llc_parse_eq)
  show "length (subframe_enc m) = 14 + length p" using assms(2) l by (simp add: subframe_enc_def)
qed

lemma amsdu_loop_enc:
  assumes "\<forall>m \<in> set ms. msdu_ok m \<and> validate_amsdu_content spp_off a (fst m) (fst (snd m))" and "\<forall>i. alloc i"
    and "b = pre @ amsdu_enc ms @ post" and "length subs + length ms \<le> MAX_SUBFRAME_COUNT"
  shows "amsdu_loop alloc spp_off a b subs (length pre) (length (amsdu_enc ms)) = Some (subs @ map ether_frame ms)"
  using assms
proof (induction ms arbitrary: subs pre rule: amsdu_enc.induct)
  case 1
  then show ?case by (simp add: amsdu_loop_short)
next
  case (2 m)
  obtain da sa p where m: "m = (da, sa, p)" by (cases m)
  have ok: "msdu_ok m" using 2 by simp
  note sf = subframe_facts [OF ok m, of b pre post]
  have b: "b = pre @ subframe_enc m @ post" using 2 by simp
  have "14 < length (subframe_enc m)" using sf(7) [OF b] ok m by (simp add: msdu_ok_def)
  from amsdu_loop_step [OF this, of "length pre" b "word_of_nat (length p)"] sf [OF b] 2 m show ?case
    by (simp add: subframe_pkt_def ether_frame_def b)
next
  case (3 m m' ms)
  obtain da sa p where m: "m = (da, sa, p)" by (cases m)
  have ok: "msdu_ok m" using "3.prems" by simp
  let ?pad = "replicate (subframe_padding (length p)) (0 :: u8)"
  have b: "b = pre @ subframe_enc m @ (?pad @ amsdu_enc (m' # ms) @ post)" using "3.prems" m by simp
  note sf = subframe_facts [OF ok m b]
  have len: "length (amsdu_enc (m # m' # ms)) = 14 + length p + subframe_padding (length p) + length (amsdu_enc (m' # ms))"
    using sf(7) m by simp
  have ne: "0 < length (amsdu_enc (m' # ms))"
    by (cases ms; cases m') (auto simp: subframe_enc_def)
  let ?subs = "subs @ [ether_frame m]" and ?pre = "pre @ subframe_enc m @ ?pad"
  have pkt: "subframe_pkt b (length pre) (word_of_nat (length p)) (if llc_encapsulated p then RTW_RX_LLC_REMOVE else RTW_RX_LLC_KEEP) =
      ether_frame m"
    using sf m by (simp add: subframe_pkt_def ether_frame_def)
  have "amsdu_loop alloc spp_off a b subs (length pre) (length (amsdu_enc (m # m' # ms))) =
      amsdu_loop alloc spp_off a b ?subs (length ?pre) (length (amsdu_enc (m' # ms)))"
    using amsdu_loop_step [of "length (amsdu_enc (m # m' # ms))" "length pre" b "word_of_nat (length p)"
        "if llc_encapsulated p then RTW_RX_LLC_REMOVE else RTW_RX_LLC_KEEP" alloc spp_off a subs]
      sf pkt len ne m b "3.prems" by (simp add: add.assoc)
  also have "\<dots> = Some (?subs @ map ether_frame (m' # ms))"
    by (rule "3.IH") (use "3.prems" m in auto)
  finally show ?case by simp
qed

section \<open>Group frames are never replayed\<close>

lemma PN_LESS_iff:
  assumes "unat x < 2 ^ 47" and "unat y < 2 ^ 47"
  shows "PN_LESS_CHK x y \<longleftrightarrow> x < y"
proof -
  have "PN_LESS_CHK x y \<longleftrightarrow> bit (x - y) 47"
    using and_exp_eq_0_iff_not_bit [of "x - y" 47] by (simp add: PN_LESS_CHK_def)
  also have "\<dots> \<longleftrightarrow> bit (unat (x - y)) 47" by (simp add: bit_unsigned_iff)
  also have "\<dots> \<longleftrightarrow> odd (unat (x - y) div 2 ^ 47)" by (rule bit_iff_odd)
  also have "\<dots> \<longleftrightarrow> x < y"
  proof (cases "unat y \<le> unat x")
    case True
    then have "unat (x - y) = unat x - unat y" by (simp only: unat_sub_if_size if_True)
    with True assms have "unat (x - y) div 2 ^ 47 = 0" by simp
    with True show ?thesis by (simp add: word_less_nat_alt)
  next
    case False
    then have "unat (x - y) = unat x + 2 ^ 64 - unat y" by (simp only: unat_sub_if_size word_size if_False) simp
    moreover have "(unat x + 2 ^ 64 - unat y) div 2 ^ 47 = 2 ^ 17 - 1"
      by (rule div_nat_eqI) (use False assms in simp_all)
    ultimately show ?thesis using False by (simp add: word_less_nat_alt)
  qed
  finally show ?thesis .
qed

definition frame_keyid :: "recv_frame \<Rightarrow> nat option" where
  "frame_keyid f = map_option (\<lambda>iv. CCMPH_2_KEYID (le64_word iv)) (rd_slice (buf f) (rx_data f + unat (hdrlen (attrib f))) 8)"

text \<open>A run over group frames: those that pass, in the order they came.\<close>

fun bcast_run :: "u64 list \<Rightarrow> recv_frame list \<Rightarrow> recv_frame list option" where
  "bcast_run iv_seq [] = Some []"
| "bcast_run iv_seq (f # fs) = do {
     (ok, iv') \<leftarrow> recv_bcast_pn_decache True iv_seq f;
     r \<leftarrow> bcast_run iv' fs;
     Some (if ok then f # r else r) }"

text \<open>A frame encrypted with AES whose initialisation vector is there and whose packet number is not 0 and below
  \<open>2 ^ 47\<close>.\<close>

definition group_frame :: "recv_frame \<Rightarrow> bool" where
  "group_frame f \<longleftrightarrow> encrypt (attrib f) = AES_T \<and>
     (\<exists>pn. frame_pn f = Some pn \<and> 0 < pn \<and> unat pn < 2 ^ 47)"

lemma keyid_less: "CCMPH_2_KEYID h < 4"
proof -
  have "(3 :: u64) = mask 2" by (simp add: mask_eq_exp_minus_1)
  moreover have "drop_bit 30 (0x00000000c0000000 :: u64) = 3" by (simp add: mask_eq_exp_minus_1)
  ultimately have "drop_bit 30 (h AND 0x00000000c0000000) = take_bit 2 (drop_bit 30 h)"
    by (simp only: drop_bit_and take_bit_eq_mask)
  moreover have "unat (take_bit 2 (drop_bit 30 h)) < 2 ^ 2"
    by (simp only: unsigned_take_bit_eq take_bit_nat_less_exp)
  ultimately show ?thesis by (simp add: CCMPH_2_KEYID_def)
qed

lemma bcast_step:
  assumes "length iv_seq = 4" and "\<forall>v \<in> set iv_seq. unat v < 2 ^ 47" and "group_frame f"
  obtains k pn where "frame_keyid f = Some k" and "frame_pn f = Some pn" and "k < 4" and "unat pn < 2 ^ 47"
    and "recv_bcast_pn_decache True iv_seq f = Some (if iv_seq ! k < pn then (True, iv_seq[k := pn]) else (False, iv_seq))"
proof -
  obtain iv where iv: "rd_slice (buf f) (rx_data f + unat (hdrlen (attrib f))) 8 = Some iv"
    using assms(3) by (auto simp: group_frame_def frame_pn_def split: bind_splits)
  let ?k = "CCMPH_2_KEYID (le64_word iv)" and ?pn = "CCMPH_2_PN (le64_word iv)"
  have pn: "frame_pn f = Some ?pn" using iv by (simp add: frame_pn_def)
  have p: "0 < ?pn" "unat ?pn < 2 ^ 47" using assms(3) pn by (auto simp: group_frame_def)
  have k: "?k < 4" by (rule keyid_less)
  have old: "unat (iv_seq ! ?k) < 2 ^ 47" using assms(1,2) k by auto
  have "iv_seq ! ?k AND 0x0000ffffffffffff = iv_seq ! ?k"
  proof -
    have "(0x0000ffffffffffff :: u64) = mask 48" by (simp add: mask_eq_exp_minus_1)
    then have "iv_seq ! ?k AND 0x0000ffffffffffff = take_bit 48 (iv_seq ! ?k)" by (simp only: take_bit_eq_mask)
    also have "\<dots> = iv_seq ! ?k"
      using old by (simp add: unsigned_take_bit_eq take_bit_nat_eq_self word_unat_eq_iff)
    finally show ?thesis .
  qed
  moreover have "VALID_PN_CHK ?pn (iv_seq ! ?k) \<longleftrightarrow> iv_seq ! ?k < ?pn"
    using PN_LESS_iff [OF old p(2)] p(1) by (auto simp: VALID_PN_CHK_def)
  ultimately have "recv_bcast_pn_decache True iv_seq f =
      Some (if iv_seq ! ?k < ?pn then (True, iv_seq[?k := ?pn]) else (False, iv_seq))"
    using iv assms(1,3) k by (simp add: recv_bcast_pn_decache_def group_frame_def arr_def Let_def)
  moreover have "frame_keyid f = Some ?k" using iv by (simp add: frame_keyid_def)
  ultimately show ?thesis using that pn k p(2) by blast
qed

lemma bcast_run_increasing:
  assumes "length iv_seq = 4" and "\<forall>v \<in> set iv_seq. unat v < 2 ^ 47" and "\<forall>f \<in> set fs. group_frame f"
  shows "\<exists>acc. bcast_run iv_seq fs = Some acc \<and>
           (\<forall>k<4. sorted_wrt (<) (iv_seq ! k # map (\<lambda>f. the (frame_pn f)) (filter (\<lambda>f. frame_keyid f = Some k) acc)))"
  using assms
proof (induction fs arbitrary: iv_seq)
  case (Cons f fs)
  from bcast_step [OF Cons.prems(1,2)] Cons.prems(3) obtain j pn where
    f: "frame_keyid f = Some j" "frame_pn f = Some pn" "j < 4" "unat pn < 2 ^ 47"
    "recv_bcast_pn_decache True iv_seq f = Some (if iv_seq ! j < pn then (True, iv_seq[j := pn]) else (False, iv_seq))"
    by (metis list.set_intros(1))
  show ?case
  proof (cases "iv_seq ! j < pn")
    case False
    then show ?thesis using f(5) Cons.IH [OF Cons.prems(1,2)] Cons.prems(3) by auto
  next
    case True
    have "\<forall>v \<in> set (iv_seq[j := pn]). unat v < 2 ^ 47"
      using Cons.prems(2) f(4) set_update_subset_insert [of iv_seq j pn] by auto
    with Cons.IH [of "iv_seq[j := pn]"] Cons.prems obtain acc where
      acc: "bcast_run (iv_seq[j := pn]) fs = Some acc"
      "\<forall>k<4. sorted_wrt (<) (iv_seq[j := pn] ! k # map (\<lambda>f. the (frame_pn f)) (filter (\<lambda>f. frame_keyid f = Some k) acc))"
      by auto
    show ?thesis
    proof (intro exI conjI allI impI)
      show "bcast_run iv_seq (f # fs) = Some (f # acc)" using True f(5) acc(1) by simp
      fix k :: nat
      assume "k < 4"
      with acc(2) have "sorted_wrt (<) (iv_seq[j := pn] ! k # map (\<lambda>f. the (frame_pn f)) (filter (\<lambda>f. frame_keyid f = Some k) acc))"
        by blast
      then show "sorted_wrt (<) (iv_seq ! k # map (\<lambda>f. the (frame_pn f)) (filter (\<lambda>f. frame_keyid f = Some k) (f # acc)))"
        using True f(1,2,3) Cons.prems(1) by (cases "k = j") (auto intro: less_trans)
    qed
  qed
qed simp

section \<open>Properties\<close>

lemma amsdu_strip_wf: "frame_wf f \<Longrightarrow> frame_wf (amsdu_strip f)"
  by (simp add: amsdu_strip_def Let_def frame_wf_ops)

text \<open>C25: Whatever bytes an A-MSDU holds, splitting it ends, reads nothing outside the frame's buffer and
  collects at most 64 subframes, the size of the array that takes them.\<close>

theorem amsdu_to_msdu_safe:
  assumes "frame_wf f"
  shows "\<exists>subs pool'. amsdu_to_msdu alloc spp_off f pool = Some (subs, pool') \<and> length subs \<le> MAX_SUBFRAME_COUNT"
proof -
  let ?g = "amsdu_strip f"
  have "rx_data ?g + len ?g \<le> length (buf ?g)" using amsdu_strip_wf [OF assms] by (auto simp: frame_wf_def)
  from amsdu_loop_safe [OF this, of "[]" alloc spp_off "attrib f"] show ?thesis
    by (auto simp: amsdu_to_msdu_def MAX_SUBFRAME_COUNT_def Let_def)
qed

theorem amsdu_to_msdu_safe_witness:
  "\<exists>subs pool'. amsdu_to_msdu (\<lambda>_. True) True (ex_frag 0 (replicate 40 255)) [] = Some (subs, pool') \<and>
     length subs \<le> MAX_SUBFRAME_COUNT"
  by (rule amsdu_to_msdu_safe) (simp add: frame_wf_def ex_frag_def)




definition ex_group :: "u8 \<Rightarrow> recv_frame" where
  "ex_group n = (ex_frag 0 (replicate 24 8 @ [n, 0, 0, 0x20, 0, 0, 0, 0]))
     \<lparr>attrib := (attrib (ex_frag 0 []))\<lparr>encrypt := AES_T\<rparr>\<rparr>"

lemma ex_group_frame: "group_frame (ex_group 1)" "frame_pn (ex_group 1) = Some 1" "group_frame (ex_group 2)"
  by (simp_all add: group_frame_def frame_pn_def ex_group_def ex_frag_def rd_slice_def le64_word_def CCMPH_2_PN_def)


text \<open>A retransmission that follows its original is dropped: once \<open>recv_decache\<close> has let a frame pass, it refuses
  the same frame, counts a duplicate and changes nothing else.\<close>

lemma recv_decache_duplicate:
  assumes "recv_decache s f = Some (True, s')"
  shows "recv_decache s' f = Some (False, s'\<lparr>duplicate_cnt := duplicate_cnt s' + 1\<rparr>)"
proof -
  define sc where "sc = push_bit 4 (seq_num (attrib f) AND 0xffff) OR (ucast (frag_num (attrib f)) AND 0xf)"
  note def = recv_decache_def [of _ f, unfolded Let_def, folded sc_def]
  show ?thesis
    by (cases "qos (attrib f)"; cases "IS_MCAST (ra (attrib f))")
      (use assms in \<open>auto simp: def arr_def split: if_splits\<close>)
qed



end
