(* ===== verification/Crypto_Aes.thy ===== *)
theory Crypto_Aes
  imports Prelude
begin

text \<open>
  AES, the block cipher of \<^verbatim>\<open>core/crypto/aes-internal.c\<close> and \<^verbatim>\<open>core/crypto/aes-internal-enc.c\<close> as it is
  compiled, with \<open>AES_SMALL_TABLES\<close> (\<^verbatim>\<open>core/crypto/aes_i.h\<close>): one table of 256 words that holds the
  S-box and the column mixing together, the key schedules for three key lengths, and the rounds
  two at a time. The second half of the theory states the cipher as FIPS 197 does, on the bytes
  of the state with the field of 256 elements, and shows that the table code computes it.
\<close>

section \<open>The tables and the macros\<close>

definition Te0 :: "u32 list" where
  "Te0 =
   [0xc66363a5, 0xf87c7c84, 0xee777799, 0xf67b7b8d, 0xfff2f20d, 0xd66b6bbd, 0xde6f6fb1, 0x91c5c554,
    0x60303050, 0x02010103, 0xce6767a9, 0x562b2b7d, 0xe7fefe19, 0xb5d7d762, 0x4dababe6, 0xec76769a,
    0x8fcaca45, 0x1f82829d, 0x89c9c940, 0xfa7d7d87, 0xeffafa15, 0xb25959eb, 0x8e4747c9, 0xfbf0f00b,
    0x41adadec, 0xb3d4d467, 0x5fa2a2fd, 0x45afafea, 0x239c9cbf, 0x53a4a4f7, 0xe4727296, 0x9bc0c05b,
    0x75b7b7c2, 0xe1fdfd1c, 0x3d9393ae, 0x4c26266a, 0x6c36365a, 0x7e3f3f41, 0xf5f7f702, 0x83cccc4f,
    0x6834345c, 0x51a5a5f4, 0xd1e5e534, 0xf9f1f108, 0xe2717193, 0xabd8d873, 0x62313153, 0x2a15153f,
    0x0804040c, 0x95c7c752, 0x46232365, 0x9dc3c35e, 0x30181828, 0x379696a1, 0x0a05050f, 0x2f9a9ab5,
    0x0e070709, 0x24121236, 0x1b80809b, 0xdfe2e23d, 0xcdebeb26, 0x4e272769, 0x7fb2b2cd, 0xea75759f,
    0x1209091b, 0x1d83839e, 0x582c2c74, 0x341a1a2e, 0x361b1b2d, 0xdc6e6eb2, 0xb45a5aee, 0x5ba0a0fb,
    0xa45252f6, 0x763b3b4d, 0xb7d6d661, 0x7db3b3ce, 0x5229297b, 0xdde3e33e, 0x5e2f2f71, 0x13848497,
    0xa65353f5, 0xb9d1d168, 0x00000000, 0xc1eded2c, 0x40202060, 0xe3fcfc1f, 0x79b1b1c8, 0xb65b5bed,
    0xd46a6abe, 0x8dcbcb46, 0x67bebed9, 0x7239394b, 0x944a4ade, 0x984c4cd4, 0xb05858e8, 0x85cfcf4a,
    0xbbd0d06b, 0xc5efef2a, 0x4faaaae5, 0xedfbfb16, 0x864343c5, 0x9a4d4dd7, 0x66333355, 0x11858594,
    0x8a4545cf, 0xe9f9f910, 0x04020206, 0xfe7f7f81, 0xa05050f0, 0x783c3c44, 0x259f9fba, 0x4ba8a8e3,
    0xa25151f3, 0x5da3a3fe, 0x804040c0, 0x058f8f8a, 0x3f9292ad, 0x219d9dbc, 0x70383848, 0xf1f5f504,
    0x63bcbcdf, 0x77b6b6c1, 0xafdada75, 0x42212163, 0x20101030, 0xe5ffff1a, 0xfdf3f30e, 0xbfd2d26d,
    0x81cdcd4c, 0x180c0c14, 0x26131335, 0xc3ecec2f, 0xbe5f5fe1, 0x359797a2, 0x884444cc, 0x2e171739,
    0x93c4c457, 0x55a7a7f2, 0xfc7e7e82, 0x7a3d3d47, 0xc86464ac, 0xba5d5de7, 0x3219192b, 0xe6737395,
    0xc06060a0, 0x19818198, 0x9e4f4fd1, 0xa3dcdc7f, 0x44222266, 0x542a2a7e, 0x3b9090ab, 0x0b888883,
    0x8c4646ca, 0xc7eeee29, 0x6bb8b8d3, 0x2814143c, 0xa7dede79, 0xbc5e5ee2, 0x160b0b1d, 0xaddbdb76,
    0xdbe0e03b, 0x64323256, 0x743a3a4e, 0x140a0a1e, 0x924949db, 0x0c06060a, 0x4824246c, 0xb85c5ce4,
    0x9fc2c25d, 0xbdd3d36e, 0x43acacef, 0xc46262a6, 0x399191a8, 0x319595a4, 0xd3e4e437, 0xf279798b,
    0xd5e7e732, 0x8bc8c843, 0x6e373759, 0xda6d6db7, 0x018d8d8c, 0xb1d5d564, 0x9c4e4ed2, 0x49a9a9e0,
    0xd86c6cb4, 0xac5656fa, 0xf3f4f407, 0xcfeaea25, 0xca6565af, 0xf47a7a8e, 0x47aeaee9, 0x10080818,
    0x6fbabad5, 0xf0787888, 0x4a25256f, 0x5c2e2e72, 0x381c1c24, 0x57a6a6f1, 0x73b4b4c7, 0x97c6c651,
    0xcbe8e823, 0xa1dddd7c, 0xe874749c, 0x3e1f1f21, 0x964b4bdd, 0x61bdbddc, 0x0d8b8b86, 0x0f8a8a85,
    0xe0707090, 0x7c3e3e42, 0x71b5b5c4, 0xcc6666aa, 0x904848d8, 0x06030305, 0xf7f6f601, 0x1c0e0e12,
    0xc26161a3, 0x6a35355f, 0xae5757f9, 0x69b9b9d0, 0x17868691, 0x99c1c158, 0x3a1d1d27, 0x279e9eb9,
    0xd9e1e138, 0xebf8f813, 0x2b9898b3, 0x22111133, 0xd26969bb, 0xa9d9d970, 0x078e8e89, 0x339494a7,
    0x2d9b9bb6, 0x3c1e1e22, 0x15878792, 0xc9e9e920, 0x87cece49, 0xaa5555ff, 0x50282878, 0xa5dfdf7a,
    0x038c8c8f, 0x59a1a1f8, 0x09898980, 0x1a0d0d17, 0x65bfbfda, 0xd7e6e631, 0x844242c6, 0xd06868b8,
    0x824141c3, 0x299999b0, 0x5a2d2d77, 0x1e0f0f11, 0x7bb0b0cb, 0xa85454fc, 0x6dbbbbd6, 0x2c16163a]"

definition rcons :: "u8 list" where
  "rcons = [0x01, 0x02, 0x04, 0x08, 0x10, 0x20, 0x40, 0x80, 0x1B, 0x36]"

definition RCON :: "nat \<Rightarrow> u32" where "RCON i = push_bit 24 (ucast (rcons ! i))"

definition rotr :: "u32 \<Rightarrow> nat \<Rightarrow> u32" where
  "rotr val bits = drop_bit bits val OR push_bit (32 - bits) val"

definition TE0 :: "u32 \<Rightarrow> u32" where "TE0 i = Te0 ! unat (drop_bit 24 i AND 0xff)"
definition TE1 :: "u32 \<Rightarrow> u32" where "TE1 i = rotr (Te0 ! unat (drop_bit 16 i AND 0xff)) 8"
definition TE2 :: "u32 \<Rightarrow> u32" where "TE2 i = rotr (Te0 ! unat (drop_bit 8 i AND 0xff)) 16"
definition TE3 :: "u32 \<Rightarrow> u32" where "TE3 i = rotr (Te0 ! unat (i AND 0xff)) 24"
definition TE41 :: "u32 \<Rightarrow> u32" where "TE41 i = push_bit 8 (Te0 ! unat (drop_bit 24 i AND 0xff)) AND 0xff000000"
definition TE42 :: "u32 \<Rightarrow> u32" where "TE42 i = Te0 ! unat (drop_bit 16 i AND 0xff) AND 0x00ff0000"
definition TE43 :: "u32 \<Rightarrow> u32" where "TE43 i = Te0 ! unat (drop_bit 8 i AND 0xff) AND 0x0000ff00"
definition TE44 :: "u32 \<Rightarrow> u32" where "TE44 i = drop_bit 8 (Te0 ! unat (i AND 0xff)) AND 0x000000ff"
definition TE421 :: "u32 \<Rightarrow> u32" where "TE421 i = push_bit 8 (Te0 ! unat (drop_bit 16 i AND 0xff)) AND 0xff000000"
definition TE432 :: "u32 \<Rightarrow> u32" where "TE432 i = Te0 ! unat (drop_bit 8 i AND 0xff) AND 0x00ff0000"
definition TE443 :: "u32 \<Rightarrow> u32" where "TE443 i = Te0 ! unat (i AND 0xff) AND 0x0000ff00"
definition TE414 :: "u32 \<Rightarrow> u32" where "TE414 i = drop_bit 8 (Te0 ! unat (drop_bit 24 i AND 0xff)) AND 0x000000ff"
definition TE411 :: "u32 \<Rightarrow> u32" where "TE411 i = push_bit 8 (Te0 ! unat (drop_bit 24 i AND 0xff)) AND 0xff000000"
definition TE422 :: "u32 \<Rightarrow> u32" where "TE422 i = Te0 ! unat (drop_bit 16 i AND 0xff) AND 0x00ff0000"
definition TE433 :: "u32 \<Rightarrow> u32" where "TE433 i = Te0 ! unat (drop_bit 8 i AND 0xff) AND 0x0000ff00"
definition TE444 :: "u32 \<Rightarrow> u32" where "TE444 i = drop_bit 8 (Te0 ! unat (i AND 0xff)) AND 0x000000ff"

definition GETU32 :: "bytes \<Rightarrow> nat \<Rightarrow> u32 option" where
  "GETU32 b i = do {
     b0 \<leftarrow> rd b i; b1 \<leftarrow> rd b (i + 1); b2 \<leftarrow> rd b (i + 2); b3 \<leftarrow> rd b (i + 3);
     Some (push_bit 24 (ucast b0) XOR push_bit 16 (ucast b1) XOR push_bit 8 (ucast b2) XOR ucast b3) }"

definition PUTU32 :: "u32 \<Rightarrow> bytes" where
  "PUTU32 st = [ucast (drop_bit 24 st), ucast (drop_bit 16 st), ucast (drop_bit 8 st), ucast st]"

section \<open>The key schedule\<close>

text \<open>The array \<open>rk\<close> is filled from its start without gaps, so it is the list of the words written so far;
  after \<open>i\<close> turns of a loop the pointer stands at \<open>4 * i\<close>, \<open>6 * i\<close> or \<open>8 * i\<close>. Each turn appends its words.\<close>

definition key_setup_128 :: "u32 list \<Rightarrow> nat \<Rightarrow> u32 list" where
  "key_setup_128 rk i =
     (let p = 4 * i;
          temp = rk ! (p + 3);
          r4 = rk ! p XOR TE421 temp XOR TE432 temp XOR TE443 temp XOR TE414 temp XOR RCON i;
          r5 = rk ! (p + 1) XOR r4;
          r6 = rk ! (p + 2) XOR r5;
          r7 = rk ! (p + 3) XOR r6
      in rk @ [r4, r5, r6, r7])"

definition key_setup_192 :: "u32 list \<Rightarrow> nat \<Rightarrow> u32 list" where
  "key_setup_192 rk i =
     (let p = 6 * i;
          temp = rk ! (p + 5);
          r6 = rk ! p XOR TE421 temp XOR TE432 temp XOR TE443 temp XOR TE414 temp XOR RCON i;
          r7 = rk ! (p + 1) XOR r6;
          r8 = rk ! (p + 2) XOR r7;
          r9 = rk ! (p + 3) XOR r8
      in if i = 7 then rk @ [r6, r7, r8, r9]
         else (let r10 = rk ! (p + 4) XOR r9; r11 = rk ! (p + 5) XOR r10 in rk @ [r6, r7, r8, r9, r10, r11]))"

definition key_setup_256 :: "u32 list \<Rightarrow> nat \<Rightarrow> u32 list" where
  "key_setup_256 rk i =
     (let p = 8 * i;
          temp = rk ! (p + 7);
          r8 = rk ! p XOR TE421 temp XOR TE432 temp XOR TE443 temp XOR TE414 temp XOR RCON i;
          r9 = rk ! (p + 1) XOR r8;
          r10 = rk ! (p + 2) XOR r9;
          r11 = rk ! (p + 3) XOR r10
      in if i = 6 then rk @ [r8, r9, r10, r11]
         else
           (let r12 = rk ! (p + 4) XOR TE411 r11 XOR TE422 r11 XOR TE433 r11 XOR TE444 r11;
                r13 = rk ! (p + 5) XOR r12;
                r14 = rk ! (p + 6) XOR r13;
                r15 = rk ! (p + 7) XOR r14
            in rk @ [r8, r9, r10, r11, r12, r13, r14, r15]))"

text \<open>The number of rounds, negative for a key length there is none for, and the array.\<close>

definition rijndaelKeySetupEnc :: "bytes \<Rightarrow> nat \<Rightarrow> (int \<times> u32 list) option" where
  "rijndaelKeySetupEnc cipherKey keyBits = do {
     k0 \<leftarrow> GETU32 cipherKey 0; k1 \<leftarrow> GETU32 cipherKey 4;
     k2 \<leftarrow> GETU32 cipherKey 8; k3 \<leftarrow> GETU32 cipherKey 12;
     if keyBits = 128 then Some (10, foldl key_setup_128 [k0, k1, k2, k3] [0..<10])
     else do {
       k4 \<leftarrow> GETU32 cipherKey 16; k5 \<leftarrow> GETU32 cipherKey 20;
       if keyBits = 192 then Some (12, foldl key_setup_192 [k0, k1, k2, k3, k4, k5] [0..<8])
       else do {
         k6 \<leftarrow> GETU32 cipherKey 24; k7 \<leftarrow> GETU32 cipherKey 28;
         Some (if keyBits = 256 then (14, foldl key_setup_256 [k0, k1, k2, k3, k4, k5, k6, k7] [0..<7])
               else (- 1, [k0, k1, k2, k3, k4, k5, k6, k7])) } } }"

section \<open>The rounds\<close>

type_synonym cols = "u32 \<times> u32 \<times> u32 \<times> u32"

definition rk4 :: "u32 list \<Rightarrow> nat \<Rightarrow> cols option" where
  "rk4 rk p = (if p + 4 \<le> length rk then Some (rk ! p, rk ! (p + 1), rk ! (p + 2), rk ! (p + 3)) else None)"

text \<open>The macro \<open>ROUND\<close> with the round key at \<open>p\<close>.\<close>

definition ROUND :: "u32 list \<Rightarrow> nat \<Rightarrow> cols \<Rightarrow> cols option" where
  "ROUND rk p s = do {
     (k0, k1, k2, k3) \<leftarrow> rk4 rk p;
     let (s0, s1, s2, s3) = s;
     Some (TE0 s0 XOR TE1 s1 XOR TE2 s2 XOR TE3 s3 XOR k0,
           TE0 s1 XOR TE1 s2 XOR TE2 s3 XOR TE3 s0 XOR k1,
           TE0 s2 XOR TE1 s3 XOR TE2 s0 XOR TE3 s1 XOR k2,
           TE0 s3 XOR TE1 s0 XOR TE2 s1 XOR TE3 s2 XOR k3) }"

text \<open>The loop over \<open>r = Nr >> 1\<close>; the pointer \<open>rk\<close> stands at \<open>p\<close>. It leaves the loop when \<open>r\<close> gets to
  zero, which it does not when it starts there.\<close>

fun rijndael_rounds :: "u32 list \<Rightarrow> nat \<Rightarrow> nat \<Rightarrow> cols \<Rightarrow> (cols \<times> nat) option" where
  "rijndael_rounds rk p 0 s = None"
| "rijndael_rounds rk p (Suc r) s = do {
     t \<leftarrow> ROUND rk (p + 4) s;
     if r = 0 then Some (t, p + 8)
     else do { s' \<leftarrow> ROUND rk (p + 8) t; rijndael_rounds rk (p + 8) r s' } }"

definition rijndaelEncrypt :: "u32 list \<Rightarrow> nat \<Rightarrow> bytes \<Rightarrow> bytes option" where
  "rijndaelEncrypt rk Nr pt = do {
     (k0, k1, k2, k3) \<leftarrow> rk4 rk 0;
     p0 \<leftarrow> GETU32 pt 0; p1 \<leftarrow> GETU32 pt 4; p2 \<leftarrow> GETU32 pt 8; p3 \<leftarrow> GETU32 pt 12;
     (t, p) \<leftarrow> rijndael_rounds rk 0 (Nr div 2) (p0 XOR k0, p1 XOR k1, p2 XOR k2, p3 XOR k3);
     (l0, l1, l2, l3) \<leftarrow> rk4 rk p;
     let (t0, t1, t2, t3) = t;
     Some (PUTU32 (TE41 t0 XOR TE42 t1 XOR TE43 t2 XOR TE44 t3 XOR l0) @
           PUTU32 (TE41 t1 XOR TE42 t2 XOR TE43 t3 XOR TE44 t0 XOR l1) @
           PUTU32 (TE41 t2 XOR TE42 t3 XOR TE43 t0 XOR TE44 t1 XOR l2) @
           PUTU32 (TE41 t3 XOR TE42 t0 XOR TE43 t1 XOR TE44 t2 XOR l3)) }"

section \<open>The interface\<close>

text \<open>The context: the words of the schedule and the word \<open>AES_PRIV_NR_POS\<close>. \<open>mem n\<close> tells whether
  \<open>os_malloc\<close> has \<open>n\<close> bytes; \<^const>\<open>None\<close> inside is the NULL returned.\<close>

definition AES_PRIV_SIZE :: nat where "AES_PRIV_SIZE = 4 * 4 * 15 + 4"

record aes_ctx =
  aes_rk :: "u32 list"
  aes_Nr :: nat

definition aes_encrypt_init :: "(nat \<Rightarrow> bool) \<Rightarrow> bytes \<Rightarrow> nat \<Rightarrow> aes_ctx option option" where
  "aes_encrypt_init mem key keylen =
     (if \<not> mem AES_PRIV_SIZE then Some None
      else do {
        (res, rk) \<leftarrow> rijndaelKeySetupEnc key (keylen * 8);
        Some (if res < 0 then None else Some \<lparr>aes_rk = rk, aes_Nr = nat res\<rparr>) })"

definition aes_encrypt :: "aes_ctx \<Rightarrow> bytes \<Rightarrow> bytes option" where
  "aes_encrypt ctx plain = rijndaelEncrypt (aes_rk ctx) (aes_Nr ctx) plain"

section \<open>The cipher as FIPS 197 states it\<close>

text \<open>The field of 256 elements with the polynomial \<open>x^8 + x^4 + x^3 + x + 1\<close>.\<close>

definition xtime :: "u8 \<Rightarrow> u8" where
  "xtime b = (if bit b 7 then push_bit 1 b XOR 0x1b else push_bit 1 b)"

fun gmul_loop :: "nat \<Rightarrow> u8 \<Rightarrow> u8 \<Rightarrow> u8" where
  "gmul_loop 0 a b = 0"
| "gmul_loop (Suc n) a b = (if bit b 0 then a else 0) XOR gmul_loop n (xtime a) (drop_bit 1 b)"

definition gmul :: "u8 \<Rightarrow> u8 \<Rightarrow> u8" where "gmul a b = gmul_loop 8 a b"

text \<open>The S-box: the inverse in the field (zero for zero) followed by an affine map, as a table.\<close>

definition rotl8 :: "u8 \<Rightarrow> nat \<Rightarrow> u8" where "rotl8 b n = push_bit n b OR drop_bit (8 - n) b"

definition affine :: "u8 \<Rightarrow> u8" where
  "affine b = b XOR rotl8 b 1 XOR rotl8 b 2 XOR rotl8 b 3 XOR rotl8 b 4 XOR 0x63"

definition ginv_table :: bytes where
  "ginv_table =
   [0x00, 0x01, 0x8d, 0xf6, 0xcb, 0x52, 0x7b, 0xd1, 0xe8, 0x4f, 0x29, 0xc0, 0xb0, 0xe1, 0xe5, 0xc7,
    0x74, 0xb4, 0xaa, 0x4b, 0x99, 0x2b, 0x60, 0x5f, 0x58, 0x3f, 0xfd, 0xcc, 0xff, 0x40, 0xee, 0xb2,
    0x3a, 0x6e, 0x5a, 0xf1, 0x55, 0x4d, 0xa8, 0xc9, 0xc1, 0x0a, 0x98, 0x15, 0x30, 0x44, 0xa2, 0xc2,
    0x2c, 0x45, 0x92, 0x6c, 0xf3, 0x39, 0x66, 0x42, 0xf2, 0x35, 0x20, 0x6f, 0x77, 0xbb, 0x59, 0x19,
    0x1d, 0xfe, 0x37, 0x67, 0x2d, 0x31, 0xf5, 0x69, 0xa7, 0x64, 0xab, 0x13, 0x54, 0x25, 0xe9, 0x09,
    0xed, 0x5c, 0x05, 0xca, 0x4c, 0x24, 0x87, 0xbf, 0x18, 0x3e, 0x22, 0xf0, 0x51, 0xec, 0x61, 0x17,
    0x16, 0x5e, 0xaf, 0xd3, 0x49, 0xa6, 0x36, 0x43, 0xf4, 0x47, 0x91, 0xdf, 0x33, 0x93, 0x21, 0x3b,
    0x79, 0xb7, 0x97, 0x85, 0x10, 0xb5, 0xba, 0x3c, 0xb6, 0x70, 0xd0, 0x06, 0xa1, 0xfa, 0x81, 0x82,
    0x83, 0x7e, 0x7f, 0x80, 0x96, 0x73, 0xbe, 0x56, 0x9b, 0x9e, 0x95, 0xd9, 0xf7, 0x02, 0xb9, 0xa4,
    0xde, 0x6a, 0x32, 0x6d, 0xd8, 0x8a, 0x84, 0x72, 0x2a, 0x14, 0x9f, 0x88, 0xf9, 0xdc, 0x89, 0x9a,
    0xfb, 0x7c, 0x2e, 0xc3, 0x8f, 0xb8, 0x65, 0x48, 0x26, 0xc8, 0x12, 0x4a, 0xce, 0xe7, 0xd2, 0x62,
    0x0c, 0xe0, 0x1f, 0xef, 0x11, 0x75, 0x78, 0x71, 0xa5, 0x8e, 0x76, 0x3d, 0xbd, 0xbc, 0x86, 0x57,
    0x0b, 0x28, 0x2f, 0xa3, 0xda, 0xd4, 0xe4, 0x0f, 0xa9, 0x27, 0x53, 0x04, 0x1b, 0xfc, 0xac, 0xe6,
    0x7a, 0x07, 0xae, 0x63, 0xc5, 0xdb, 0xe2, 0xea, 0x94, 0x8b, 0xc4, 0xd5, 0x9d, 0xf8, 0x90, 0x6b,
    0xb1, 0x0d, 0xd6, 0xeb, 0xc6, 0x0e, 0xcf, 0xad, 0x08, 0x4e, 0xd7, 0xe3, 0x5d, 0x50, 0x1e, 0xb3,
    0x5b, 0x23, 0x38, 0x34, 0x68, 0x46, 0x03, 0x8c, 0xdd, 0x9c, 0x7d, 0xa0, 0xcd, 0x1a, 0x41, 0x1c]"


definition sbox_table :: bytes where
  "sbox_table =
   [0x63, 0x7c, 0x77, 0x7b, 0xf2, 0x6b, 0x6f, 0xc5, 0x30, 0x01, 0x67, 0x2b, 0xfe, 0xd7, 0xab, 0x76,
    0xca, 0x82, 0xc9, 0x7d, 0xfa, 0x59, 0x47, 0xf0, 0xad, 0xd4, 0xa2, 0xaf, 0x9c, 0xa4, 0x72, 0xc0,
    0xb7, 0xfd, 0x93, 0x26, 0x36, 0x3f, 0xf7, 0xcc, 0x34, 0xa5, 0xe5, 0xf1, 0x71, 0xd8, 0x31, 0x15,
    0x04, 0xc7, 0x23, 0xc3, 0x18, 0x96, 0x05, 0x9a, 0x07, 0x12, 0x80, 0xe2, 0xeb, 0x27, 0xb2, 0x75,
    0x09, 0x83, 0x2c, 0x1a, 0x1b, 0x6e, 0x5a, 0xa0, 0x52, 0x3b, 0xd6, 0xb3, 0x29, 0xe3, 0x2f, 0x84,
    0x53, 0xd1, 0x00, 0xed, 0x20, 0xfc, 0xb1, 0x5b, 0x6a, 0xcb, 0xbe, 0x39, 0x4a, 0x4c, 0x58, 0xcf,
    0xd0, 0xef, 0xaa, 0xfb, 0x43, 0x4d, 0x33, 0x85, 0x45, 0xf9, 0x02, 0x7f, 0x50, 0x3c, 0x9f, 0xa8,
    0x51, 0xa3, 0x40, 0x8f, 0x92, 0x9d, 0x38, 0xf5, 0xbc, 0xb6, 0xda, 0x21, 0x10, 0xff, 0xf3, 0xd2,
    0xcd, 0x0c, 0x13, 0xec, 0x5f, 0x97, 0x44, 0x17, 0xc4, 0xa7, 0x7e, 0x3d, 0x64, 0x5d, 0x19, 0x73,
    0x60, 0x81, 0x4f, 0xdc, 0x22, 0x2a, 0x90, 0x88, 0x46, 0xee, 0xb8, 0x14, 0xde, 0x5e, 0x0b, 0xdb,
    0xe0, 0x32, 0x3a, 0x0a, 0x49, 0x06, 0x24, 0x5c, 0xc2, 0xd3, 0xac, 0x62, 0x91, 0x95, 0xe4, 0x79,
    0xe7, 0xc8, 0x37, 0x6d, 0x8d, 0xd5, 0x4e, 0xa9, 0x6c, 0x56, 0xf4, 0xea, 0x65, 0x7a, 0xae, 0x08,
    0xba, 0x78, 0x25, 0x2e, 0x1c, 0xa6, 0xb4, 0xc6, 0xe8, 0xdd, 0x74, 0x1f, 0x4b, 0xbd, 0x8b, 0x8a,
    0x70, 0x3e, 0xb5, 0x66, 0x48, 0x03, 0xf6, 0x0e, 0x61, 0x35, 0x57, 0xb9, 0x86, 0xc1, 0x1d, 0x9e,
    0xe1, 0xf8, 0x98, 0x11, 0x69, 0xd9, 0x8e, 0x94, 0x9b, 0x1e, 0x87, 0xe9, 0xce, 0x55, 0x28, 0xdf,
    0x8c, 0xa1, 0x89, 0x0d, 0xbf, 0xe6, 0x42, 0x68, 0x41, 0x99, 0x2d, 0x0f, 0xb0, 0x54, 0xbb, 0x16]"

definition sbox :: "u8 \<Rightarrow> u8" where "sbox b = sbox_table ! unat b"

definition be32 :: "u8 \<Rightarrow> u8 \<Rightarrow> u8 \<Rightarrow> u8 \<Rightarrow> u32" where
  "be32 a b c d = push_bit 24 (ucast a) XOR push_bit 16 (ucast b) XOR push_bit 8 (ucast c) XOR ucast d"

definition te_word :: "u8 \<Rightarrow> u32" where "te_word s = be32 (xtime s) s s (xtime s XOR s)"

definition SubBytes :: "bytes \<Rightarrow> bytes" where "SubBytes st = map sbox st"

definition ShiftRows :: "bytes \<Rightarrow> bytes" where
  "ShiftRows st = map (\<lambda>i. st ! i) [0, 5, 10, 15, 4, 9, 14, 3, 8, 13, 2, 7, 12, 1, 6, 11]"

fun MixColumns :: "bytes \<Rightarrow> bytes" where
  "MixColumns (a # b # c # d # st) =
     (gmul a 2 XOR gmul b 3 XOR c XOR d) # (a XOR gmul b 2 XOR gmul c 3 XOR d) #
     (a XOR b XOR gmul c 2 XOR gmul d 3) # (gmul a 3 XOR b XOR c XOR gmul d 2) # MixColumns st"
| "MixColumns st = []"

definition AddRoundKey :: "bytes \<Rightarrow> bytes \<Rightarrow> bytes" where "AddRoundKey st k = map2 (XOR) st k"

text \<open>The schedule as a list of four-byte words; \<open>Nk\<close> is the number of words of the key.\<close>

definition next_word :: "nat \<Rightarrow> bytes list \<Rightarrow> bytes" where
  "next_word Nk w =
     (let i = length w;
          temp = last w;
          temp' = (if i mod Nk = 0 then map2 (XOR) (map sbox (tl temp @ [hd temp])) [(xtime ^^ (i div Nk - 1)) 1, 0, 0, 0]
                   else if 6 < Nk \<and> i mod Nk = 4 then map sbox temp
                   else temp)
      in map2 (XOR) (w ! (i - Nk)) temp')"

fun key_words :: "nat \<Rightarrow> nat \<Rightarrow> bytes list \<Rightarrow> bytes list" where
  "key_words Nk 0 w = w"
| "key_words Nk (Suc n) w = key_words Nk n (w @ [next_word Nk w])"

fun words_of :: "bytes \<Rightarrow> bytes list" where
  "words_of (a # b # c # d # k) = [a, b, c, d] # words_of k"
| "words_of k = []"

definition KeyExpansion :: "bytes \<Rightarrow> bytes list" where
  "KeyExpansion key = (let Nk = length key div 4 in key_words Nk (4 * (Nk + 7) - Nk) (words_of key))"

definition round_key :: "bytes list \<Rightarrow> nat \<Rightarrow> bytes" where
  "round_key w r = concat (take 4 (drop (4 * r) w))"

definition Round :: "bytes \<Rightarrow> bytes \<Rightarrow> bytes" where
  "Round st k = AddRoundKey (MixColumns (ShiftRows (SubBytes st))) k"

definition Cipher :: "bytes \<Rightarrow> bytes \<Rightarrow> bytes" where
  "Cipher key inp =
     (let Nr = length key div 4 + 6;
          w = KeyExpansion key;
          st = foldl (\<lambda>st r. Round st (round_key w r)) (AddRoundKey inp (round_key w 0)) [1..<Nr]
      in AddRoundKey (ShiftRows (SubBytes st)) (round_key w Nr))"

section \<open>The tables are the ones of the standard\<close>

text \<open>The S-box is the inverse followed by the affine map, and the table of the code is the S-box with the
  column mixing.\<close>

lemma ginv_check:
  "map2 gmul
     [1, 2, 3, 4, 5, 6, 7, 8, 9, 10, 11, 12, 13, 14, 15, 16, 17, 18, 19, 20,
      21, 22, 23, 24, 25, 26, 27, 28, 29, 30, 31, 32, 33, 34, 35, 36, 37, 38, 39, 40,
      41, 42, 43, 44, 45, 46, 47, 48, 49, 50, 51, 52, 53, 54, 55, 56, 57, 58, 59, 60,
      61, 62, 63, 64, 65, 66, 67, 68, 69, 70, 71, 72, 73, 74, 75, 76, 77, 78, 79, 80,
      81, 82, 83, 84, 85, 86, 87, 88, 89, 90, 91, 92, 93, 94, 95, 96, 97, 98, 99, 100,
      101, 102, 103, 104, 105, 106, 107, 108, 109, 110, 111, 112, 113, 114, 115, 116, 117, 118, 119, 120,
      121, 122, 123, 124, 125, 126, 127, 128, 129, 130, 131, 132, 133, 134, 135, 136, 137, 138, 139, 140,
      141, 142, 143, 144, 145, 146, 147, 148, 149, 150, 151, 152, 153, 154, 155, 156, 157, 158, 159, 160,
      161, 162, 163, 164, 165, 166, 167, 168, 169, 170, 171, 172, 173, 174, 175, 176, 177, 178, 179, 180,
      181, 182, 183, 184, 185, 186, 187, 188, 189, 190, 191, 192, 193, 194, 195, 196, 197, 198, 199, 200,
      201, 202, 203, 204, 205, 206, 207, 208, 209, 210, 211, 212, 213, 214, 215, 216, 217, 218, 219, 220,
      221, 222, 223, 224, 225, 226, 227, 228, 229, 230, 231, 232, 233, 234, 235, 236, 237, 238, 239, 240,
      241, 242, 243, 244, 245, 246, 247, 248, 249, 250, 251, 252, 253, 254, 255]
     (tl ginv_table) = replicate 255 1"
  by code_simp

lemma sbox_affine: "sbox_table = map affine ginv_table"
  by (simp add: sbox_table_def ginv_table_def affine_def rotl8_def)

lemma Te0_map: "Te0 = map te_word sbox_table"
  by (simp add: Te0_def sbox_table_def te_word_def xtime_def be32_def)

lemma length_sbox_table: "length sbox_table = 256"
  by (simp add: sbox_table_def)

lemma Te0_nth: "Te0 ! unat (b :: u8) = te_word (sbox b)"
  by (simp add: Te0_map sbox_def nth_map length_sbox_table)

section \<open>Words as four bytes\<close>

lemma mask8_u32: "(0xff :: u32) = mask 8"
  by (simp add: mask_eq_exp_minus_1)

lemma bit_be32:
  "bit (be32 a b c d) n \<longleftrightarrow>
     (if n < 8 then bit d n else if n < 16 then bit c (n - 8) else if n < 24 then bit b (n - 16) else n < 32 \<and> bit a (n - 24))"
  by (auto simp: be32_def bit_simps not_less dest: bit_imp_le_length)

lemma be32_xor: "be32 a b c d XOR be32 e f g h = be32 (a XOR e) (b XOR f) (c XOR g) (d XOR h)"
  by (rule bit_eqI) (auto simp: bit_be32 bit_simps)

lemma be32_bytes:
  "drop_bit 24 (be32 a b c d) AND 0xff = ucast a" "drop_bit 16 (be32 a b c d) AND 0xff = ucast b"
  "drop_bit 8 (be32 a b c d) AND 0xff = ucast c" "be32 a b c d AND 0xff = ucast d"
  unfolding mask8_u32 by (rule bit_eqI; auto simp: bit_be32 bit_simps dest: bit_imp_le_length)+

lemma unat_ucast_byte: "unat (ucast (b :: u8) :: u32) = unat b"
  using unat_u8_lt [of b] by (simp add: unsigned_ucast_eq take_bit_nat_eq_self del: unat_u8_lt)

lemma PUTU32_be32: "PUTU32 (be32 a b c d) = [a, b, c, d]"
  unfolding PUTU32_def by (auto intro!: bit_eqI simp: bit_be32 bit_simps dest: bit_imp_le_length)

lemma be32_PUTU32:
  "be32 (ucast (drop_bit 24 w)) (ucast (drop_bit 16 w)) (ucast (drop_bit 8 w)) (ucast w) = (w :: u32)"
  by (rule bit_eqI) (auto simp: bit_be32 bit_simps dest: bit_imp_le_length)

lemma be32_cases: obtains a b c d where "w = be32 a b c d"
  using be32_PUTU32 by metis

lemma rotr_be32:
  "rotr (be32 a b c d) 8 = be32 d a b c" "rotr (be32 a b c d) 16 = be32 c d a b" "rotr (be32 a b c d) 24 = be32 b c d a"
  unfolding rotr_def by (rule bit_eqI; auto simp: bit_be32 bit_simps dest: bit_imp_le_length)+

lemma TE_be32:
  "TE0 (be32 a b c d) = (let s = sbox a in be32 (xtime s) s s (xtime s XOR s))"
  "TE1 (be32 a b c d) = (let s = sbox b in be32 (xtime s XOR s) (xtime s) s s)"
  "TE2 (be32 a b c d) = (let s = sbox c in be32 s (xtime s XOR s) (xtime s) s)"
  "TE3 (be32 a b c d) = (let s = sbox d in be32 s s (xtime s XOR s) (xtime s))"
  by (simp_all add: TE0_def TE1_def TE2_def TE3_def be32_bytes unat_ucast_byte Te0_nth te_word_def rotr_be32 Let_def)

lemma be32_and:
  "be32 a b c d AND 0xff000000 = be32 a 0 0 0" "be32 a b c d AND 0x00ff0000 = be32 0 b 0 0"
  "be32 a b c d AND 0x0000ff00 = be32 0 0 c 0" "be32 a b c d AND 0x000000ff = be32 0 0 0 d"
proof -
  have m: "0xff000000 = be32 (mask 8) 0 0 0" "0x00ff0000 = be32 0 (mask 8) 0 0"
    "0x0000ff00 = be32 0 0 (mask 8) 0" "0x000000ff = be32 0 0 0 (mask 8)"
    by (simp_all add: be32_def mask_eq_exp_minus_1)
  show "be32 a b c d AND 0xff000000 = be32 a 0 0 0" "be32 a b c d AND 0x00ff0000 = be32 0 b 0 0"
    "be32 a b c d AND 0x0000ff00 = be32 0 0 c 0" "be32 a b c d AND 0x000000ff = be32 0 0 0 d"
    unfolding m by (rule bit_eqI; auto simp: bit_be32 bit_simps)+
qed

lemma shift_be32: "push_bit 8 (be32 a b c d) = be32 b c d 0" "drop_bit 8 (be32 a b c d) = be32 0 a b c"
  by (rule bit_eqI; auto simp: bit_be32 bit_simps dest: bit_imp_le_length)+

lemmas TE4_defs = TE41_def TE42_def TE43_def TE44_def TE421_def TE432_def TE443_def TE414_def
  TE411_def TE422_def TE433_def TE444_def

lemma be32_low: "be32 0 0 0 d = ucast d"
  by (simp add: be32_def)

lemma TE4_be32:
  "TE41 (be32 a b c d) = be32 (sbox a) 0 0 0" "TE42 (be32 a b c d) = be32 0 (sbox b) 0 0"
  "TE43 (be32 a b c d) = be32 0 0 (sbox c) 0" "TE44 (be32 a b c d) = be32 0 0 0 (sbox d)"
  "TE421 (be32 a b c d) = be32 (sbox b) 0 0 0" "TE432 (be32 a b c d) = be32 0 (sbox c) 0 0"
  "TE443 (be32 a b c d) = be32 0 0 (sbox d) 0" "TE414 (be32 a b c d) = be32 0 0 0 (sbox a)"
  "TE411 (be32 a b c d) = be32 (sbox a) 0 0 0" "TE422 (be32 a b c d) = be32 0 (sbox b) 0 0"
  "TE433 (be32 a b c d) = be32 0 0 (sbox c) 0" "TE444 (be32 a b c d) = be32 0 0 0 (sbox d)"
  by (simp_all add: TE4_defs be32_bytes unat_ucast_byte Te0_nth te_word_def shift_be32 be32_and be32_low)

lemma gmul_2_3: "gmul a 2 = xtime a" "gmul a 3 = xtime a XOR a"
  by (simp_all add: gmul_def eval_nat_numeral bit_simps xor.commute)

section \<open>One round\<close>

definition cols_of :: "bytes \<Rightarrow> cols" where
  "cols_of st = (be32 (st ! 0) (st ! 1) (st ! 2) (st ! 3), be32 (st ! 4) (st ! 5) (st ! 6) (st ! 7),
                 be32 (st ! 8) (st ! 9) (st ! 10) (st ! 11), be32 (st ! 12) (st ! 13) (st ! 14) (st ! 15))"

definition rk_bytes :: "u32 list \<Rightarrow> nat \<Rightarrow> bytes" where
  "rk_bytes rk p = PUTU32 (rk ! p) @ PUTU32 (rk ! (p + 1)) @ PUTU32 (rk ! (p + 2)) @ PUTU32 (rk ! (p + 3))"

lemma list_length_16:
  assumes "length xs = 16"
  obtains a0 a1 a2 a3 a4 a5 a6 a7 a8 a9 a10 a11 a12 a13 a14 a15
  where "xs = [a0, a1, a2, a3, a4, a5, a6, a7, a8, a9, a10, a11, a12, a13, a14, a15]"
  using assms by (auto simp: numeral_eq_Suc length_Suc_conv)

lemma rk4_cols: "p + 4 \<le> length rk \<Longrightarrow> rk4 rk p = Some (cols_of (rk_bytes rk p))"
  by (simp add: rk4_def cols_of_def rk_bytes_def PUTU32_def be32_PUTU32)

lemma length_rk_bytes: "length (rk_bytes rk p) = 16"
  by (simp add: rk_bytes_def PUTU32_def)

lemma Round_16:
  assumes "length st = 16" and "length k = 16"
  shows "length (Round st k) = 16" "length (AddRoundKey st k) = 16" "length (ShiftRows st) = 16" "length (SubBytes st) = 16"
  using assms by (auto simp: Round_def AddRoundKey_def SubBytes_def ShiftRows_def)

lemma cols_of_list:
  "cols_of [a0, a1, a2, a3, a4, a5, a6, a7, a8, a9, a10, a11, a12, a13, a14, a15] =
     (be32 a0 a1 a2 a3, be32 a4 a5 a6 a7, be32 a8 a9 a10 a11, be32 a12 a13 a14 a15)"
  by (simp add: cols_of_def)

lemma Round_list:
  "SubBytes [a0, a1, a2, a3, a4, a5, a6, a7, a8, a9, a10, a11, a12, a13, a14, a15] =
     [sbox a0, sbox a1, sbox a2, sbox a3, sbox a4, sbox a5, sbox a6, sbox a7,
      sbox a8, sbox a9, sbox a10, sbox a11, sbox a12, sbox a13, sbox a14, sbox a15]"
  "ShiftRows [a0, a1, a2, a3, a4, a5, a6, a7, a8, a9, a10, a11, a12, a13, a14, a15] =
     [a0, a5, a10, a15, a4, a9, a14, a3, a8, a13, a2, a7, a12, a1, a6, a11]"
  by (simp_all add: SubBytes_def ShiftRows_def)

lemma ROUND_Round:
  assumes "length st = 16" and "p + 4 \<le> length rk"
  shows "ROUND rk p (cols_of st) = Some (cols_of (Round st (rk_bytes rk p)))"
proof -
  obtain a0 a1 a2 a3 a4 a5 a6 a7 a8 a9 a10 a11 a12 a13 a14 a15
    where st: "st = [a0, a1, a2, a3, a4, a5, a6, a7, a8, a9, a10, a11, a12, a13, a14, a15]"
    using list_length_16 [OF assms(1)] .
  obtain k0 k1 k2 k3 k4 k5 k6 k7 k8 k9 k10 k11 k12 k13 k14 k15
    where k: "rk_bytes rk p = [k0, k1, k2, k3, k4, k5, k6, k7, k8, k9, k10, k11, k12, k13, k14, k15]"
    using list_length_16 [OF length_rk_bytes] .
  show ?thesis
    unfolding ROUND_def rk4_cols [OF assms(2)] st k Round_def Round_list AddRoundKey_def
    by (simp add: cols_of_list TE_be32 Let_def be32_xor gmul_2_3 xor.assoc xor.commute xor.left_commute)
qed

lemma rijndael_rounds_foldl:
  assumes "length st = 16" and "p + 8 * r + 8 \<le> length rk"
  shows "rijndael_rounds rk p (Suc r) (cols_of st) =
    Some (cols_of (foldl (\<lambda>st j. Round st (rk_bytes rk (p + 4 * j))) st [1..<2 * r + 2]), p + 8 * r + 8)"
  using assms
proof (induction r arbitrary: p st)
  case 0
  then show ?case by (simp add: ROUND_Round)
next
  case (Suc r)
  let ?st = "Round (Round st (rk_bytes rk (p + 4))) (rk_bytes rk (p + 8))"
  have "[1..<2 * Suc r + 2] = [1, 2] @ map ((+) 2) [1..<2 * r + 2]"
    by (rule nth_equalityI) (auto simp: nth_append nth_Cons split: nat.splits)
  moreover have "foldl (\<lambda>st j. Round st (rk_bytes rk (p + 4 * j))) ?st (map ((+) 2) [1..<2 * r + 2]) =
      foldl (\<lambda>st j. Round st (rk_bytes rk (p + 8 + 4 * j))) ?st [1..<2 * r + 2]"
    by (simp add: foldl_map algebra_simps)
  moreover have "rijndael_rounds rk p (Suc (Suc r)) (cols_of st) = rijndael_rounds rk (p + 8) (Suc r) (cols_of ?st)"
    using Suc.prems by (simp add: ROUND_Round Round_16 length_rk_bytes del: rijndael_rounds.simps(2) add: rijndael_rounds.simps(2) [of _ _ "Suc r"])
  ultimately show ?case
    using Suc.IH [of ?st "p + 8"] Suc.prems by (simp add: Round_16 length_rk_bytes del: rijndael_rounds.simps)
qed

lemma last_round:
  assumes "length st = 16" and "length k = 16"
  shows "(case cols_of st of (t0, t1, t2, t3) \<Rightarrow> case cols_of k of (l0, l1, l2, l3) \<Rightarrow>
      PUTU32 (TE41 t0 XOR TE42 t1 XOR TE43 t2 XOR TE44 t3 XOR l0) @
      PUTU32 (TE41 t1 XOR TE42 t2 XOR TE43 t3 XOR TE44 t0 XOR l1) @
      PUTU32 (TE41 t2 XOR TE42 t3 XOR TE43 t0 XOR TE44 t1 XOR l2) @
      PUTU32 (TE41 t3 XOR TE42 t0 XOR TE43 t1 XOR TE44 t2 XOR l3)) = AddRoundKey (ShiftRows (SubBytes st)) k"
proof -
  obtain a0 a1 a2 a3 a4 a5 a6 a7 a8 a9 a10 a11 a12 a13 a14 a15
    where st: "st = [a0, a1, a2, a3, a4, a5, a6, a7, a8, a9, a10, a11, a12, a13, a14, a15]"
    using list_length_16 [OF assms(1)] .
  obtain k0 k1 k2 k3 k4 k5 k6 k7 k8 k9 k10 k11 k12 k13 k14 k15
    where k: "k = [k0, k1, k2, k3, k4, k5, k6, k7, k8, k9, k10, k11, k12, k13, k14, k15]"
    using list_length_16 [OF assms(2)] .
  show ?thesis
    unfolding st k Round_list AddRoundKey_def by (simp add: cols_of_list TE4_be32 be32_xor PUTU32_be32)
qed

lemma GETU32_cols:
  assumes "length pt = 16"
  shows "GETU32 pt 0 = Some (fst (cols_of pt))" "GETU32 pt 4 = Some (fst (snd (cols_of pt)))"
    "GETU32 pt 8 = Some (fst (snd (snd (cols_of pt))))" "GETU32 pt 12 = Some (snd (snd (snd (cols_of pt))))"
  using assms by (simp_all add: GETU32_def rd_def cols_of_def be32_def numeral_2_eq_2)

lemma cols_xor:
  assumes "length a = 16" and "length b = 16"
  shows "cols_of (AddRoundKey a b) =
    (fst (cols_of a) XOR fst (cols_of b), fst (snd (cols_of a)) XOR fst (snd (cols_of b)),
     fst (snd (snd (cols_of a))) XOR fst (snd (snd (cols_of b))), snd (snd (snd (cols_of a))) XOR snd (snd (snd (cols_of b))))"
  using assms by (simp add: cols_of_def AddRoundKey_def be32_xor)

lemma rijndaelEncrypt_Cipher:
  assumes "length rk = 8 * r + 12" and "length pt = 16"
  shows "rijndaelEncrypt rk (2 * r + 2) pt =
    Some (AddRoundKey (ShiftRows (SubBytes (foldl (\<lambda>st j. Round st (rk_bytes rk (4 * j))) (AddRoundKey pt (rk_bytes rk 0)) [1..<2 * r + 2])))
            (rk_bytes rk (8 * r + 8)))"
proof -
  let ?s = "AddRoundKey pt (rk_bytes rk 0)"
  have s: "length ?s = 16" using assms by (simp add: Round_16 length_rk_bytes)
  have l: "length (foldl (\<lambda>st j. Round st (rk_bytes rk (4 * j))) ?s js) = 16" for js
    using s by (induction js rule: rev_induct) (simp_all add: Round_16 length_rk_bytes)
  obtain t0 t1 t2 t3 where t: "cols_of (foldl (\<lambda>st j. Round st (rk_bytes rk (4 * j))) ?s [1..<2 * r + 2]) = (t0, t1, t2, t3)"
    by (cases "cols_of (foldl (\<lambda>st j. Round st (rk_bytes rk (4 * j))) ?s [1..<2 * r + 2])")
  obtain l0 l1 l2 l3 where k: "cols_of (rk_bytes rk (8 * r + 8)) = (l0, l1, l2, l3)"
    by (cases "cols_of (rk_bytes rk (8 * r + 8))")
  have "rijndael_rounds rk 0 (Suc r) (cols_of ?s) = Some ((t0, t1, t2, t3), 8 * r + 8)"
    using rijndael_rounds_foldl [OF s, of 0 r rk] assms t by simp
  then show ?thesis
    using last_round [OF l [of "[1..<2 * r + 2]"] length_rk_bytes [of rk "8 * r + 8"]] assms
    unfolding rijndaelEncrypt_def t k
    by (simp add: rk4_cols GETU32_cols cols_xor length_rk_bytes split_beta k del: rijndael_rounds.simps)
qed

section \<open>The key schedule\<close>

text \<open>The schedule of the standard on words instead of bytes.\<close>

definition next_u32 :: "nat \<Rightarrow> u32 list \<Rightarrow> u32" where
  "next_u32 Nk rk =
     (let i = length rk; t = last rk
      in rk ! (i - Nk) XOR
         (if i mod Nk = 0 then TE421 t XOR TE432 t XOR TE443 t XOR TE414 t XOR RCON (i div Nk - 1)
          else if 6 < Nk \<and> i mod Nk = 4 then TE411 t XOR TE422 t XOR TE433 t XOR TE444 t
          else t))"

fun key_u32s :: "nat \<Rightarrow> nat \<Rightarrow> u32 list \<Rightarrow> u32 list" where
  "key_u32s Nk 0 rk = rk"
| "key_u32s Nk (Suc n) rk = key_u32s Nk n (rk @ [next_u32 Nk rk])"

lemma PUTU32_xor: "PUTU32 (a XOR b) = map2 (XOR) (PUTU32 a) (PUTU32 b)"
  by (cases a rule: be32_cases, cases b rule: be32_cases) (simp add: be32_xor PUTU32_be32)

lemma rcons_powers: "rcons = map (\<lambda>i. (xtime ^^ i) 1) [0..<10]"
  by code_simp

lemma rcons_xtime: "i < 10 \<Longrightarrow> rcons ! i = (xtime ^^ i) 1"
  using arg_cong [OF rcons_powers, of "\<lambda>xs. xs ! i"] by simp

lemma RCON_be32: "i < 10 \<Longrightarrow> RCON i = be32 ((xtime ^^ i) 1) 0 0 0"
  by (simp add: RCON_def be32_def rcons_xtime)

lemma sub_rot_word:
  "PUTU32 (TE421 t XOR TE432 t XOR TE443 t XOR TE414 t) = map sbox (tl (PUTU32 t) @ [hd (PUTU32 t)])"
  "PUTU32 (TE411 t XOR TE422 t XOR TE433 t XOR TE444 t) = map sbox (PUTU32 t)"
  by (cases t rule: be32_cases, simp add: TE4_be32 be32_xor PUTU32_be32)+

lemma next_word_u32:
  assumes "Nk \<le> length rk" and "0 < Nk" and "length rk div Nk - 1 < 10"
  shows "next_word Nk (map PUTU32 rk) = PUTU32 (next_u32 Nk rk)"
proof -
  let ?t = "last rk"
  have ne: "rk \<noteq> []" using assms by auto
  have r: "PUTU32 (RCON (length rk div Nk - 1)) = [(xtime ^^ (length rk div Nk - 1)) 1, 0, 0, 0]"
    using assms by (simp add: RCON_be32 PUTU32_be32)
  have c: "map2 (XOR) (map sbox (tl (PUTU32 ?t) @ [hd (PUTU32 ?t)])) [(xtime ^^ (length rk div Nk - 1)) 1, 0, 0, 0] =
      PUTU32 (TE421 ?t XOR TE432 ?t XOR TE443 ?t XOR TE414 ?t XOR RCON (length rk div Nk - 1))"
    unfolding sub_rot_word [symmetric] r [symmetric] by (simp only: PUTU32_xor [symmetric] xor.assoc)
  have i: "length rk - Nk < length rk" using assms by simp
  show ?thesis
    unfolding next_word_def next_u32_def Let_def length_map last_map [OF ne] nth_map [OF i] c
      sub_rot_word(2) [symmetric] PUTU32_xor [of "rk ! (length rk - Nk)"]
    by (simp only: if_distrib [of PUTU32])
qed

lemma key_words_u32s:
  assumes "Nk \<le> length rk" and "0 < Nk" and "(length rk + n - 1) div Nk - 1 < 10"
  shows "key_words Nk n (map PUTU32 rk) = map PUTU32 (key_u32s Nk n rk)"
  using assms
proof (induction n arbitrary: rk)
  case 0
  then show ?case by simp
next
  case (Suc n)
  have "length rk div Nk \<le> (length rk + n) div Nk"
    by (rule div_le_mono) simp
  then have "next_word Nk (map PUTU32 rk) = PUTU32 (next_u32 Nk rk)"
    using Suc.prems by (intro next_word_u32) auto
  then show ?case
    using Suc.IH [of "rk @ [next_u32 Nk rk]"] Suc.prems by simp
qed

lemma key_u32s_add: "key_u32s Nk (m + n) rk = key_u32s Nk n (key_u32s Nk m rk)"
  by (induction m arbitrary: rk) simp_all

lemma length_key_u32s [simp]: "length (key_u32s Nk n rk) = length rk + n"
  by (induction n arbitrary: rk) simp_all

lemma list_tail:
  assumes "length xs = p + n"
  obtains pre ys where "xs = pre @ ys" "length pre = p" "length ys = n"
  using assms that [of "take p xs" "drop p xs"] by simp

lemma list_len_4: "length ys = 4 \<Longrightarrow> \<exists>a b c d. ys = [a, b, c, d]"
  by (auto simp: numeral_eq_Suc length_Suc_conv)

lemma list_len_6: "length ys = 6 \<Longrightarrow> \<exists>a b c d e f. ys = [a, b, c, d, e, f]"
  by (auto simp: numeral_eq_Suc length_Suc_conv)

lemma list_len_8: "length ys = 8 \<Longrightarrow> \<exists>a b c d e f g h. ys = [a, b, c, d, e, f, g, h]"
  by (auto simp: numeral_eq_Suc length_Suc_conv)

lemma next_128:
  assumes "length pre = 4 * i"
  shows "next_u32 4 (pre @ [a, b, c, d]) = a XOR TE421 d XOR TE432 d XOR TE443 d XOR TE414 d XOR RCON i"
    "next_u32 4 (pre @ [a, b, c, d, e]) = b XOR e" "next_u32 4 (pre @ [a, b, c, d, e, f]) = c XOR f"
    "next_u32 4 (pre @ [a, b, c, d, e, f, g]) = d XOR g"
proof -
  have m: "(4 * i + 5) mod 4 = 1" "(4 * i + 6) mod 4 = 2" "(4 * i + 7) mod 4 = 3" "(4 * i + 4) mod 4 = 0" "(4 * i + 4) div 4 = i + 1"
    by presburger+
  show "next_u32 4 (pre @ [a, b, c, d]) = a XOR TE421 d XOR TE432 d XOR TE443 d XOR TE414 d XOR RCON i"
    using assms m(4,5) by (simp add: next_u32_def Let_def nth_append xor.assoc)
  show "next_u32 4 (pre @ [a, b, c, d, e]) = b XOR e" "next_u32 4 (pre @ [a, b, c, d, e, f]) = c XOR f"
    "next_u32 4 (pre @ [a, b, c, d, e, f, g]) = d XOR g"
    using assms m(1-3) by (simp_all add: next_u32_def Let_def nth_append)
qed

lemma key_u32s_Suc4: "key_u32s Nk 4 rk = (let r1 = rk @ [next_u32 Nk rk]; r2 = r1 @ [next_u32 Nk r1]; r3 = r2 @ [next_u32 Nk r2]
    in r3 @ [next_u32 Nk r3])"
  by (simp add: eval_nat_numeral Let_def)

lemma key_setup_128_u32s:
  assumes "length rk = 4 * i + 4"
  shows "key_setup_128 rk i = key_u32s 4 4 rk"
proof -
  obtain pre ys where "rk = pre @ ys" and l: "length pre = 4 * i" and "length ys = 4" using list_tail [OF assms] .
  then obtain a b c d where rk: "rk = pre @ [a, b, c, d]" using list_len_4 [of ys] by auto
  show ?thesis
    unfolding key_setup_128_def key_u32s_Suc4 Let_def rk append_assoc append_Cons append_Nil next_128 [OF l]
    by (simp add: nth_append l)
qed

lemma next_192:
  assumes "length pre = 6 * i"
  shows "next_u32 6 (pre @ [a, b, c, d, e, f]) = a XOR TE421 f XOR TE432 f XOR TE443 f XOR TE414 f XOR RCON i"
    "next_u32 6 (pre @ [a, b, c, d, e, f, g]) = b XOR g" "next_u32 6 (pre @ [a, b, c, d, e, f, g, h]) = c XOR h"
    "next_u32 6 (pre @ [a, b, c, d, e, f, g, h, j]) = d XOR j" "next_u32 6 (pre @ [a, b, c, d, e, f, g, h, j, k]) = e XOR k"
    "next_u32 6 (pre @ [a, b, c, d, e, f, g, h, j, k, l]) = f XOR l"
proof -
  have m: "(6 * i + 7) mod 6 = 1" "(6 * i + 8) mod 6 = 2" "(6 * i + 9) mod 6 = 3" "(6 * i + 10) mod 6 = 4"
    "(6 * i + 11) mod 6 = 5" "(6 * i + 6) mod 6 = 0" "(6 * i + 6) div 6 = i + 1"
    by presburger+
  show "next_u32 6 (pre @ [a, b, c, d, e, f]) = a XOR TE421 f XOR TE432 f XOR TE443 f XOR TE414 f XOR RCON i"
    using assms m(6,7) by (simp add: next_u32_def Let_def nth_append xor.assoc)
  show "next_u32 6 (pre @ [a, b, c, d, e, f, g]) = b XOR g" "next_u32 6 (pre @ [a, b, c, d, e, f, g, h]) = c XOR h"
    "next_u32 6 (pre @ [a, b, c, d, e, f, g, h, j]) = d XOR j" "next_u32 6 (pre @ [a, b, c, d, e, f, g, h, j, k]) = e XOR k"
    "next_u32 6 (pre @ [a, b, c, d, e, f, g, h, j, k, l]) = f XOR l"
    using assms m(1-5) by (simp_all add: next_u32_def Let_def nth_append)
qed

lemma key_u32s_Suc2: "key_u32s Nk 2 rk = (let r1 = rk @ [next_u32 Nk rk] in r1 @ [next_u32 Nk r1])"
  by (simp add: eval_nat_numeral Let_def)

lemma key_setup_192_u32s:
  assumes "length rk = 6 * i + 6"
  shows "key_setup_192 rk i = key_u32s 6 (if i = 7 then 4 else 6) rk"
proof -
  obtain pre ys where "rk = pre @ ys" and l: "length pre = 6 * i" and "length ys = 6" using list_tail [OF assms] .
  then obtain a b c d e f where rk: "rk = pre @ [a, b, c, d, e, f]" using list_len_6 [of ys] by auto
  have k6: "key_u32s 6 6 rk = key_u32s 6 2 (key_u32s 6 4 rk)" using key_u32s_add [of 6 4 2 rk] by simp
  show ?thesis
    unfolding if_distrib [of "\<lambda>n. key_u32s 6 n rk"] k6
    unfolding key_setup_192_def key_u32s_Suc4 key_u32s_Suc2 Let_def rk append_assoc append_Cons append_Nil next_192 [OF l]
    by (simp add: nth_append l)
qed

lemma next_256:
  assumes "length pre = 8 * i"
  shows "next_u32 8 (pre @ [a, b, c, d, e, f, g, h]) = a XOR TE421 h XOR TE432 h XOR TE443 h XOR TE414 h XOR RCON i"
    "next_u32 8 (pre @ [a, b, c, d, e, f, g, h, j]) = b XOR j"
    "next_u32 8 (pre @ [a, b, c, d, e, f, g, h, j, k]) = c XOR k"
    "next_u32 8 (pre @ [a, b, c, d, e, f, g, h, j, k, l]) = d XOR l"
    "next_u32 8 (pre @ [a, b, c, d, e, f, g, h, j, k, l, m]) = e XOR TE411 m XOR TE422 m XOR TE433 m XOR TE444 m"
    "next_u32 8 (pre @ [a, b, c, d, e, f, g, h, j, k, l, m, n]) = f XOR n"
    "next_u32 8 (pre @ [a, b, c, d, e, f, g, h, j, k, l, m, n, q]) = g XOR q"
    "next_u32 8 (pre @ [a, b, c, d, e, f, g, h, j, k, l, m, n, q, r]) = h XOR r"
proof -
  have m: "(8 * i + 9) mod 8 = 1" "(8 * i + 10) mod 8 = 2" "(8 * i + 11) mod 8 = 3" "(8 * i + 12) mod 8 = 4"
    "(8 * i + 13) mod 8 = 5" "(8 * i + 14) mod 8 = 6" "(8 * i + 15) mod 8 = 7" "(8 * i + 8) mod 8 = 0" "(8 * i + 8) div 8 = i + 1"
    by presburger+
  show "next_u32 8 (pre @ [a, b, c, d, e, f, g, h]) = a XOR TE421 h XOR TE432 h XOR TE443 h XOR TE414 h XOR RCON i"
    using assms m(8,9) by (simp add: next_u32_def Let_def nth_append xor.assoc)
  show "next_u32 8 (pre @ [a, b, c, d, e, f, g, h, j]) = b XOR j"
    "next_u32 8 (pre @ [a, b, c, d, e, f, g, h, j, k]) = c XOR k"
    "next_u32 8 (pre @ [a, b, c, d, e, f, g, h, j, k, l]) = d XOR l"
    "next_u32 8 (pre @ [a, b, c, d, e, f, g, h, j, k, l, m]) = e XOR TE411 m XOR TE422 m XOR TE433 m XOR TE444 m"
    "next_u32 8 (pre @ [a, b, c, d, e, f, g, h, j, k, l, m, n]) = f XOR n"
    "next_u32 8 (pre @ [a, b, c, d, e, f, g, h, j, k, l, m, n, q]) = g XOR q"
    "next_u32 8 (pre @ [a, b, c, d, e, f, g, h, j, k, l, m, n, q, r]) = h XOR r"
    using assms m(1-7) by (simp_all add: next_u32_def Let_def nth_append xor.assoc)
qed

lemma key_setup_256_u32s:
  assumes "length rk = 8 * i + 8"
  shows "key_setup_256 rk i = key_u32s 8 (if i = 6 then 4 else 8) rk"
proof -
  obtain pre ys where "rk = pre @ ys" and l: "length pre = 8 * i" and "length ys = 8" using list_tail [OF assms] .
  then obtain a b c d e f g h where rk: "rk = pre @ [a, b, c, d, e, f, g, h]" using list_len_8 [of ys] by auto
  have k8: "key_u32s 8 8 rk = key_u32s 8 4 (key_u32s 8 4 rk)" using key_u32s_add [of 8 4 4 rk] by simp
  show ?thesis
    unfolding if_distrib [of "\<lambda>n. key_u32s 8 n rk"] k8
    unfolding key_setup_256_def key_u32s_Suc4 Let_def rk append_assoc append_Cons append_Nil next_256 [OF l]
    by (simp add: nth_append l)
qed

lemma fold_key_setup:
  "length rk = 4 \<Longrightarrow> foldl key_setup_128 rk [0..<n] = key_u32s 4 (4 * n) rk"
  "length rk = 6 \<Longrightarrow> n \<le> 7 \<Longrightarrow> foldl key_setup_192 rk [0..<n] = key_u32s 6 (6 * n) rk"
  "length rk = 8 \<Longrightarrow> n \<le> 6 \<Longrightarrow> foldl key_setup_256 rk [0..<n] = key_u32s 8 (8 * n) rk"
proof -
  show "length rk = 4 \<Longrightarrow> foldl key_setup_128 rk [0..<n] = key_u32s 4 (4 * n) rk"
    by (induction n) (simp_all add: key_setup_128_u32s key_u32s_add [symmetric] add.commute)
  show "length rk = 6 \<Longrightarrow> n \<le> 7 \<Longrightarrow> foldl key_setup_192 rk [0..<n] = key_u32s 6 (6 * n) rk"
    by (induction n) (simp_all add: key_setup_192_u32s key_u32s_add [symmetric] add.commute)
  show "length rk = 8 \<Longrightarrow> n \<le> 6 \<Longrightarrow> foldl key_setup_256 rk [0..<n] = key_u32s 8 (8 * n) rk"
    by (induction n) (simp_all add: key_setup_256_u32s key_u32s_add [symmetric] add.commute)
qed

lemma fold_key_setup_all:
  "length rk = 4 \<Longrightarrow> foldl key_setup_128 rk [0..<10] = key_u32s 4 40 rk"
  "length rk = 6 \<Longrightarrow> foldl key_setup_192 rk [0..<8] = key_u32s 6 46 rk"
  "length rk = 8 \<Longrightarrow> foldl key_setup_256 rk [0..<7] = key_u32s 8 52 rk"
proof -
  show "length rk = 4 \<Longrightarrow> foldl key_setup_128 rk [0..<10] = key_u32s 4 40 rk"
    using fold_key_setup(1) [of rk 10] by simp
  have u: "[0..<8] = [0..<7] @ [7]" "[0..<7] = [0..<6] @ [6 :: nat]"
    by (simp_all add: upt_rec)
  show "length rk = 6 \<Longrightarrow> foldl key_setup_192 rk [0..<8] = key_u32s 6 46 rk"
    unfolding u(1) using fold_key_setup(2) [of rk 7] key_u32s_add [of 6 42 4 rk] by (simp add: key_setup_192_u32s)
  show "length rk = 8 \<Longrightarrow> foldl key_setup_256 rk [0..<7] = key_u32s 8 52 rk"
    unfolding u(2) using fold_key_setup(3) [of rk 6] key_u32s_add [of 8 48 4 rk] by (simp add: key_setup_256_u32s)
qed

lemma GETU32_in: "i + 4 \<le> length b \<Longrightarrow> GETU32 b i = Some (be32 (b ! i) (b ! (i + 1)) (b ! (i + 2)) (b ! (i + 3)))"
  by (simp add: GETU32_def rd_def be32_def)

text \<open>The words of a key as \<open>GETU32\<close> reads them.\<close>

definition key_cols :: "bytes \<Rightarrow> u32 list" where
  "key_cols key = map (\<lambda>j. be32 (key ! (4 * j)) (key ! (4 * j + 1)) (key ! (4 * j + 2)) (key ! (4 * j + 3))) [0..<length key div 4]"

lemma words_of_cols: "words_of key = map PUTU32 (key_cols key)"
proof (induction key rule: words_of.induct)
  case (1 a b c d k)
  have u: "[0..<Suc (length k div 4)] = 0 # map Suc [0..<length k div 4]"
    by (simp only: upt_conv_Cons map_Suc_upt zero_less_Suc)
  have n: "(a # b # c # d # k) ! (4 * Suc j + i) = k ! (4 * j + i)" for i j
    using nth_append_length_plus [of "[a, b, c, d]" k "4 * j + i"] by (simp add: add.assoc)
  have l: "length (a # b # c # d # k) div 4 = Suc (length k div 4)" by simp
  have "key_cols (a # b # c # d # k) = be32 a b c d # key_cols k"
    unfolding key_cols_def l u list.map map_map o_def n n [of _ 0, unfolded add_0_right] by simp
  then show ?case using 1 by (simp add: PUTU32_be32)
qed (simp_all add: key_cols_def)

lemma key_cols_16: "length key = 16 \<Longrightarrow> key_cols key = [the (GETU32 key 0), the (GETU32 key 4), the (GETU32 key 8), the (GETU32 key 12)]"
  by (simp add: key_cols_def GETU32_in upt_rec)

lemma key_cols_24: "length key = 24 \<Longrightarrow> key_cols key = [the (GETU32 key 0), the (GETU32 key 4), the (GETU32 key 8), the (GETU32 key 12),
    the (GETU32 key 16), the (GETU32 key 20)]"
  by (simp add: key_cols_def GETU32_in upt_rec)

lemma key_cols_32: "length key = 32 \<Longrightarrow> key_cols key = [the (GETU32 key 0), the (GETU32 key 4), the (GETU32 key 8), the (GETU32 key 12),
    the (GETU32 key 16), the (GETU32 key 20), the (GETU32 key 24), the (GETU32 key 28)]"
  by (simp add: key_cols_def GETU32_in upt_rec)

lemma length_key_cols [simp]: "length (key_cols key) = length key div 4"
  by (simp add: key_cols_def)

lemma rijndaelKeySetupEnc_eq:
  "length key = 16 \<Longrightarrow> rijndaelKeySetupEnc key 128 = Some (10, key_u32s 4 40 (key_cols key))"
  "length key = 24 \<Longrightarrow> rijndaelKeySetupEnc key 192 = Some (12, key_u32s 6 46 (key_cols key))"
  "length key = 32 \<Longrightarrow> rijndaelKeySetupEnc key 256 = Some (14, key_u32s 8 52 (key_cols key))"
  by (simp_all add: rijndaelKeySetupEnc_def GETU32_in key_cols_16 key_cols_24 key_cols_32
      fold_key_setup_all(1) [symmetric] fold_key_setup_all(2) [symmetric] fold_key_setup_all(3) [symmetric])

definition aes_key_ok :: "bytes \<Rightarrow> bool" where
  "aes_key_ok key \<longleftrightarrow> length key \<in> {16, 24, 32}"

text \<open>The context the code sets up for a key.\<close>

definition ctx_of :: "bytes \<Rightarrow> aes_ctx" where
  "ctx_of key = (let Nk = length key div 4 in \<lparr>aes_rk = key_u32s Nk (4 * (Nk + 7) - Nk) (key_cols key), aes_Nr = Nk + 6\<rparr>)"

lemma aes_encrypt_init_ok: "aes_key_ok key \<Longrightarrow> mem AES_PRIV_SIZE \<Longrightarrow> aes_encrypt_init mem key (length key) = Some (Some (ctx_of key))"
  by (auto simp: aes_key_ok_def aes_encrypt_init_def rijndaelKeySetupEnc_eq ctx_of_def Let_def)

lemma ctx_of_facts:
  assumes "aes_key_ok key"
  shows "map PUTU32 (aes_rk (ctx_of key)) = KeyExpansion key" "aes_Nr (ctx_of key) = length key div 4 + 6"
    "length (aes_rk (ctx_of key)) = 4 * (length key div 4 + 7)"
  using assms key_words_u32s [of 4 "key_cols key" 40] key_words_u32s [of 6 "key_cols key" 46] key_words_u32s [of 8 "key_cols key" 52]
  by (auto simp: aes_key_ok_def ctx_of_def Let_def KeyExpansion_def words_of_cols)

lemma rk_bytes_round_key:
  assumes "4 * j + 4 \<le> length rk"
  shows "rk_bytes rk (4 * j) = round_key (map PUTU32 rk) j"
proof -
  have "take 4 (drop (4 * j) rk) = [rk ! (4 * j), rk ! (4 * j + 1), rk ! (4 * j + 2), rk ! (4 * j + 3)]"
    using assms by (auto intro!: nth_equalityI simp: nth_Cons numeral_eq_Suc split: nat.splits)
  then show ?thesis by (simp add: rk_bytes_def round_key_def take_map drop_map)
qed

lemma aes_encrypt_Cipher:
  assumes "aes_key_ok key" and "length pt = 16"
  shows "aes_encrypt (ctx_of key) pt = Some (Cipher key pt)"
proof -
  let ?rk = "aes_rk (ctx_of key)" and ?Nr = "length key div 4 + 6"
  obtain r where r: "?Nr = 2 * r + 2" "length ?rk = 8 * r + 12"
    using assms ctx_of_facts(3) [OF assms(1)] that [of "length key div 8 + 2"] by (auto simp: aes_key_ok_def)
  have k: "rk_bytes ?rk (4 * j) = round_key (KeyExpansion key) j" if "j \<le> ?Nr" for j
    using rk_bytes_round_key [of j ?rk] that r ctx_of_facts(1) [OF assms(1)] by simp
  have "foldl (\<lambda>st j. Round st (rk_bytes ?rk (4 * j))) st [1..<?Nr] =
      foldl (\<lambda>st j. Round st (round_key (KeyExpansion key) j)) st [1..<?Nr]" for st
    by (rule foldl_cong) (auto simp: k)
  moreover have "rk_bytes ?rk (8 * r + 8) = round_key (KeyExpansion key) (2 * r + 2)"
    using k [of "2 * r + 2"] r(1) by (simp add: algebra_simps)
  ultimately show ?thesis
    using rijndaelEncrypt_Cipher [OF r(2) assms(2)] k [of 0]
    unfolding aes_encrypt_def Cipher_def Let_def ctx_of_facts(2) [OF assms(1)] r(1) by simp
qed

lemma aes_encrypt_length: "aes_encrypt ctx pt = Some c \<Longrightarrow> length c = 16"
  by (auto simp: aes_encrypt_def rijndaelEncrypt_def PUTU32_def split: bind_splits prod.splits)

lemma Cipher_length: "aes_key_ok key \<Longrightarrow> length pt = 16 \<Longrightarrow> length (Cipher key pt) = 16"
  using aes_encrypt_Cipher aes_encrypt_length by blast

text \<open>Only the first \<open>n\<close> bytes of a longer key array are used.\<close>

lemma GETU32_take: "i + 4 \<le> n \<Longrightarrow> n \<le> length key \<Longrightarrow> GETU32 (take n key) i = GETU32 key i"
  by (simp add: GETU32_def rd_def)

lemma aes_encrypt_init_take:
  "n \<in> {16, 24, 32} \<Longrightarrow> n \<le> length key \<Longrightarrow> aes_encrypt_init mem key n = aes_encrypt_init mem (take n key) n"
  by (auto simp: aes_encrypt_init_def rijndaelKeySetupEnc_def GETU32_take)

text \<open>A key array cut or filled up to \<open>n\<close> bytes.\<close>

definition fit_key :: "nat \<Rightarrow> bytes \<Rightarrow> bytes" where
  "fit_key n tk = take n (tk @ replicate n 0)"

lemma length_fit_key [simp]: "length (fit_key n tk) = n"
  by (simp add: fit_key_def)

lemma fit_key_take: "n \<le> length tk \<Longrightarrow> fit_key n tk = take n tk"
  by (simp add: fit_key_def)

lemma aes_key_ok_fit: "n \<in> {16, 24, 32} \<Longrightarrow> aes_key_ok (fit_key n tk)"
  by (simp add: aes_key_ok_def)

lemma aes_encrypt_init_fit:
  assumes "n \<in> {16, 24, 32}" and "n \<le> length tk" and "mem AES_PRIV_SIZE"
  shows "aes_encrypt_init mem tk n = aes_encrypt_init (\<lambda>k. True) (fit_key n tk) n"
  using aes_encrypt_init_take [OF assms(1,2), of mem] assms by (simp add: fit_key_take aes_encrypt_init_def)

text \<open>C2: the block cipher is AES. For a key of 16, 24 or 32 bytes (and memory for the context)
  \<open>aes_encrypt_init\<close> succeeds and \<open>aes_encrypt\<close> with its context maps every block of 16 bytes to the cipher
  FIPS 197 defines by the field of 256 elements: the one table, the word operations and the unrolled rounds
  compute SubBytes, ShiftRows, MixColumns, AddRoundKey and KeyExpansion, without leaving an array. For any
  other key length \<open>aes_encrypt_init\<close> returns NULL.\<close>

theorem aes_encrypt_fips197:
  assumes "mem AES_PRIV_SIZE"
  shows "(length key \<in> {16, 24, 32} \<longrightarrow>
      (\<exists>ctx. aes_encrypt_init mem key (length key) = Some (Some ctx) \<and>
         (\<forall>pt. length pt = 16 \<longrightarrow> aes_encrypt ctx pt = Some (Cipher key pt) \<and> length (Cipher key pt) = 16))) \<and>
   (32 \<le> length key \<and> keylen \<notin> {16, 24, 32} \<longrightarrow> aes_encrypt_init mem key keylen = Some None)"
proof (intro conjI impI)
  assume "length key \<in> {16, 24, 32}"
  then have "aes_key_ok key" by (simp add: aes_key_ok_def)
  then show "\<exists>ctx. aes_encrypt_init mem key (length key) = Some (Some ctx) \<and>
      (\<forall>pt. length pt = 16 \<longrightarrow> aes_encrypt ctx pt = Some (Cipher key pt) \<and> length (Cipher key pt) = 16)"
    using assms aes_encrypt_init_ok aes_encrypt_Cipher Cipher_length by blast
next
  assume "32 \<le> length key \<and> keylen \<notin> {16, 24, 32}"
  then show "aes_encrypt_init mem key keylen = Some None"
    using assms by (auto simp: aes_encrypt_init_def rijndaelKeySetupEnc_def GETU32_in)
qed

theorem aes_encrypt_fips197_witness:
  "\<exists>ctx. aes_encrypt_init (\<lambda>n. True) [0, 1, 2, 3, 4, 5, 6, 7, 8, 9, 10, 11, 12, 13, 14, 15] 16 = Some (Some ctx) \<and>
     aes_encrypt ctx (replicate 16 0) = Some (Cipher [0, 1, 2, 3, 4, 5, 6, 7, 8, 9, 10, 11, 12, 13, 14, 15] (replicate 16 0))"
proof -
  let ?k = "[0, 1, 2, 3, 4, 5, 6, 7, 8, 9, 10, 11, 12, 13, 14, 15]"
  have "length ?k = 16" "length ?k \<in> {16, 24, 32}" "length (replicate 16 (0 :: u8)) = 16" by simp_all
  then show ?thesis using aes_encrypt_fips197 [of "\<lambda>n. True" ?k 0] by metis
qed

end
