(* ===== verification/Crypto_Blocks.thy ===== *)
theory Crypto_Blocks
  imports Prelude
begin

text \<open>
  What the modes of the block cipher share: words and lengths as bytes (the macros of
  \<^verbatim>\<open>include/osdep_service.h\<close>), the comparison of tags (\<^verbatim>\<open>core/crypto/rtw_crypto_wrap.c\<close>), and, for the
  statements of the standards, cutting a list into blocks of 16 bytes, padding it with zeroes and
  reading a block as a word of 128 bits.
\<close>

section \<open>Words as bytes\<close>

text \<open>\<open>RTW_GET_BE32\<close> is used on arrays of a fixed size only, within them.\<close>

definition RTW_GET_BE32 :: "bytes \<Rightarrow> nat \<Rightarrow> u32" where
  "RTW_GET_BE32 b i =
     push_bit 24 (ucast (b ! i)) OR push_bit 16 (ucast (b ! (i + 1))) OR push_bit 8 (ucast (b ! (i + 2))) OR ucast (b ! (i + 3))"

definition RTW_PUT_BE32 :: "u32 \<Rightarrow> bytes" where
  "RTW_PUT_BE32 v = [ucast (drop_bit 24 v AND 0xff), ucast (drop_bit 16 v AND 0xff), ucast (drop_bit 8 v AND 0xff), ucast (v AND 0xff)]"

definition RTW_PUT_BE64 :: "u64 \<Rightarrow> bytes" where
  "RTW_PUT_BE64 v =
     [ucast (drop_bit 56 v), ucast (drop_bit 48 v), ucast (drop_bit 40 v), ucast (drop_bit 32 v),
      ucast (drop_bit 24 v), ucast (drop_bit 16 v), ucast (drop_bit 8 v), ucast (v AND 0xff)]"

section \<open>Comparison\<close>

text \<open>\<open>os_memcmp_const\<close>: the OR of the differences.\<close>

definition os_memcmp_const :: "bytes \<Rightarrow> bytes \<Rightarrow> u8" where
  "os_memcmp_const a b = foldl (\<lambda>res (x, y). res OR (x XOR y)) 0 (zip a b)"

lemma os_memcmp_const_fold:
  "length a = length b \<Longrightarrow> foldl (\<lambda>res (x, y). res OR (x XOR y)) r (zip a b) = 0 \<longleftrightarrow> r = (0 :: u8) \<and> a = b"
  by (induction a b arbitrary: r rule: list_induct2) (auto simp: or_eq_0_iff)

lemma os_memcmp_const_eq: "length a = length b \<Longrightarrow> os_memcmp_const a b = 0 \<longleftrightarrow> a = b"
  by (simp add: os_memcmp_const_def os_memcmp_const_fold)

section \<open>Blocks and padding\<close>

function blocks :: "bytes \<Rightarrow> bytes list" where
  "blocks xs = (if xs = [] then [] else take 16 xs # blocks (drop 16 xs))"
  by pat_completeness auto
termination
  by (relation "measure length") (auto simp: neq_Nil_conv)

definition pad16 :: "bytes \<Rightarrow> bytes" where
  "pad16 xs = xs @ replicate ((16 - length xs mod 16) mod 16) 0"

declare blocks.simps [simp del]

lemma blocks_append: "length xs = 16 \<Longrightarrow> blocks (xs @ ys) = xs # blocks ys"
  by (subst blocks.simps) auto

lemma blocks_Nil [simp]: "blocks [] = []"
  by (simp add: blocks.simps)

lemma pad16_16: "16 \<le> length xs \<Longrightarrow> pad16 xs = take 16 xs @ pad16 (drop 16 xs)"
  using le_mod_geq [of 16 "length xs"] by (simp add: pad16_def flip: append_assoc)

lemma length_pad16: "length (pad16 xs) mod 16 = 0"
proof -
  have "(length xs + (16 - length xs mod 16)) mod 16 = 0"
    using mod_add_left_eq [of "length xs" 16 "16 - length xs mod 16"] by simp
  then show ?thesis by (simp add: pad16_def mod_add_right_eq)
qed

section \<open>Lists of bytes under exclusive or\<close>

lemma map2_xor_comm: "map2 (XOR) a b = map2 (XOR) b (a :: bytes)"
  by (rule nth_equalityI) (auto simp: xor.commute)

lemma map2_xor_twice: "length a \<le> length k \<Longrightarrow> map2 (XOR) k (map2 (XOR) k a) = (a :: bytes)"
  by (rule nth_equalityI) auto

lemma xor_partial:
  assumes "length x = 16" and "length d < 16"
  shows "map2 (XOR) (take (length d) x) d @ drop (length d) x = map2 (XOR) x (d @ replicate (16 - length d) (0 :: u8))"
  using assms by (intro nth_equalityI) (auto simp: nth_append)

lemma map2_xor_zero: "length b = n \<Longrightarrow> map2 (XOR) (replicate n (0 :: u8)) b = b"
  by (rule nth_equalityI) auto

lemma map2_append_left: "length a = length b \<Longrightarrow> map2 f (a @ c) (b @ d) = map2 f a b @ map2 f c d"
  by simp

lemma take_xor_take: "map2 (XOR) (take n x) (take n y) = map2 (XOR) (take n x) (y :: bytes)"
  by (rule nth_equalityI) auto

section \<open>Four bytes and a word\<close>

lemma bit_GET_BE32:
  "bit (RTW_GET_BE32 b i) n \<longleftrightarrow>
     (if n < 8 then bit (b ! (i + 3)) n else if n < 16 then bit (b ! (i + 2)) (n - 8)
      else if n < 24 then bit (b ! (i + 1)) (n - 16) else n < 32 \<and> bit (b ! i) (n - 24))"
  by (auto simp: RTW_GET_BE32_def bit_simps not_less dest: bit_imp_le_length)

lemma length_PUT_BE32 [simp]: "length (RTW_PUT_BE32 v) = 4"
  by (simp add: RTW_PUT_BE32_def)

lemma length_PUT_BE64 [simp]: "length (RTW_PUT_BE64 v) = 8"
  by (simp add: RTW_PUT_BE64_def)

lemma mask8_word: "(0xff :: u32) = mask 8"
  by (simp add: mask_eq_exp_minus_1)

lemma bit_PUT_BE32: "k < 4 \<Longrightarrow> bit (RTW_PUT_BE32 v ! k) n \<longleftrightarrow> n < 8 \<and> bit v (8 * (3 - k) + n)"
proof -
  assume "k < 4"
  then consider "k = 0" | "k = 1" | "k = 2" | "k = 3" by linarith
  then show ?thesis
    by cases (auto simp: RTW_PUT_BE32_def mask8_word bit_simps dest: bit_imp_le_length)
qed

lemma GET_PUT_BE32: "RTW_GET_BE32 (RTW_PUT_BE32 v) 0 = v"
  by (rule bit_eqI) (auto simp: bit_GET_BE32 bit_PUT_BE32)

lemma PUT_GET_BE32:
  assumes "i + 4 \<le> length b"
  shows "RTW_PUT_BE32 (RTW_GET_BE32 b i) = take 4 (drop i b)"
proof (rule nth_equalityI)
  fix k assume "k < length (RTW_PUT_BE32 (RTW_GET_BE32 b i))"
  then consider "k = 0" | "k = 1" | "k = 2" | "k = 3" by (simp) linarith
  then show "RTW_PUT_BE32 (RTW_GET_BE32 b i) ! k = take 4 (drop i b) ! k"
    using assms by cases (auto intro!: bit_eqI simp: bit_PUT_BE32 bit_GET_BE32 dest: bit_imp_le_length)
qed (use assms in simp)

section \<open>Blocks as words\<close>

text \<open>A block of 16 bytes is a string of 128 bits, the first one the most significant.\<close>

definition w128 :: "bytes \<Rightarrow> 128 word" where
  "w128 b = push_bit 96 (ucast (RTW_GET_BE32 b 0)) OR push_bit 64 (ucast (RTW_GET_BE32 b 4)) OR
            push_bit 32 (ucast (RTW_GET_BE32 b 8)) OR ucast (RTW_GET_BE32 b 12)"

definition b128 :: "128 word \<Rightarrow> bytes" where
  "b128 w = RTW_PUT_BE32 (ucast (drop_bit 96 w)) @ RTW_PUT_BE32 (ucast (drop_bit 64 w)) @
            RTW_PUT_BE32 (ucast (drop_bit 32 w)) @ RTW_PUT_BE32 (ucast w)"

lemma GET_BE32_append: "RTW_GET_BE32 (pre @ b) (length pre + i) = RTW_GET_BE32 b i"
  by (simp add: RTW_GET_BE32_def nth_append)

lemma GET_BE32_prefix: "i + 4 \<le> length b \<Longrightarrow> RTW_GET_BE32 (b @ c) i = RTW_GET_BE32 b i"
  by (simp add: RTW_GET_BE32_def nth_append)

lemma GET_BE32_four:
  "RTW_GET_BE32 (RTW_PUT_BE32 a @ RTW_PUT_BE32 b @ RTW_PUT_BE32 c @ RTW_PUT_BE32 d) 0 = a"
  "RTW_GET_BE32 (RTW_PUT_BE32 a @ RTW_PUT_BE32 b @ RTW_PUT_BE32 c @ RTW_PUT_BE32 d) 4 = b"
  "RTW_GET_BE32 (RTW_PUT_BE32 a @ RTW_PUT_BE32 b @ RTW_PUT_BE32 c @ RTW_PUT_BE32 d) 8 = c"
  "RTW_GET_BE32 (RTW_PUT_BE32 a @ RTW_PUT_BE32 b @ RTW_PUT_BE32 c @ RTW_PUT_BE32 d) 12 = d"
  using GET_BE32_append [of "RTW_PUT_BE32 a" "RTW_PUT_BE32 b @ RTW_PUT_BE32 c @ RTW_PUT_BE32 d" 0]
    GET_BE32_append [of "RTW_PUT_BE32 a @ RTW_PUT_BE32 b" "RTW_PUT_BE32 c @ RTW_PUT_BE32 d" 0]
    GET_BE32_append [of "RTW_PUT_BE32 a @ RTW_PUT_BE32 b @ RTW_PUT_BE32 c" "RTW_PUT_BE32 d" 0]
  by (simp_all add: GET_BE32_prefix GET_PUT_BE32)

lemma bit_w128:
  "bit (w128 b) n \<longleftrightarrow>
     (if n < 32 then bit (RTW_GET_BE32 b 12) n else if n < 64 then bit (RTW_GET_BE32 b 8) (n - 32)
      else if n < 96 then bit (RTW_GET_BE32 b 4) (n - 64) else bit (RTW_GET_BE32 b 0) (n - 96))"
  by (auto simp: w128_def bit_simps not_less dest: bit_imp_le_length)

lemma w128_four:
  "w128 (RTW_PUT_BE32 a @ RTW_PUT_BE32 b @ RTW_PUT_BE32 c @ RTW_PUT_BE32 d) =
     push_bit 96 (ucast a) OR push_bit 64 (ucast b) OR push_bit 32 (ucast c) OR ucast d"
  by (simp add: w128_def GET_BE32_four)

lemma w128_b128 [simp]: "w128 (b128 w) = w"
  by (rule bit_eqI) (auto simp: bit_w128 b128_def GET_BE32_four bit_simps dest: bit_imp_le_length)

lemma length_b128 [simp]: "length (b128 w) = 16"
  by (simp add: b128_def)

lemma b128_w128: "length b = 16 \<Longrightarrow> b128 (w128 b) = b"
proof -
  assume b: "length b = 16"
  have c: "ucast (drop_bit 96 (w128 b)) = RTW_GET_BE32 b 0" "ucast (drop_bit 64 (w128 b)) = RTW_GET_BE32 b 4"
    "ucast (drop_bit 32 (w128 b)) = RTW_GET_BE32 b 8" "ucast (w128 b) = RTW_GET_BE32 b 12"
    by (rule bit_eqI; auto simp: bit_w128 bit_simps dest: bit_imp_le_length)+
  have "b = take 4 b @ take 4 (drop 4 b) @ take 4 (drop 8 b) @ take 4 (drop 12 b)"
    using b by (intro nth_equalityI) (auto simp: nth_append)
  then show ?thesis
    using b PUT_GET_BE32 [of 0 b] PUT_GET_BE32 [of 4 b] PUT_GET_BE32 [of 8 b] PUT_GET_BE32 [of 12 b]
    by (simp add: b128_def c)
qed

lemma w128_inj: "length a = 16 \<Longrightarrow> length b = 16 \<Longrightarrow> w128 a = w128 b \<Longrightarrow> a = b"
  by (metis b128_w128)

lemma w128_xor:
  assumes "length a = 16" and "length b = 16"
  shows "w128 (map2 (XOR) a b) = w128 a XOR w128 b"
proof -
  have "RTW_GET_BE32 (map2 (XOR) a b) i = RTW_GET_BE32 a i XOR RTW_GET_BE32 b i" if "i + 4 \<le> 16" for i
    using assms that by (intro bit_eqI) (simp add: bit_GET_BE32 bit_xor_iff)
  then show ?thesis by (intro bit_eqI) (auto simp: bit_w128 bit_xor_iff)
qed

lemma w128_zero [simp]: "w128 (replicate 16 0) = 0"
  by (simp add: w128_def RTW_GET_BE32_def)

lemma bit_w128_byte:
  assumes "i < 16" and "m < 8"
  shows "bit (w128 x) (8 * (15 - i) + m) = bit (x ! i) m"
  using assms(1) [unfolded less_numeral_cases] assms(2) unfolding bit_w128 bit_GET_BE32
  by (elim disjE) (simp_all add: numeral_2_eq_2)

end
