(* ===== verification/Crypto_Frame.thy ===== *)
theory Crypto_Frame
  imports Prelude
begin

text \<open>
  Protected frames (\<^verbatim>\<open>core/crypto/ccmp.c\<close>, \<^verbatim>\<open>core/crypto/gcmp.c\<close>). \<open>ccmp_encrypt\<close>, \<open>ccmp_256_encrypt\<close> and
  \<open>gcmp_encrypt\<close> are the same code up to the authenticated cipher they call, the length of its tag
  and the function for the additional data and the nonce; so are the three functions that decrypt.
  The code they share is \<open>frame_encrypt\<close> and \<open>frame_decrypt\<close> here, with these three as arguments.
  The locale \<open>aead\<close> states what they rely on; its lemmas are about frames of every such cipher.
\<close>

section \<open>Additional data\<close>

text \<open>The part of \<open>ccmp_aad_nonce\<close> and \<open>gcmp_aad_nonce\<close> after the frame control field \<open>fc\<close> is masked:
  three addresses, the fragment number, a fourth address and the QoS field. \<open>spp\<close> is the A-MSDU mode
  \<open>RTW_AMSDU_MODE_SPP\<close>. The header is \<open>struct ieee80211_hdr\<close>: the addresses from 4 on, \<open>seq_ctrl\<close> at 22.\<close>

definition aad_body :: "bool \<Rightarrow> bytes \<Rightarrow> bool \<Rightarrow> bool \<Rightarrow> u16 \<Rightarrow> bytes option" where
  "aad_body spp hdr is_qos addr4 fc = do {
     addrs \<leftarrow> rd_slice hdr 4 18;
     seq \<leftarrow> RTW_GET_LE16 hdr 22;
     t \<leftarrow> rd_slice hdr 24 ((if addr4 then 6 else 0) + (if is_qos then 2 else 0));
     let n = (if addr4 then 6 else 0);
     let q = (t ! n) AND NOT 0x70;
     Some (RTW_PUT_LE16 fc @ addrs @ RTW_PUT_LE16 (seq AND NOT 0xfff0) @ take n t @
           (if is_qos then [if spp then q else q AND NOT 0x80, 0] else [])) }"

definition FC_ADDR4 :: "u16 \<Rightarrow> bool" where "FC_ADDR4 fc \<longleftrightarrow> fc AND 0x0300 = 0x0300"
definition FC_DATA :: "u16 \<Rightarrow> bool" where "FC_DATA fc \<longleftrightarrow> fc AND 0x000c = 0x0008"
definition FC_MGMT :: "u16 \<Rightarrow> bool" where "FC_MGMT fc \<longleftrightarrow> fc AND 0x000c = 0x0000"
definition FC_QOS_DATA :: "u16 \<Rightarrow> bool" where "FC_QOS_DATA fc \<longleftrightarrow> FC_DATA fc \<and> (fc AND 0x00f0) AND 0x0080 \<noteq> 0"

text \<open>The masks on the frame control field.\<close>

definition aad_fc :: "u16 \<Rightarrow> u16" where
  "aad_fc fc =
     (let fc1 = (if FC_DATA fc then fc AND NOT 0x0070 else fc);
          fc2 = (if FC_QOS_DATA fc then fc1 AND NOT 0x8000 else fc1)
      in fc2 AND NOT (0x0800 OR 0x1000 OR 0x2000))"

text \<open>The packet number in a nonce, from the eight bytes between header and data.\<close>

definition nonce_pn :: "bytes \<Rightarrow> bytes option" where
  "nonce_pn data = do { d \<leftarrow> rd_slice data 0 8; Some [d ! 7, d ! 6, d ! 5, d ! 4, d ! 1, d ! 0] }"

definition ccmp_aad_nonce :: "bool \<Rightarrow> bytes \<Rightarrow> bytes \<Rightarrow> (bytes \<times> bytes) option" where
  "ccmp_aad_nonce spp hdr data = do {
     fc \<leftarrow> RTW_GET_LE16 hdr 0;
     n0 \<leftarrow> (if FC_QOS_DATA fc then do { q \<leftarrow> rd hdr (if FC_ADDR4 fc then 30 else 24); Some (q AND 0x0f) }
            else Some (if FC_MGMT fc then 0x10 else 0));
     aad \<leftarrow> aad_body spp hdr (FC_QOS_DATA fc) (FC_ADDR4 fc) (aad_fc fc OR 0x4000);
     a2 \<leftarrow> rd_slice hdr 10 6;
     pn \<leftarrow> nonce_pn data;
     Some (aad, n0 # a2 @ pn) }"

definition gcmp_aad_nonce :: "bool \<Rightarrow> bytes \<Rightarrow> bytes \<Rightarrow> (bytes \<times> bytes) option" where
  "gcmp_aad_nonce spp hdr data = do {
     fc \<leftarrow> RTW_GET_LE16 hdr 0;
     aad \<leftarrow> aad_body spp hdr (FC_QOS_DATA fc) (FC_ADDR4 fc) (aad_fc fc);
     a2 \<leftarrow> rd_slice hdr 10 6;
     pn \<leftarrow> nonce_pn data;
     Some (aad, a2 @ pn) }"

definition ccmp_get_pn :: "bytes \<Rightarrow> bytes option" where
  "ccmp_get_pn data = do { d \<leftarrow> rd_slice data 0 8; Some [d ! 7, d ! 6, d ! 5, d ! 4, d ! 1, d ! 0] }"

section \<open>Frames\<close>

text \<open>The eight bytes between header and data: those of the frame when \<open>pn\<close> is NULL, else built from it.\<close>

definition frame_iv :: "bytes \<Rightarrow> nat \<Rightarrow> bytes option \<Rightarrow> int \<Rightarrow> bytes option" where
  "frame_iv frame hdrlen pn keyid =
     (case pn of
        None \<Rightarrow> rd_slice frame hdrlen 8
      | Some p \<Rightarrow> do {
          d \<leftarrow> rd_slice p 0 6;
          Some [d ! 5, d ! 4, 0x00, 0x20 OR push_bit 6 (word_of_int keyid), d ! 3, d ! 2, d ! 1, d ! 0] })"

text \<open>CCMP sets the bit \<open>WLAN_FC_ISWEP\<close> of the header (\<open>prot\<close>).\<close>

definition frame_hdr :: "bool \<Rightarrow> bytes \<Rightarrow> bytes" where
  "frame_hdr prot h = (if prot then h[1 := h ! 1 OR 0x40] else h)"

definition frame_encrypt ::
  "(nat \<Rightarrow> bool) \<Rightarrow> bool \<Rightarrow> (bytes \<Rightarrow> bytes \<Rightarrow> (bytes \<times> bytes) option) \<Rightarrow>
     (bytes \<Rightarrow> bytes \<Rightarrow> bytes \<Rightarrow> nat \<Rightarrow> (bytes \<times> bytes) option option) \<Rightarrow> nat \<Rightarrow>
     bytes \<Rightarrow> nat \<Rightarrow> nat \<Rightarrow> bytes option \<Rightarrow> int \<Rightarrow> bytes option option" where
  "frame_encrypt mem prot aad_nonce ae mic_len frame flen hdrlen pn keyid =
     (if flen < hdrlen \<or> hdrlen < 24 then Some None
      else if \<not> mem (hdrlen + 8 + (flen - hdrlen) + mic_len + 16) then Some None
      else do {
        h0 \<leftarrow> rd_slice frame 0 hdrlen;
        iv \<leftarrow> frame_iv frame hdrlen pn keyid;
        pdata \<leftarrow> rd_slice frame (if pn = None then hdrlen + 8 else hdrlen) (flen - hdrlen);
        let h = frame_hdr prot h0;
        (aad, nonce) \<leftarrow> aad_nonce (h @ iv) iv;
        r \<leftarrow> ae nonce aad pdata (flen - hdrlen + mic_len + 16);
        Some (map_option (\<lambda>(c, t). h @ iv @ c @ t) r) })"

definition frame_decrypt ::
  "(nat \<Rightarrow> bool) \<Rightarrow> (bytes \<Rightarrow> bytes \<Rightarrow> (bytes \<times> bytes) option) \<Rightarrow>
     (bytes \<Rightarrow> bytes \<Rightarrow> bytes \<Rightarrow> bytes \<Rightarrow> nat \<Rightarrow> bytes option option) \<Rightarrow> nat \<Rightarrow> bytes \<Rightarrow> bytes \<Rightarrow> bytes option option" where
  "frame_decrypt mem aad_nonce ad mic_len hdr data =
     (if length data < 8 + mic_len then Some None
      else if \<not> mem (length data + 16) then Some None
      else do {
        let mlen = length data - 8 - mic_len;
        (aad, nonce) \<leftarrow> aad_nonce hdr data;
        ad nonce aad (take mlen (drop 8 data)) (drop (8 + mlen) data) (length data + 16) })"

section \<open>Facts on additional data and nonce\<close>

lemma aad_body_Some:
  assumes "32 \<le> length hdr"
  shows "\<exists>aad. aad_body spp hdr is_qos addr4 fc = Some aad \<and> length aad \<le> 30"
  using assms by (auto simp: aad_body_def rd_slice_def RTW_GET_LE16_def rd_def RTW_PUT_LE16_def Let_def)

lemma LE16_Some: "i + 1 < length b \<Longrightarrow> \<exists>v. RTW_GET_LE16 b i = Some v"
  by (simp add: RTW_GET_LE16_def rd_in)

lemma ccmp_aad_nonce_Some:
  assumes "32 \<le> length hdr" and "8 \<le> length data"
  shows "\<exists>aad nonce. ccmp_aad_nonce spp hdr data = Some (aad, nonce) \<and> length aad \<le> 30 \<and> length nonce = 13"
proof -
  obtain fc where fc: "RTW_GET_LE16 hdr 0 = Some fc" using assms LE16_Some [of 0 hdr] by auto
  obtain aad where "aad_body spp hdr (FC_QOS_DATA fc) (FC_ADDR4 fc) (aad_fc fc OR 0x4000) = Some aad" "length aad \<le> 30"
    using aad_body_Some [OF assms(1), of spp "FC_QOS_DATA fc" "FC_ADDR4 fc" "aad_fc fc OR 0x4000"] by blast
  then show ?thesis
    using assms by (auto simp: ccmp_aad_nonce_def fc nonce_pn_def rd_slice_def rd_def)
qed

lemma gcmp_aad_nonce_Some:
  assumes "32 \<le> length hdr" and "8 \<le> length data"
  shows "\<exists>aad nonce. gcmp_aad_nonce spp hdr data = Some (aad, nonce) \<and> length aad \<le> 30 \<and> length nonce = 12"
proof -
  obtain fc where fc: "RTW_GET_LE16 hdr 0 = Some fc" using assms LE16_Some [of 0 hdr] by auto
  obtain aad where "aad_body spp hdr (FC_QOS_DATA fc) (FC_ADDR4 fc) (aad_fc fc) = Some aad" "length aad \<le> 30"
    using aad_body_Some [OF assms(1), of spp "FC_QOS_DATA fc" "FC_ADDR4 fc" "aad_fc fc"] by blast
  then show ?thesis
    using assms by (auto simp: gcmp_aad_nonce_def fc nonce_pn_def rd_slice_def rd_def)
qed

text \<open>Only the first 32 bytes of the header and the first eight of the data matter.\<close>

lemma rd_slice_prefix: "i + n \<le> length b \<Longrightarrow> rd_slice (b @ x) i n = rd_slice b i n"
  by (simp add: rd_slice_def)

lemma rd_prefix: "i < length b \<Longrightarrow> rd (b @ x) i = rd b i"
  by (simp add: rd_def nth_append)

lemma LE16_prefix: "i + 1 < length b \<Longrightarrow> RTW_GET_LE16 (b @ x) i = RTW_GET_LE16 b i"
  by (simp add: RTW_GET_LE16_def rd_prefix)

lemma aad_body_prefix: "32 \<le> length hdr \<Longrightarrow> aad_body spp (hdr @ x) is_qos addr4 fc = aad_body spp hdr is_qos addr4 fc"
  by (simp add: aad_body_def rd_slice_prefix LE16_prefix)

lemma ccmp_aad_nonce_prefix:
  "32 \<le> length hdr \<Longrightarrow> 8 \<le> length data \<Longrightarrow> ccmp_aad_nonce spp (hdr @ x) (data @ y) = ccmp_aad_nonce spp hdr data"
  by (simp add: ccmp_aad_nonce_def nonce_pn_def aad_body_prefix rd_slice_prefix LE16_prefix rd_prefix cong: if_cong)

lemma gcmp_aad_nonce_prefix:
  "32 \<le> length hdr \<Longrightarrow> 8 \<le> length data \<Longrightarrow> gcmp_aad_nonce spp (hdr @ x) (data @ y) = gcmp_aad_nonce spp hdr data"
  by (simp add: gcmp_aad_nonce_def nonce_pn_def aad_body_prefix rd_slice_prefix LE16_prefix)

section \<open>What the frames rely on\<close>

text \<open>Sealing succeeds for additional data and a nonce of the lengths \<open>aad_nonce\<close> produces, keeps the
  length and makes a tag of \<open>mic_len\<close> bytes; opening accepts exactly what was sealed.\<close>

locale aead =
  fixes aad_nonce :: "bytes \<Rightarrow> bytes \<Rightarrow> (bytes \<times> bytes) option"
    and ae :: "bytes \<Rightarrow> bytes \<Rightarrow> bytes \<Rightarrow> nat \<Rightarrow> (bytes \<times> bytes) option option"
    and ad :: "bytes \<Rightarrow> bytes \<Rightarrow> bytes \<Rightarrow> bytes \<Rightarrow> nat \<Rightarrow> bytes option option"
    and mic_len :: nat
    and nonce_len :: nat
  assumes aad_nonce_Some: "32 \<le> length hdr \<Longrightarrow> 8 \<le> length data \<Longrightarrow>
      \<exists>aad nonce. aad_nonce hdr data = Some (aad, nonce) \<and> length aad \<le> 30 \<and> length nonce = nonce_len"
    and aad_nonce_prefix: "32 \<le> length hdr \<Longrightarrow> 8 \<le> length data \<Longrightarrow> aad_nonce (hdr @ x) (data @ y) = aad_nonce hdr data"
    and ae_Some: "length aad \<le> 30 \<Longrightarrow> length nonce = nonce_len \<Longrightarrow> length p + 15 \<le> room \<Longrightarrow>
      \<exists>c t. ae nonce aad p room = Some (Some (c, t)) \<and> length c = length p \<and> length t = mic_len"
    and ad_total: "length aad \<le> 30 \<Longrightarrow> length nonce = nonce_len \<Longrightarrow> length c + 15 \<le> room \<Longrightarrow> length t = mic_len \<Longrightarrow>
      \<exists>r. ad nonce aad c t room = Some r"
    and ad_ae: "length aad \<le> 30 \<Longrightarrow> length nonce = nonce_len \<Longrightarrow> length c + 15 \<le> room \<Longrightarrow> length t = mic_len \<Longrightarrow>
      length p + 15 \<le> room' \<Longrightarrow> ad nonce aad c t room = Some (Some p) \<longleftrightarrow> ae nonce aad p room' = Some (Some (c, t))"
begin

text \<open>A frame with room for header and number is encrypted, to header, number, as many bytes and the tag.\<close>

lemma frame_encrypt_Some:
  assumes "length h = hdrlen" and "24 \<le> hdrlen" and "length iv = 8"
    and "mem (hdrlen + 8 + length p + mic_len + 16)"
  shows "\<exists>c t. frame_encrypt mem prot aad_nonce ae mic_len (h @ iv @ p @ rest) (hdrlen + length p) hdrlen None keyid =
      Some (Some (frame_hdr prot h @ iv @ c @ t)) \<and> length c = length p \<and> length t = mic_len \<and>
      (\<exists>aad nonce. aad_nonce (frame_hdr prot h @ iv) iv = Some (aad, nonce) \<and> ae nonce aad p (length p + mic_len + 16) = Some (Some (c, t)))"
proof -
  have lh: "length (frame_hdr prot h) = hdrlen" using assms(1) by (simp add: frame_hdr_def)
  obtain aad nonce where an: "aad_nonce (frame_hdr prot h @ iv) iv = Some (aad, nonce)" "length aad \<le> 30" "length nonce = nonce_len"
    using aad_nonce_Some [of "frame_hdr prot h @ iv" iv] assms lh by auto
  obtain c t where ct: "ae nonce aad p (length p + mic_len + 16) = Some (Some (c, t))" "length c = length p" "length t = mic_len"
    using ae_Some [OF an(2,3), of p "length p + mic_len + 16"] by auto
  have "frame_iv (h @ iv @ p @ rest) hdrlen None keyid = Some iv"
    using assms by (simp add: frame_iv_def rd_slice_def)
  then have "frame_encrypt mem prot aad_nonce ae mic_len (h @ iv @ p @ rest) (hdrlen + length p) hdrlen None keyid =
      Some (Some (frame_hdr prot h @ iv @ c @ t))"
    using assms an(1) ct(1) by (simp add: frame_encrypt_def rd_slice_def)
  then show ?thesis using an(1) ct by blast
qed

text \<open>Decryption accepts a frame exactly when encrypting the data again, under the frame's own header and
  number, gives the frame.\<close>

lemma frame_decrypt_iff:
  assumes "length h = hdrlen" and "24 \<le> hdrlen" and "length iv = 8" and "length c = length p" and "length t = mic_len"
    and "mem (8 + length p + mic_len + 16)" and "mem (hdrlen + 8 + length p + mic_len + 16)" and "frame_hdr prot h = h"
  shows "frame_decrypt mem aad_nonce ad mic_len (h @ iv @ c @ t @ rest) (iv @ c @ t) = Some (Some p) \<longleftrightarrow>
    frame_encrypt mem prot aad_nonce ae mic_len (h @ iv @ p) (hdrlen + length p) hdrlen None keyid = Some (Some (h @ iv @ c @ t))"
proof -
  obtain aad nonce where an: "aad_nonce (h @ iv) iv = Some (aad, nonce)" "length aad \<le> 30" "length nonce = nonce_len"
    using aad_nonce_Some [of "h @ iv" iv] assms(1-3) by auto
  have an': "aad_nonce (h @ iv @ c @ t @ rest) (iv @ c @ t) = Some (aad, nonce)"
    using aad_nonce_prefix [of "h @ iv" iv "c @ t @ rest" "c @ t"] assms(1-3) an(1) by simp
  have "frame_decrypt mem aad_nonce ad mic_len (h @ iv @ c @ t @ rest) (iv @ c @ t) = ad nonce aad c t (8 + length p + mic_len + 16)"
    using assms an' by (simp add: frame_decrypt_def ac_simps)
  moreover have "frame_iv (h @ iv @ p) hdrlen None keyid = Some iv"
    using assms by (simp add: frame_iv_def rd_slice_def)
  then have "frame_encrypt mem prot aad_nonce ae mic_len (h @ iv @ p) (hdrlen + length p) hdrlen None keyid =
      (ae nonce aad p (length p + mic_len + 16) \<bind> (\<lambda>r. Some (map_option (\<lambda>(c, t). h @ iv @ c @ t) r)))"
    using assms an(1) by (simp add: frame_encrypt_def rd_slice_def)
  moreover obtain c' t' where ct: "ae nonce aad p (length p + mic_len + 16) = Some (Some (c', t'))" "length c' = length p" "length t' = mic_len"
    using ae_Some [OF an(2,3), of p "length p + mic_len + 16"] by auto
  ultimately show ?thesis
    using ad_ae [OF an(2,3), of c "8 + length p + mic_len + 16" t p "length p + mic_len + 16"] assms(4,5) by auto
qed

lemma frame_roundtrip:
  assumes "length h = hdrlen" and "24 \<le> hdrlen" and "length iv = 8"
    and "mem (hdrlen + 8 + length p + mic_len + 16)" and "mem (8 + length p + mic_len + 16)"
  shows "\<exists>c t. frame_encrypt mem prot aad_nonce ae mic_len (h @ iv @ p @ rest) (hdrlen + length p) hdrlen None keyid =
      Some (Some (frame_hdr prot h @ iv @ c @ t)) \<and> length c = length p \<and> length t = mic_len \<and>
      frame_decrypt mem aad_nonce ad mic_len (frame_hdr prot h @ iv @ c @ t @ rest') (iv @ c @ t) = Some (Some p)"
proof -
  let ?h = "frame_hdr prot h"
  have h: "frame_hdr prot ?h = ?h" "length ?h = hdrlen"
    using assms(1,2) by (auto simp: frame_hdr_def or.assoc)
  obtain c t aad nonce where ct: "frame_encrypt mem prot aad_nonce ae mic_len (h @ iv @ p @ rest) (hdrlen + length p) hdrlen None keyid =
      Some (Some (?h @ iv @ c @ t))" "length c = length p" "length t = mic_len"
    and a: "aad_nonce (?h @ iv) iv = Some (aad, nonce)" "ae nonce aad p (length p + mic_len + 16) = Some (Some (c, t))"
    using frame_encrypt_Some [where mem = mem and p = p, OF assms(1-4), of prot rest keyid] by blast
  obtain c' t' where ct': "frame_encrypt mem prot aad_nonce ae mic_len (?h @ iv @ p @ []) (hdrlen + length p) hdrlen None keyid =
      Some (Some (?h @ iv @ c' @ t'))"
    and "\<exists>aad nonce. aad_nonce (?h @ iv) iv = Some (aad, nonce) \<and> ae nonce aad p (length p + mic_len + 16) = Some (Some (c', t'))"
    using frame_encrypt_Some [where mem = mem and p = p, OF h(2) assms(2-4), of prot "[]" keyid] unfolding h(1) by blast
  then have "c' = c" "t' = t" using a by auto
  then have "frame_decrypt mem aad_nonce ad mic_len (?h @ iv @ c @ t @ rest') (iv @ c @ t) = Some (Some p)"
    using frame_decrypt_iff [of ?h hdrlen iv c p t mem prot rest' keyid] ct ct' h assms by simp
  then show ?thesis using ct by blast
qed

end

end
