(* ===== verification/Crypto_Ccm.thy ===== *)
theory Crypto_Ccm
  imports Crypto_Aes Crypto_Blocks Crypto_Frame
begin

text \<open>
  CCM with AES (\<^verbatim>\<open>core/crypto/aes-ccm.c\<close>) and the CCMP frames built on it (\<^verbatim>\<open>core/crypto/ccmp.c\<close>):
  the authentication chain, the key stream, \<open>aes_ccm_ae\<close> and \<open>aes_ccm_ad\<close>, the additional data and
  the nonce of a frame, and encryption and decryption of frames with keys of 16 and 32 bytes.

  A pointer with a length is the list of the bytes it covers. \<^const>\<open>None\<close> is an access outside a
  buffer; \<^const>\<open>None\<close> inside \<^const>\<open>Some\<close> is the result NULL or \<open>-1\<close>. CCM is used with \<open>L = 2\<close> only.
\<close>

section \<open>Authentication and key stream\<close>

text \<open>\<open>xor_aes_block\<close> goes over four words; the bytes are the same.\<close>

definition xor_aes_block :: "bytes \<Rightarrow> bytes \<Rightarrow> bytes" where
  "xor_aes_block d s = map2 (XOR) d s"

definition aes_ccm_auth_start :: "aes_ctx \<Rightarrow> nat \<Rightarrow> bytes \<Rightarrow> bytes \<Rightarrow> nat \<Rightarrow> bytes option" where
  "aes_ccm_auth_start aes M nonce aad plain_len = do {
     n \<leftarrow> rd_slice nonce 0 13;
     let b0 = (if aad \<noteq> [] then 0x40 else 0) OR push_bit 3 (word_of_nat ((M - 2) div 2)) OR 1;
     x1 \<leftarrow> aes_encrypt aes (b0 # n @ RTW_PUT_BE16 (word_of_nat plain_len));
     if aad = [] then Some x1
     else if 30 < length aad then None
     else do {
       let aad_buf = RTW_PUT_BE16 (word_of_nat (length aad)) @ aad @ replicate (30 - length aad) 0;
       x2 \<leftarrow> aes_encrypt aes (xor_aes_block (take 16 aad_buf) x1);
       if 14 < length aad then aes_encrypt aes (xor_aes_block (drop 16 aad_buf) x2) else Some x2 } }"

text \<open>The full blocks of \<open>data\<close>, then what is left of it padded with zeroes.\<close>

function aes_ccm_auth :: "aes_ctx \<Rightarrow> bytes \<Rightarrow> bytes \<Rightarrow> bytes option" where
  "aes_ccm_auth aes data x =
     (if 16 \<le> length data then do {
        x' \<leftarrow> aes_encrypt aes (xor_aes_block x (take 16 data));
        aes_ccm_auth aes (drop 16 data) x' }
      else if data \<noteq> [] then
        aes_encrypt aes (map2 (XOR) (take (length data) x) data @ drop (length data) x)
      else Some x)"
  by pat_completeness auto
termination
  by (relation "measure (\<lambda>(aes, data, x). length data)") auto

text \<open>The block \<open>a\<close> without its last two bytes, which are the counter and are written before each use.\<close>

definition aes_ccm_encr_start :: "bytes \<Rightarrow> bytes option" where
  "aes_ccm_encr_start nonce = do { n \<leftarrow> rd_slice nonce 0 13; Some (1 # n) }"

definition ccm_block :: "aes_ctx \<Rightarrow> bytes \<Rightarrow> nat \<Rightarrow> bytes option" where
  "ccm_block aes a i = aes_encrypt aes (a @ RTW_PUT_BE16 (word_of_nat i))"

text \<open>Block \<open>i\<close> of the output on; \<open>room\<close> is the number of bytes that may be written at \<open>out\<close>. Each turn writes
  a whole block there, also for the last bytes.\<close>

function aes_ccm_encr :: "aes_ctx \<Rightarrow> nat \<Rightarrow> nat \<Rightarrow> bytes \<Rightarrow> bytes \<Rightarrow> bytes option" where
  "aes_ccm_encr aes i room inp a =
     (if 16 \<le> length inp then do {
        s \<leftarrow> ccm_block aes a i;
        if room < 16 then None
        else do {
          rest \<leftarrow> aes_ccm_encr aes (i + 1) (room - 16) (drop 16 inp) a;
          Some (xor_aes_block s (take 16 inp) @ rest) } }
      else if inp \<noteq> [] then do {
        s \<leftarrow> ccm_block aes a i;
        if room < 16 then None else Some (map2 (XOR) (take (length inp) s) inp) }
      else Some [])"
  by pat_completeness auto
termination
  by (relation "measure (\<lambda>(aes, i, room, inp, a). length inp)") auto

definition aes_ccm_encr_auth :: "aes_ctx \<Rightarrow> nat \<Rightarrow> bytes \<Rightarrow> bytes \<Rightarrow> bytes option" where
  "aes_ccm_encr_auth aes M x a = do { tmp \<leftarrow> ccm_block aes a 0; Some (map2 (XOR) (take M x) (take M tmp)) }"

definition aes_ccm_decr_auth :: "aes_ctx \<Rightarrow> nat \<Rightarrow> bytes \<Rightarrow> bytes \<Rightarrow> bytes option" where
  "aes_ccm_decr_auth aes M a auth = do {
     tmp \<leftarrow> ccm_block aes a 0;
     u \<leftarrow> rd_slice auth 0 M;
     Some (map2 (XOR) u (take M tmp)) }"

definition aes_ccm_ae ::
  "(nat \<Rightarrow> bool) \<Rightarrow> bytes \<Rightarrow> nat \<Rightarrow> bytes \<Rightarrow> nat \<Rightarrow> bytes \<Rightarrow> bytes \<Rightarrow> nat \<Rightarrow> (bytes \<times> bytes) option option" where
  "aes_ccm_ae mem key key_len nonce M plain aad room =
     (if 30 < length aad \<or> 16 < M then Some None
      else do {
        init \<leftarrow> aes_encrypt_init mem key key_len;
        case init of
          None \<Rightarrow> Some None
        | Some aes \<Rightarrow> do {
            x0 \<leftarrow> aes_ccm_auth_start aes M nonce aad (length plain);
            x \<leftarrow> aes_ccm_auth aes plain x0;
            a \<leftarrow> aes_ccm_encr_start nonce;
            crypt \<leftarrow> aes_ccm_encr aes 1 room plain a;
            auth \<leftarrow> aes_ccm_encr_auth aes M x a;
            Some (Some (crypt, auth)) } })"

definition aes_ccm_ad ::
  "(nat \<Rightarrow> bool) \<Rightarrow> bytes \<Rightarrow> nat \<Rightarrow> bytes \<Rightarrow> nat \<Rightarrow> bytes \<Rightarrow> bytes \<Rightarrow> bytes \<Rightarrow> nat \<Rightarrow> bytes option option" where
  "aes_ccm_ad mem key key_len nonce M crypt aad auth room =
     (if 30 < length aad \<or> 16 < M then Some None
      else do {
        init \<leftarrow> aes_encrypt_init mem key key_len;
        case init of
          None \<Rightarrow> Some None
        | Some aes \<Rightarrow> do {
            a \<leftarrow> aes_ccm_encr_start nonce;
            t \<leftarrow> aes_ccm_decr_auth aes M a auth;
            plain \<leftarrow> aes_ccm_encr aes 1 room crypt a;
            x0 \<leftarrow> aes_ccm_auth_start aes M nonce aad (length crypt);
            x \<leftarrow> aes_ccm_auth aes plain x0;
            Some (if os_memcmp_const (take M x) t \<noteq> 0 then None else Some plain) } })"

section \<open>CCM as SP 800-38C states it\<close>

definition cbc_mac :: "bytes \<Rightarrow> bytes \<Rightarrow> bytes \<Rightarrow> bytes" where
  "cbc_mac key x bs = foldl (\<lambda>x b. Cipher key (map2 (XOR) x b)) x (blocks bs)"

text \<open>The first block, the formatted additional data, the padded message; then the counter blocks.\<close>

definition ccm_formatted :: "nat \<Rightarrow> bytes \<Rightarrow> bytes \<Rightarrow> bytes \<Rightarrow> bytes" where
  "ccm_formatted M nonce aad plain =
     (((if aad = [] then 0 else 0x40) OR push_bit 3 (word_of_nat ((M - 2) div 2)) OR 1) #
      nonce @ RTW_PUT_BE16 (word_of_nat (length plain))) @
     (if aad = [] then [] else pad16 (RTW_PUT_BE16 (word_of_nat (length aad)) @ aad)) @ pad16 plain"

definition ccm_ctr :: "bytes \<Rightarrow> bytes \<Rightarrow> nat \<Rightarrow> bytes" where
  "ccm_ctr key nonce j = Cipher key (1 # nonce @ RTW_PUT_BE16 (word_of_nat j))"

definition ccm_encryption :: "bytes \<Rightarrow> nat \<Rightarrow> bytes \<Rightarrow> bytes \<Rightarrow> bytes \<Rightarrow> bytes \<times> bytes" where
  "ccm_encryption key M nonce aad plain =
     (map2 (XOR) plain (concat (map (ccm_ctr key nonce) [1..<(length plain + 15) div 16 + 1])),
      map2 (XOR) (take M (cbc_mac key (replicate 16 0) (ccm_formatted M nonce aad plain))) (ccm_ctr key nonce 0))"

section \<open>CCM is the standard's\<close>

declare aes_ccm_auth.simps [simp del] aes_ccm_encr.simps [simp del]

lemma cbc_mac_append: "length xs = 16 \<Longrightarrow> cbc_mac key x (xs @ ys) = cbc_mac key (Cipher key (map2 (XOR) x xs)) ys"
  by (simp add: cbc_mac_def blocks_append)

lemma cbc_mac_Nil [simp]: "cbc_mac key x [] = x"
  by (simp add: cbc_mac_def)

lemma cbc_mac_block: "length xs = 16 \<Longrightarrow> cbc_mac key x xs = Cipher key (map2 (XOR) x xs)"
  using cbc_mac_append [of xs key x "[]"] by simp

lemma aes_ccm_auth_cbc:
  assumes k: "aes_key_ok key" and "length x = 16"
  shows "aes_ccm_auth (ctx_of key) data x = Some (cbc_mac key x (pad16 data)) \<and> length (cbc_mac key x (pad16 data)) = 16"
  using assms(2)
proof (induction "length data" arbitrary: data x rule: less_induct)
  case less
  show ?case
  proof (cases "16 \<le> length data")
    case True
    let ?x = "Cipher key (map2 (XOR) x (take 16 data))"
    have x: "length ?x = 16" using True less.prems k by (simp add: Cipher_length)
    have "aes_ccm_auth (ctx_of key) data x = aes_ccm_auth (ctx_of key) (drop 16 data) ?x"
      using True less.prems k by (subst aes_ccm_auth.simps) (simp add: aes_encrypt_Cipher xor_aes_block_def)
    moreover have "cbc_mac key x (pad16 data) = cbc_mac key ?x (pad16 (drop 16 data))"
      using True pad16_16 [OF True] by (simp add: cbc_mac_append)
    ultimately show ?thesis using less.hyps [OF _ x, of "drop 16 data"] True by simp
  next
    case False
    show ?thesis
    proof (cases "data = []")
      case True
      then show ?thesis using less.prems by (simp add: aes_ccm_auth.simps pad16_def)
    next
      case ne: False
      have p: "pad16 data = data @ replicate (16 - length data) 0" "length (pad16 data) = 16"
        using False ne by (auto simp: pad16_def)
      have "aes_ccm_auth (ctx_of key) data x = aes_encrypt (ctx_of key) (map2 (XOR) x (pad16 data))"
        using False ne xor_partial [of x data] less.prems unfolding p(1) by (subst aes_ccm_auth.simps) simp
      then show ?thesis
        using p(2) less.prems k by (simp add: aes_encrypt_Cipher cbc_mac_block Cipher_length)
    qed
  qed
qed

definition ccm_B0 :: "nat \<Rightarrow> bytes \<Rightarrow> bytes \<Rightarrow> nat \<Rightarrow> bytes" where
  "ccm_B0 M nonce aad n =
     ((if aad = [] then 0 else 0x40) OR push_bit 3 (word_of_nat ((M - 2) div 2)) OR 1) # nonce @ RTW_PUT_BE16 (word_of_nat n)"

definition ccm_A :: "bytes \<Rightarrow> bytes" where
  "ccm_A aad = (if aad = [] then [] else pad16 (RTW_PUT_BE16 (word_of_nat (length aad)) @ aad))"

lemma ccm_formatted_eq: "ccm_formatted M nonce aad plain = ccm_B0 M nonce aad (length plain) @ ccm_A aad @ pad16 plain"
  by (simp add: ccm_formatted_def ccm_B0_def ccm_A_def)

lemma ccm_A_short: "aad \<noteq> [] \<Longrightarrow> length aad \<le> 14 \<Longrightarrow>
    ccm_A aad = RTW_PUT_BE16 (word_of_nat (length aad)) @ aad @ replicate (14 - length aad) 0"
  by (cases "length aad = 14") (auto simp: ccm_A_def pad16_def)

lemma ccm_A_long:
  assumes "14 < length aad" and "length aad \<le> 30"
  shows "ccm_A aad = RTW_PUT_BE16 (word_of_nat (length aad)) @ aad @ replicate (30 - length aad) 0"
proof -
  have "(length aad + 2) mod 16 = (if length aad = 30 then 0 else length aad - 14)"
    using assms le_mod_geq [of 16 "length aad + 2"] by auto
  then show ?thesis using assms by (auto simp: ccm_A_def pad16_def)
qed

lemma aes_ccm_auth_start_cbc:
  assumes k: "aes_key_ok key" and n: "length nonce = 13" and a: "length aad \<le> 30"
  shows "aes_ccm_auth_start (ctx_of key) M nonce aad n = Some (cbc_mac key (replicate 16 0) (ccm_B0 M nonce aad n @ ccm_A aad)) \<and>
    length (cbc_mac key (replicate 16 0) (ccm_B0 M nonce aad n @ ccm_A aad)) = 16"
proof -
  let ?B0 = "ccm_B0 M nonce aad n" and ?P = "RTW_PUT_BE16 (word_of_nat (length aad))"
  define x1 where "x1 = Cipher key ?B0"
  have b: "length ?B0 = 16" using n by (simp add: ccm_B0_def)
  have x1: "length x1 = 16" using k b by (simp add: x1_def Cipher_length)
  have c: "cbc_mac key (replicate 16 0) (?B0 @ ccm_A aad) = cbc_mac key x1 (ccm_A aad)"
    using b by (simp add: cbc_mac_append map2_xor_zero x1_def)
  define w where "w = ?P @ aad @ replicate (30 - length aad) 0"
  have s: "aes_ccm_auth_start (ctx_of key) M nonce aad n =
      (if aad = [] then Some x1 else do {
         x2 \<leftarrow> aes_encrypt (ctx_of key) (map2 (XOR) x1 (take 16 w));
         if 14 < length aad then aes_encrypt (ctx_of key) (map2 (XOR) x2 (drop 16 w)) else Some x2 })"
    using n a b k unfolding aes_ccm_auth_start_def w_def [symmetric] xor_aes_block_def Let_def
    by (simp add: rd_slice_def aes_encrypt_Cipher x1_def ccm_B0_def map2_xor_comm [of "take 16 w"] map2_xor_comm [of "drop 16 w"] cong: if_cong)
  have w: "length w = 32" using a by (simp add: w_def)
  consider "aad = []" | "aad \<noteq> []" "length aad \<le> 14" | "14 < length aad" by linarith
  then show ?thesis
  proof cases
    case 1
    then show ?thesis using s c x1 by (simp add: ccm_A_def)
  next
    case 2
    then have "ccm_A aad = take 16 w" by (simp add: ccm_A_short w_def take_replicate)
    then show ?thesis using 2 s c x1 w k by (simp add: aes_encrypt_Cipher cbc_mac_block Cipher_length)
  next
    case 3
    then have "ccm_A aad = take 16 w @ drop 16 w" using a by (simp add: ccm_A_long w_def)
    moreover have "aad \<noteq> []" using 3 by auto
    ultimately show ?thesis
      unfolding c using 3 s x1 w k by (simp add: aes_encrypt_Cipher cbc_mac_append cbc_mac_block Cipher_length del: append_take_drop_id)
  qed
qed

definition ccm_stream :: "bytes \<Rightarrow> bytes \<Rightarrow> nat \<Rightarrow> nat \<Rightarrow> bytes" where
  "ccm_stream key nonce i n = concat (map (ccm_ctr key nonce) [i..<i + (n + 15) div 16])"

lemma length_ccm_ctr: "aes_key_ok key \<Longrightarrow> length nonce = 13 \<Longrightarrow> length (ccm_ctr key nonce j) = 16"
  by (simp add: ccm_ctr_def Cipher_length)

lemma ccm_block_ctr: "aes_key_ok key \<Longrightarrow> length nonce = 13 \<Longrightarrow> ccm_block (ctx_of key) (1 # nonce) j = Some (ccm_ctr key nonce j)"
  by (simp add: ccm_block_def ccm_ctr_def aes_encrypt_Cipher)

lemma length_ccm_stream: "aes_key_ok key \<Longrightarrow> length nonce = 13 \<Longrightarrow> length (ccm_stream key nonce i n) = 16 * ((n + 15) div 16)"
  by (simp add: ccm_stream_def length_concat o_def length_ccm_ctr sum_list_triv)

lemma ccm_stream_step: "16 \<le> n \<Longrightarrow> ccm_stream key nonce i n = ccm_ctr key nonce i @ ccm_stream key nonce (Suc i) (n - 16)"
proof -
  assume "16 \<le> n"
  then obtain m where "n = m + 16" using le_Suc_ex [of 16 n] by (auto simp: add.commute)
  then have "(n + 15) div 16 = Suc ((n - 16 + 15) div 16)" by simp
  then show ?thesis by (simp add: ccm_stream_def upt_conv_Cons del: upt_Suc)
qed

lemma aes_ccm_encr_stream:
  assumes "aes_key_ok key" and "length nonce = 13" and "length inp + 15 \<le> room"
  shows "aes_ccm_encr (ctx_of key) i room inp (1 # nonce) = Some (map2 (XOR) (ccm_stream key nonce i (length inp)) inp)"
  using assms(3)
proof (induction "length inp" arbitrary: inp i room rule: less_induct)
  case less
  show ?case
  proof (cases "16 \<le> length inp")
    case True
    have IH: "aes_ccm_encr (ctx_of key) (Suc i) (room - 16) (drop 16 inp) (1 # nonce) =
        Some (map2 (XOR) (ccm_stream key nonce (Suc i) (length inp - 16)) (drop 16 inp))"
      using less.hyps [of "drop 16 inp" "room - 16" "Suc i"] less.prems True by simp
    have "map2 (XOR) (ccm_stream key nonce i (length inp)) (take 16 inp @ drop 16 inp) =
        map2 (XOR) (ccm_ctr key nonce i) (take 16 inp) @ map2 (XOR) (ccm_stream key nonce (Suc i) (length inp - 16)) (drop 16 inp)"
      unfolding ccm_stream_step [OF True] by (rule map2_append_left) (use True assms in \<open>simp add: length_ccm_ctr\<close>)
    then show ?thesis
      using True less.prems assms IH
      by (subst aes_ccm_encr.simps) (simp add: ccm_block_ctr xor_aes_block_def)
  next
    case False
    show ?thesis
    proof (cases "inp = []")
      case True
      then show ?thesis by (simp add: aes_ccm_encr.simps)
    next
      case ne: False
      have "(length inp + 15) div 16 = 1" using False ne by (cases inp) auto
      then have "ccm_stream key nonce i (length inp) = ccm_ctr key nonce i" by (simp add: ccm_stream_def)
      moreover have "map2 (XOR) (take (length inp) k) inp = map2 (XOR) k inp" for k :: bytes
        by (rule nth_equalityI) auto
      moreover have "16 \<le> room" using ne less.prems by (cases inp) auto
      ultimately show ?thesis
        using False ne assms by (subst aes_ccm_encr.simps) (simp add: ccm_block_ctr)
    qed
  qed
qed

lemma cbc_mac_app: "length u mod 16 = 0 \<Longrightarrow> cbc_mac key x (u @ v) = cbc_mac key (cbc_mac key x u) v"
proof (induction "length u" arbitrary: u x rule: less_induct)
  case less
  show ?case
  proof (cases "u = []")
    case False
    then have l: "16 \<le> length u" using less.prems by (cases u) (auto simp: mod_if split: if_splits)
    have s: "cbc_mac key x (take 16 u @ w) = cbc_mac key (Cipher key (map2 (XOR) x (take 16 u))) w" for w
      using l by (simp add: cbc_mac_append)
    have "cbc_mac key y (drop 16 u @ v) = cbc_mac key (cbc_mac key y (drop 16 u)) v" for y
      using less.hyps [of "drop 16 u"] l less.prems le_mod_geq [OF l] by simp
    then have "cbc_mac key x ((take 16 u @ drop 16 u) @ v) = cbc_mac key (cbc_mac key x (take 16 u @ drop 16 u)) v"
      unfolding append_assoc s by blast
    then show ?thesis by simp
  qed simp
qed

lemma length_ccm_BA: "length nonce = 13 \<Longrightarrow> length (ccm_B0 M nonce aad n @ ccm_A aad) mod 16 = 0"
proof -
  have "length (ccm_A aad) mod 16 = 0" by (simp add: ccm_A_def length_pad16)
  moreover assume "length nonce = 13"
  then have "length (ccm_B0 M nonce aad n) = 16" by (simp add: ccm_B0_def)
  ultimately show ?thesis by simp
qed

definition ccm_T :: "bytes \<Rightarrow> bytes \<Rightarrow> nat \<Rightarrow> bytes \<Rightarrow> bytes \<Rightarrow> bytes" where
  "ccm_T key nonce M aad plain = cbc_mac key (replicate 16 0) (ccm_formatted M nonce aad plain)"

lemma ccm_encryption_eq:
  "ccm_encryption key M nonce aad plain =
     (map2 (XOR) (ccm_stream key nonce 1 (length plain)) plain, map2 (XOR) (take M (ccm_T key nonce M aad plain)) (ccm_ctr key nonce 0))"
  by (simp add: ccm_encryption_def ccm_stream_def ccm_T_def map2_xor_comm [of plain])

lemma ccm_chain:
  assumes "aes_key_ok key" and "length nonce = 13" and "length aad \<le> 30"
  shows "aes_ccm_auth_start (ctx_of key) M nonce aad (length plain) \<bind> aes_ccm_auth (ctx_of key) plain = Some (ccm_T key nonce M aad plain)"
    and "length (ccm_T key nonce M aad plain) = 16"
proof -
  note s = aes_ccm_auth_start_cbc [OF assms, of M "length plain"]
  note a = aes_ccm_auth_cbc [OF assms(1) conjunct2 [OF s], of plain]
  have "ccm_T key nonce M aad plain = cbc_mac key (cbc_mac key (replicate 16 0) (ccm_B0 M nonce aad (length plain) @ ccm_A aad)) (pad16 plain)"
    using cbc_mac_app [OF length_ccm_BA [OF assms(2)]] by (simp add: ccm_T_def ccm_formatted_eq)
  then show "aes_ccm_auth_start (ctx_of key) M nonce aad (length plain) \<bind> aes_ccm_auth (ctx_of key) plain = Some (ccm_T key nonce M aad plain)"
    "length (ccm_T key nonce M aad plain) = 16"
    using s a by simp_all
qed

lemma aes_ccm_ae_eq:
  assumes "aes_key_ok key" and "mem AES_PRIV_SIZE" and "length nonce = 13" and "length aad \<le> 30" and "M \<le> 16"
    and "length plain + 15 \<le> room"
  shows "aes_ccm_ae mem key (length key) nonce M plain aad room = Some (Some (ccm_encryption key M nonce aad plain))"
  using assms ccm_chain(1) [OF assms(1,3,4), of M plain]
  by (auto simp: aes_ccm_ae_def aes_encrypt_init_ok aes_ccm_encr_start_def rd_slice_def aes_ccm_encr_stream
      aes_ccm_encr_auth_def ccm_block_ctr take_xor_take ccm_encryption_eq split: bind_splits)

lemma aes_ccm_ad_eq:
  assumes "aes_key_ok key" and "mem AES_PRIV_SIZE" and "length nonce = 13" and "length aad \<le> 30" and "M \<le> 16"
    and "length crypt + 15 \<le> room" and "length auth = M"
  shows "aes_ccm_ad mem key (length key) nonce M crypt aad auth room =
    Some (let plain = map2 (XOR) (ccm_stream key nonce 1 (length crypt)) crypt
          in if ccm_encryption key M nonce aad plain = (crypt, auth) then Some plain else None)"
proof -
  define s where "s = ccm_stream key nonce 1 (length crypt)"
  define plain where "plain = map2 (XOR) s crypt"
  have ls: "length crypt \<le> length s" using length_ccm_stream [OF assms(1,3), of 1 "length crypt"] by (simp add: s_def)
  then have lp: "length plain = length crypt" by (simp add: plain_def)
  have cs: "map2 (XOR) s plain = crypt" using map2_xor_twice [OF ls] by (simp add: plain_def)
  let ?T = "ccm_T key nonce M aad plain" and ?S = "ccm_ctr key nonce 0"
  have T: "length ?T = 16" using ccm_chain(2) [OF assms(1,3,4)] .
  have S: "length ?S = 16" using assms by (simp add: length_ccm_ctr)
  have "take M ?T = map2 (XOR) auth ?S \<longleftrightarrow> map2 (XOR) (take M ?T) ?S = auth"
  proof
    assume "take M ?T = map2 (XOR) auth ?S"
    then show "map2 (XOR) (take M ?T) ?S = auth"
      using assms(5,7) S by (auto intro!: nth_equalityI simp: list_eq_iff_nth_eq xor.assoc)
  next
    assume "map2 (XOR) (take M ?T) ?S = auth"
    then show "take M ?T = map2 (XOR) auth ?S"
      using assms(5) S T by (auto intro!: nth_equalityI simp: xor.assoc)
  qed
  then have "os_memcmp_const (take M ?T) (map2 (XOR) auth ?S) = 0 \<longleftrightarrow> ccm_encryption key M nonce aad plain = (crypt, auth)"
    using T S assms(5,7) cs lp by (subst os_memcmp_const_eq) (auto simp: ccm_encryption_eq s_def)
  moreover have "aes_ccm_auth_start (ctx_of key) M nonce aad (length crypt) \<bind> aes_ccm_auth (ctx_of key) plain = Some ?T"
    using ccm_chain(1) [OF assms(1,3,4), of M plain] lp by simp
  moreover have "map2 (XOR) auth (take M ?S) = map2 (XOR) auth ?S"
    using take_xor_take [of M auth ?S] assms(7) by simp
  ultimately show ?thesis
    using assms
    by (auto simp: aes_ccm_ad_def aes_encrypt_init_ok aes_ccm_encr_start_def rd_slice_def aes_ccm_encr_stream Let_def
        aes_ccm_decr_auth_def ccm_block_ctr plain_def s_def split: bind_splits)
qed

lemma aes_ccm_ad_ae:
  assumes "aes_key_ok key" and "mem AES_PRIV_SIZE" and "length nonce = 13" and "length aad \<le> 30" and "M \<le> 16"
    and "length crypt + 15 \<le> room" and "length auth = M" and "length plain + 15 \<le> room'"
  shows "aes_ccm_ad mem key (length key) nonce M crypt aad auth room = Some (Some plain) \<longleftrightarrow>
    aes_ccm_ae mem key (length key) nonce M plain aad room' = Some (Some (crypt, auth))"
proof -
  have "plain = map2 (XOR) (ccm_stream key nonce 1 (length crypt)) crypt" if "ccm_encryption key M nonce aad plain = (crypt, auth)"
  proof -
    have ls: "length plain \<le> length (ccm_stream key nonce 1 (length plain))"
      using length_ccm_stream [OF assms(1,3), of 1 "length plain"] by simp
    have "crypt = map2 (XOR) (ccm_stream key nonce 1 (length plain)) plain" using that by (simp add: ccm_encryption_eq)
    moreover from this ls have "length crypt = length plain" by simp
    ultimately show ?thesis using map2_xor_twice [OF ls] by simp
  qed
  then show ?thesis
    by (auto simp: aes_ccm_ad_eq [where mem = mem, OF assms(1-7)] aes_ccm_ae_eq [where mem = mem, OF assms(1-5,8)] Let_def)
qed

lemma aes_ccm_fit:
  assumes "n \<in> {16, 24, 32}" and "n \<le> length tk" and "mem AES_PRIV_SIZE"
  shows "aes_ccm_ae mem tk n = aes_ccm_ae (\<lambda>k. True) (fit_key n tk) n"
    and "aes_ccm_ad mem tk n = aes_ccm_ad (\<lambda>k. True) (fit_key n tk) n"
  by (intro ext, simp only: aes_ccm_ae_def aes_ccm_ad_def aes_encrypt_init_fit [where mem = mem, OF assms])+

section \<open>CCMP frames\<close>

definition ccmp_encrypt ::
  "(nat \<Rightarrow> bool) \<Rightarrow> bool \<Rightarrow> bytes \<Rightarrow> bytes \<Rightarrow> nat \<Rightarrow> nat \<Rightarrow> bytes option \<Rightarrow> int \<Rightarrow> bytes option option" where
  "ccmp_encrypt mem spp tk frame flen hdrlen pn keyid =
     frame_encrypt mem True (ccmp_aad_nonce spp)
       (\<lambda>nonce aad plain room. aes_ccm_ae mem tk 16 nonce 8 plain aad room) 8 frame flen hdrlen pn keyid"

definition ccmp_decrypt :: "(nat \<Rightarrow> bool) \<Rightarrow> bool \<Rightarrow> bytes \<Rightarrow> bytes \<Rightarrow> bytes \<Rightarrow> bytes option option" where
  "ccmp_decrypt mem spp tk hdr data =
     frame_decrypt mem (ccmp_aad_nonce spp)
       (\<lambda>nonce aad crypt auth room. aes_ccm_ad mem tk 16 nonce 8 crypt aad auth room) 8 hdr data"

definition ccmp_256_encrypt ::
  "(nat \<Rightarrow> bool) \<Rightarrow> bool \<Rightarrow> bytes \<Rightarrow> bytes \<Rightarrow> nat \<Rightarrow> nat \<Rightarrow> bytes option \<Rightarrow> int \<Rightarrow> bytes option option" where
  "ccmp_256_encrypt mem spp tk frame flen hdrlen pn keyid =
     frame_encrypt mem True (ccmp_aad_nonce spp)
       (\<lambda>nonce aad plain room. aes_ccm_ae mem tk 32 nonce 16 plain aad room) 16 frame flen hdrlen pn keyid"

definition ccmp_256_decrypt :: "(nat \<Rightarrow> bool) \<Rightarrow> bool \<Rightarrow> bytes \<Rightarrow> bytes \<Rightarrow> bytes \<Rightarrow> bytes option option" where
  "ccmp_256_decrypt mem spp tk hdr data =
     frame_decrypt mem (ccmp_aad_nonce spp)
       (\<lambda>nonce aad crypt auth room. aes_ccm_ad mem tk 32 nonce 16 crypt aad auth room) 16 hdr data"

text \<open>Frames of protocol version 1: the number is not in the frame, the addresses come as arguments.\<close>

definition ccmp_aad_nonce_pv1 :: "bytes \<Rightarrow> bytes \<Rightarrow> bytes \<Rightarrow> bytes option \<Rightarrow> bytes \<Rightarrow> (bytes \<times> bytes) option" where
  "ccmp_aad_nonce_pv1 hdr a1 a2 a3 pn = do {
     fc \<leftarrow> RTW_GET_LE16 hdr 0;
     let type = drop_bit 2 (fc AND 0x001c);
     let n0 = (if type = 1 then 0x20 OR 0x10 else 0x20);
     let fc' = (fc AND NOT 0xec00) OR 0x1000;
     r1 \<leftarrow> rd_slice a1 0 6;
     r2 \<leftarrow> rd_slice a2 0 6;
     body \<leftarrow> (if type = 0 \<or> type = 3 then do {
                sc \<leftarrow> rd hdr (if type = 0 then 2 + 2 + 6 else 2 + 2 * 6);
                r3 \<leftarrow> (case a3 of None \<Rightarrow> Some [] | Some a \<Rightarrow> rd_slice a 0 6);
                Some (r1 @ r2 @ [sc AND 0x0f, 0] @ r3) }
              else Some []);
     p \<leftarrow> rd_slice pn 0 6;
     Some (RTW_PUT_LE16 fc' @ body, n0 # r2 @ [p ! 5, p ! 4, p ! 3, p ! 2, p ! 1, p ! 0]) }"

definition ccmp_encrypt_pv1 ::
  "(nat \<Rightarrow> bool) \<Rightarrow> bytes \<Rightarrow> bytes \<Rightarrow> bytes \<Rightarrow> bytes option \<Rightarrow> bytes \<Rightarrow> nat \<Rightarrow> nat \<Rightarrow> bytes \<Rightarrow> bytes option option" where
  "ccmp_encrypt_pv1 mem tk a1 a2 a3 frame flen hdrlen pn =
     (if flen < hdrlen \<or> hdrlen < 12 then Some None
      else if \<not> mem (hdrlen + (flen - hdrlen) + 8 + 16) then Some None
      else do {
        h0 \<leftarrow> rd_slice frame 0 hdrlen;
        let h = h0[1 := h0 ! 1 OR 0x10];
        (aad, nonce) \<leftarrow> ccmp_aad_nonce_pv1 h a1 a2 a3 pn;
        pdata \<leftarrow> rd_slice frame hdrlen (flen - hdrlen);
        r \<leftarrow> aes_ccm_ae mem tk 16 nonce 8 pdata aad (flen - hdrlen + 8 + 16);
        Some (map_option (\<lambda>(c, t). h @ c @ t) r) })"

text \<open>Both key lengths are instances of the interface.\<close>

lemma length_ccm_encryption:
  assumes "aes_key_ok key" and "length nonce = 13" and "length aad \<le> 30" and "M \<le> 16"
  shows "length (fst (ccm_encryption key M nonce aad p)) = length p" "length (snd (ccm_encryption key M nonce aad p)) = M"
  using assms length_ccm_stream [OF assms(1,2), of 1 "length p"] ccm_chain(2) [OF assms(1-3), of M p] length_ccm_ctr [OF assms(1,2), of 0]
  by (simp_all add: ccm_encryption_eq)

lemma aes_ccm_ae_len:
  assumes "aes_key_ok key" and "length nonce = 13" and "length aad \<le> 30" and "M \<le> 16" and "length p + 15 \<le> room"
  shows "\<exists>c t. aes_ccm_ae (\<lambda>k. True) key (length key) nonce M p aad room = Some (Some (c, t)) \<and> length c = length p \<and> length t = M"
  using aes_ccm_ae_eq [of key "\<lambda>k. True" nonce aad M p room] length_ccm_encryption [of key nonce aad M p] assms
  by (cases "ccm_encryption key M nonce aad p") simp

lemma ccm_aead:
  assumes "n \<in> {16, 24, 32}" and "M \<le> 16"
  shows "aead (ccmp_aad_nonce spp) (\<lambda>nonce aad p room. aes_ccm_ae (\<lambda>k. True) (fit_key n tk) n nonce M p aad room)
    (\<lambda>nonce aad c t room. aes_ccm_ad (\<lambda>k. True) (fit_key n tk) n nonce M c aad t room) M 13"
proof (unfold_locales, goal_cases)
  case (1 hdr data)
  then show ?case by (rule ccmp_aad_nonce_Some)
next
  case (2 hdr data x y)
  then show ?case by (rule ccmp_aad_nonce_prefix)
next
  case (3 aad nonce p room)
  then show ?case using aes_ccm_ae_len [of "fit_key n tk" nonce aad M p room] assms aes_key_ok_fit by simp
next
  case (4 aad nonce c room t)
  then show ?case using aes_ccm_ad_eq [of "fit_key n tk" "\<lambda>k. True" nonce aad M c room t] assms aes_key_ok_fit by simp
next
  case (5 aad nonce c room t p room')
  then show ?case using aes_ccm_ad_ae [of "fit_key n tk" "\<lambda>k. True" nonce aad M c room t p room'] assms aes_key_ok_fit by simp
qed

interpretation ccmp: aead "ccmp_aad_nonce spp" "\<lambda>nonce aad p room. aes_ccm_ae (\<lambda>k. True) (fit_key 16 tk) 16 nonce 8 p aad room"
  "\<lambda>nonce aad c t room. aes_ccm_ad (\<lambda>k. True) (fit_key 16 tk) 16 nonce 8 c aad t room" 8 13 for spp tk
  by (rule ccm_aead) simp_all

interpretation ccmp256: aead "ccmp_aad_nonce spp" "\<lambda>nonce aad p room. aes_ccm_ae (\<lambda>k. True) (fit_key 32 tk) 32 nonce 16 p aad room"
  "\<lambda>nonce aad c t room. aes_ccm_ad (\<lambda>k. True) (fit_key 32 tk) 32 nonce 16 c aad t room" 16 13 for spp tk
  by (rule ccm_aead) simp_all

text \<open>The frame functions on any memory that holds what they ask for.\<close>

lemma ccmp_encrypt_fit:
  assumes "16 \<le> length tk" and "mem AES_PRIV_SIZE"
  shows "ccmp_encrypt mem spp tk = frame_encrypt mem True (ccmp_aad_nonce spp)
      (\<lambda>nonce aad p room. aes_ccm_ae (\<lambda>k. True) (fit_key 16 tk) 16 nonce 8 p aad room) 8"
    and "ccmp_decrypt mem spp tk = frame_decrypt mem (ccmp_aad_nonce spp)
      (\<lambda>nonce aad c t room. aes_ccm_ad (\<lambda>k. True) (fit_key 16 tk) 16 nonce 8 c aad t room) 8"
  by (intro ext, simp add: ccmp_encrypt_def ccmp_decrypt_def aes_ccm_fit [of 16 tk mem] assms)+

lemma ccmp_256_encrypt_fit:
  assumes "32 \<le> length tk" and "mem AES_PRIV_SIZE"
  shows "ccmp_256_encrypt mem spp tk = frame_encrypt mem True (ccmp_aad_nonce spp)
      (\<lambda>nonce aad p room. aes_ccm_ae (\<lambda>k. True) (fit_key 32 tk) 32 nonce 16 p aad room) 16"
    and "ccmp_256_decrypt mem spp tk = frame_decrypt mem (ccmp_aad_nonce spp)
      (\<lambda>nonce aad c t room. aes_ccm_ad (\<lambda>k. True) (fit_key 32 tk) 32 nonce 16 c aad t room) 16"
  by (intro ext, simp add: ccmp_256_encrypt_def ccmp_256_decrypt_def aes_ccm_fit [of 32 tk mem] assms)+

section \<open>Properties\<close>

text \<open>C13: \<open>aes_ccm_ae\<close> computes the encryption of CCM (SP 800-38C, with a length field of two bytes) under the AES
  of FIPS 197: the tag is the CBC-MAC of the formatted first block, additional data and message, encrypted with
  counter 0, and the message is encrypted with the counters from 1 on. This holds for every message below 65536
  bytes, up to 30 bytes of additional data, and an output buffer with 15 bytes to spare; the code's splitting of the
  additional data and of the last partial blocks makes no difference.\<close>

theorem aes_ccm_ae_sp800_38c:
  assumes "length key \<in> {16, 24, 32}" and "mem AES_PRIV_SIZE" and "length nonce = 13" and "length aad \<le> 30" and "M \<le> 16"
    and "length plain < 65536" and "length plain + 15 \<le> room"
  shows "aes_ccm_ae mem key (length key) nonce M plain aad room = Some (Some (ccm_encryption key M nonce aad plain))"
  by (rule aes_ccm_ae_eq) (use assms in \<open>auto simp: aes_key_ok_def\<close>)

theorem aes_ccm_ae_sp800_38c_witness:
  "aes_ccm_ae (\<lambda>n. True) (replicate 16 1) 16 (replicate 13 2) 8 [1, 2, 3] [4] 18 =
     Some (Some (ccm_encryption (replicate 16 1) 8 (replicate 13 2) [4] [1, 2, 3]))"
  using aes_ccm_ae_sp800_38c [of "replicate 16 1" "\<lambda>n. True" "replicate 13 2" "[4]" 8 "[1, 2, 3]" 18] by simp

text \<open>C6: CCMP frames. A frame (header of at least 24 bytes, the eight bytes with the packet number, the data)
  is encrypted to the same header with the protected bit, the same eight bytes, as many bytes and a tag of 8 bytes
  (16 with a key of 32 bytes), within the buffers; and the receiver accepts a frame with the data \<open>p\<close> exactly when
  encrypting \<open>p\<close> under that frame's header and packet number gives that frame, byte for byte.\<close>

theorem ccmp_frames:
  assumes "length h = hdrlen" and "24 \<le> hdrlen" and "length iv = 8" and "32 \<le> length tk" and "\<And>n. mem n"
  shows "(\<exists>c t. ccmp_encrypt mem spp tk (h @ iv @ p) (hdrlen + length p) hdrlen None 0 =
            Some (Some (h[1 := h ! 1 OR 0x40] @ iv @ c @ t)) \<and> length c = length p \<and> length t = 8 \<and>
          ccmp_decrypt mem spp tk (h[1 := h ! 1 OR 0x40] @ iv @ c @ t) (iv @ c @ t) = Some (Some p)) \<and>
    (\<exists>c t. ccmp_256_encrypt mem spp tk (h @ iv @ p) (hdrlen + length p) hdrlen None 0 =
            Some (Some (h[1 := h ! 1 OR 0x40] @ iv @ c @ t)) \<and> length c = length p \<and> length t = 16 \<and>
          ccmp_256_decrypt mem spp tk (h[1 := h ! 1 OR 0x40] @ iv @ c @ t) (iv @ c @ t) = Some (Some p)) \<and>
    (h ! 1 OR 0x40 = h ! 1 \<longrightarrow> length c = length p \<longrightarrow>
      (length t = 8 \<longrightarrow> (ccmp_decrypt mem spp tk (h @ iv @ c @ t) (iv @ c @ t) = Some (Some p) \<longleftrightarrow>
         ccmp_encrypt mem spp tk (h @ iv @ p) (hdrlen + length p) hdrlen None 0 = Some (Some (h @ iv @ c @ t)))) \<and>
      (length t = 16 \<longrightarrow> (ccmp_256_decrypt mem spp tk (h @ iv @ c @ t) (iv @ c @ t) = Some (Some p) \<longleftrightarrow>
         ccmp_256_encrypt mem spp tk (h @ iv @ p) (hdrlen + length p) hdrlen None 0 = Some (Some (h @ iv @ c @ t)))))"
proof -
  have e: "frame_hdr True h = h[1 := h ! 1 OR 0x40]" "h ! 1 OR 0x40 = h ! 1 \<Longrightarrow> frame_hdr True h = h"
    by (simp_all add: frame_hdr_def)
  show ?thesis
    unfolding e(1) [symmetric] using assms
      ccmp.frame_roundtrip [of h hdrlen iv mem p True spp tk "[]" 0 "[]"] ccmp256.frame_roundtrip [of h hdrlen iv mem p True spp tk "[]" 0 "[]"]
      ccmp.frame_decrypt_iff [of h hdrlen iv c p t mem True spp tk "[]" 0] ccmp256.frame_decrypt_iff [of h hdrlen iv c p t mem True spp tk "[]" 0] e(2)
    by (simp add: ccmp_encrypt_fit ccmp_256_encrypt_fit)
qed

theorem ccmp_frames_witness:
  "\<exists>c t. ccmp_encrypt (\<lambda>n. True) False (replicate 32 7) (replicate 24 0 @ replicate 8 1 @ [1, 2, 3]) 27 24 None 0 =
       Some (Some ((replicate 24 0)[1 := 0x40] @ replicate 8 1 @ c @ t)) \<and> length c = 3 \<and> length t = 8 \<and>
     ccmp_decrypt (\<lambda>n. True) False (replicate 32 7) ((replicate 24 0)[1 := 0x40] @ replicate 8 1 @ c @ t) (replicate 8 1 @ c @ t) =
       Some (Some [1, 2, 3])"
proof -
  have "length (replicate 24 (0 :: u8)) = 24" "(24 :: nat) \<le> 24" "length (replicate 8 (1 :: u8)) = 8" "32 \<le> length (replicate 32 (7 :: u8))"
    "replicate 24 (0 :: u8) ! 1 OR 0x40 = 0x40" "24 + length [1 :: u8, 2, 3] = 27" "length [1 :: u8, 2, 3] = 3"
    by simp_all
  then show ?thesis
    using ccmp_frames [of "replicate 24 0" 24 "replicate 8 1" "replicate 32 7" "\<lambda>n. True" False "[1, 2, 3]" "[]" "[]", THEN conjunct1]
    by metis
qed

end
