(* ===== verification/Crypto_Gcm.thy ===== *)
theory Crypto_Gcm
  imports Crypto_Aes Crypto_Blocks Crypto_Frame
begin

text \<open>
  GCM and GMAC with AES (\<^verbatim>\<open>core/crypto/aes-gcm.c\<close>) and the GCMP frames built on it (\<^verbatim>\<open>core/crypto/gcmp.c\<close>):
  the multiplication in the field of \<open>2^128\<close> elements over arrays of 16 bytes, the hash, the counter mode,
  \<open>aes_gcm_ae\<close>, \<open>aes_gcm_ad\<close> and \<open>aes_gmac\<close>. The code is compared with SP 800-38D stated on words
  of 128 bits.
\<close>

section \<open>Blocks\<close>

definition inc32 :: "bytes \<Rightarrow> bytes" where
  "inc32 block = take 12 block @ RTW_PUT_BE32 (RTW_GET_BE32 block 12 + 1)"

definition xor_block :: "bytes \<Rightarrow> bytes \<Rightarrow> bytes" where
  "xor_block d s = map2 (XOR) d s"

text \<open>The four words are shifted from the last to the first, each taking the low bit of the one before it,
  which is still the old one then.\<close>

definition shift_right_block :: "bytes \<Rightarrow> bytes" where
  "shift_right_block v =
     (let val3 = drop_bit 1 (RTW_GET_BE32 v 12) OR (if v ! 11 AND 0x01 \<noteq> 0 then 0x80000000 else 0);
          val2 = drop_bit 1 (RTW_GET_BE32 v 8) OR (if v ! 7 AND 0x01 \<noteq> 0 then 0x80000000 else 0);
          val1 = drop_bit 1 (RTW_GET_BE32 v 4) OR (if v ! 3 AND 0x01 \<noteq> 0 then 0x80000000 else 0);
          val0 = drop_bit 1 (RTW_GET_BE32 v 0)
      in RTW_PUT_BE32 val0 @ RTW_PUT_BE32 val1 @ RTW_PUT_BE32 val2 @ RTW_PUT_BE32 val3)"

text \<open>One turn of the inner loop of \<open>gf_mult\<close>, then the two loops.\<close>

definition gf_step :: "bytes \<Rightarrow> nat \<Rightarrow> bytes \<times> bytes \<Rightarrow> nat \<Rightarrow> bytes \<times> bytes" where
  "gf_step x i zv j =
     (let (z, v) = zv;
          z' = (if x ! i AND push_bit (7 - j) 1 \<noteq> 0 then xor_block z v else z);
          s = shift_right_block v
      in (z', if v ! 15 AND 0x01 \<noteq> 0 then s[0 := s ! 0 XOR 0xe1] else s))"

definition gf_mult :: "bytes \<Rightarrow> bytes \<Rightarrow> bytes" where
  "gf_mult x y = fst (foldl (\<lambda>zv i. foldl (gf_step x i) zv [0..<8]) (replicate 16 0, y) [0..<16])"

section \<open>Hash and counter mode\<close>

definition ghash_start :: bytes where "ghash_start = replicate 16 0"

function ghash :: "bytes \<Rightarrow> bytes \<Rightarrow> bytes \<Rightarrow> bytes" where
  "ghash h x y =
     (if 16 \<le> length x then ghash h (drop 16 x) (gf_mult (xor_block y (take 16 x)) h)
      else if x \<noteq> [] then gf_mult (xor_block y (x @ replicate (16 - length x) 0)) h
      else y)"
  by pat_completeness auto
termination
  by (relation "measure (\<lambda>(h, x, y). length x)") auto

function aes_gctr :: "aes_ctx \<Rightarrow> bytes \<Rightarrow> bytes \<Rightarrow> bytes option" where
  "aes_gctr aes cb x =
     (if 16 \<le> length x then do {
        s \<leftarrow> aes_encrypt aes cb;
        rest \<leftarrow> aes_gctr aes (inc32 cb) (drop 16 x);
        Some (xor_block s (take 16 x) @ rest) }
      else if x \<noteq> [] then do { tmp \<leftarrow> aes_encrypt aes cb; Some (map2 (XOR) x (take (length x) tmp)) }
      else Some [])"
  by pat_completeness auto
termination
  by (relation "measure (\<lambda>(aes, cb, x). length x)") auto

section \<open>GCM\<close>

text \<open>The context and the subkey \<open>H\<close>; \<^const>\<open>None\<close> inside is the NULL returned.\<close>

definition aes_gcm_init_hash_subkey :: "(nat \<Rightarrow> bool) \<Rightarrow> bytes \<Rightarrow> nat \<Rightarrow> (aes_ctx \<times> bytes) option option" where
  "aes_gcm_init_hash_subkey mem key key_len = do {
     init \<leftarrow> aes_encrypt_init mem key key_len;
     case init of
       None \<Rightarrow> Some None
     | Some aes \<Rightarrow> do { H \<leftarrow> aes_encrypt aes (replicate 16 0); Some (Some (aes, H)) } }"

definition aes_gcm_prepare_j0 :: "bytes \<Rightarrow> bytes \<Rightarrow> bytes" where
  "aes_gcm_prepare_j0 iv H =
     (if length iv = 12 then iv @ [0, 0, 0, 0x01]
      else ghash H (RTW_PUT_BE64 0 @ RTW_PUT_BE64 (word_of_nat (length iv * 8))) (ghash H iv ghash_start))"

definition aes_gcm_gctr :: "aes_ctx \<Rightarrow> bytes \<Rightarrow> bytes \<Rightarrow> bytes option" where
  "aes_gcm_gctr aes J0 inp = (if inp = [] then Some [] else aes_gctr aes (inc32 J0) inp)"

definition aes_gcm_ghash :: "bytes \<Rightarrow> bytes \<Rightarrow> bytes \<Rightarrow> bytes" where
  "aes_gcm_ghash H aad crypt =
     ghash H (RTW_PUT_BE64 (word_of_nat (length aad * 8)) @ RTW_PUT_BE64 (word_of_nat (length crypt * 8)))
       (ghash H crypt (ghash H aad ghash_start))"

definition aes_gcm_ae ::
  "(nat \<Rightarrow> bool) \<Rightarrow> bytes \<Rightarrow> nat \<Rightarrow> bytes \<Rightarrow> bytes \<Rightarrow> bytes \<Rightarrow> (bytes \<times> bytes) option option" where
  "aes_gcm_ae mem key key_len iv plain aad = do {
     init \<leftarrow> aes_gcm_init_hash_subkey mem key key_len;
     case init of
       None \<Rightarrow> Some None
     | Some (aes, H) \<Rightarrow> do {
         let J0 = aes_gcm_prepare_j0 iv H;
         crypt \<leftarrow> aes_gcm_gctr aes J0 plain;
         tag \<leftarrow> aes_gctr aes J0 (aes_gcm_ghash H aad crypt);
         Some (Some (crypt, tag)) } }"

definition aes_gcm_ad ::
  "(nat \<Rightarrow> bool) \<Rightarrow> bytes \<Rightarrow> nat \<Rightarrow> bytes \<Rightarrow> bytes \<Rightarrow> bytes \<Rightarrow> bytes \<Rightarrow> bytes option option" where
  "aes_gcm_ad mem key key_len iv crypt aad tag = do {
     init \<leftarrow> aes_gcm_init_hash_subkey mem key key_len;
     case init of
       None \<Rightarrow> Some None
     | Some (aes, H) \<Rightarrow> do {
         let J0 = aes_gcm_prepare_j0 iv H;
         plain \<leftarrow> aes_gcm_gctr aes J0 crypt;
         T \<leftarrow> aes_gctr aes J0 (aes_gcm_ghash H aad crypt);
         t \<leftarrow> rd_slice tag 0 16;
         Some (if os_memcmp_const t T \<noteq> 0 then None else Some plain) } }"

definition aes_gmac :: "(nat \<Rightarrow> bool) \<Rightarrow> bytes \<Rightarrow> nat \<Rightarrow> bytes \<Rightarrow> bytes \<Rightarrow> bytes option option" where
  "aes_gmac mem key key_len iv aad = map_option (map_option snd) (aes_gcm_ae mem key key_len iv [] aad)"

section \<open>GCMP frames\<close>

definition gcmp_encrypt ::
  "(nat \<Rightarrow> bool) \<Rightarrow> bool \<Rightarrow> bytes \<Rightarrow> nat \<Rightarrow> bytes \<Rightarrow> nat \<Rightarrow> nat \<Rightarrow> bytes option \<Rightarrow> int \<Rightarrow> bytes option option" where
  "gcmp_encrypt mem spp tk tk_len frame flen hdrlen pn keyid =
     frame_encrypt mem False (gcmp_aad_nonce spp)
       (\<lambda>nonce aad plain room. aes_gcm_ae mem tk tk_len nonce plain aad) 16 frame flen hdrlen pn keyid"

definition gcmp_decrypt :: "(nat \<Rightarrow> bool) \<Rightarrow> bool \<Rightarrow> bytes \<Rightarrow> nat \<Rightarrow> bytes \<Rightarrow> bytes \<Rightarrow> bytes option option" where
  "gcmp_decrypt mem spp tk tk_len hdr data =
     frame_decrypt mem (gcmp_aad_nonce spp)
       (\<lambda>nonce aad crypt tag room. aes_gcm_ad mem tk tk_len nonce crypt aad tag) 16 hdr data"

section \<open>GCM as SP 800-38D states it\<close>

text \<open>The field multiplication goes
  through the bits of \<open>X\<close>; the second component is multiplied by the indeterminate in each step.\<close>

definition gcm_mulx :: "128 word \<Rightarrow> 128 word" where
  "gcm_mulx V = (if bit V 0 then drop_bit 1 V XOR push_bit 120 0xe1 else drop_bit 1 V)"

definition gcm_mul :: "128 word \<Rightarrow> 128 word \<Rightarrow> 128 word" where
  "gcm_mul X Y = foldl (\<lambda>Z i. if bit X (127 - i) then Z XOR (gcm_mulx ^^ i) Y else Z) 0 [0..<128]"

definition gcm_hash :: "128 word \<Rightarrow> 128 word \<Rightarrow> bytes \<Rightarrow> 128 word" where
  "gcm_hash H Y x = foldl (\<lambda>Y b. gcm_mul (Y XOR w128 b) H) Y (blocks x)"

definition gcm_J0 :: "bytes \<Rightarrow> bytes \<Rightarrow> bytes" where
  "gcm_J0 key iv =
     (if length iv = 12 then iv @ [0, 0, 0, 1]
      else b128 (gcm_hash (w128 (Cipher key (replicate 16 0))) 0
                   (pad16 iv @ replicate 8 0 @ RTW_PUT_BE64 (word_of_nat (8 * length iv)))))"

definition gcm_counter :: "bytes \<Rightarrow> nat \<Rightarrow> bytes" where
  "gcm_counter J i = b128 (push_bit 32 (drop_bit 32 (w128 J)) OR ucast (ucast (w128 J) + word_of_nat i :: u32))"

definition gcm_stream :: "bytes \<Rightarrow> bytes \<Rightarrow> nat \<Rightarrow> nat \<Rightarrow> bytes" where
  "gcm_stream key J i n = concat (map (\<lambda>j. Cipher key (gcm_counter J j)) [i..<i + (n + 15) div 16])"

definition gcm_encryption :: "bytes \<Rightarrow> bytes \<Rightarrow> bytes \<Rightarrow> bytes \<Rightarrow> bytes \<times> bytes" where
  "gcm_encryption key iv aad plain =
     (let H = w128 (Cipher key (replicate 16 0));
          J = gcm_J0 key iv;
          c = map2 (XOR) plain (gcm_stream key J 1 (length plain));
          S = gcm_hash H 0 (pad16 aad @ pad16 c @
                RTW_PUT_BE64 (word_of_nat (8 * length aad)) @ RTW_PUT_BE64 (word_of_nat (8 * length c)))
      in (c, b128 (S XOR w128 (Cipher key J))))"

section \<open>Blocks as words\<close>

declare ghash.simps [simp del] aes_gctr.simps [simp del]

lemma low_bit: "x AND 0x01 \<noteq> 0 \<longleftrightarrow> bit (x :: u8) 0"
  by (simp add: bit_eq_iff [of "x AND 1"] bit_simps)

lemma bit_top_u32: "bit (0x80000000 :: u32) n \<longleftrightarrow> n = 31"
proof -
  have "0x80000000 = push_bit 31 (1 :: u32)" by simp
  then show ?thesis by (simp only: bit_push_bit_iff bit_1_iff) auto
qed

lemma bit_shift_in:
  "bit (drop_bit 1 (x :: u32) OR (if P then 0x80000000 else 0)) n \<longleftrightarrow> n < 31 \<and> bit x (Suc n) \<or> n = 31 \<and> P"
  unfolding bit_or_iff bit_drop_bit_eq o_def if_distrib [of "\<lambda>w. bit w n"] bit_top_u32 by (auto dest: bit_imp_le_length)

lemma w128_shift:
  assumes "length v = 16"
  shows "w128 (shift_right_block v) = drop_bit 1 (w128 v)"
proof -
  have b: "bit (v ! 11) 0 = bit (RTW_GET_BE32 v 8) 0" "bit (v ! 7) 0 = bit (RTW_GET_BE32 v 4) 0" "bit (v ! 3) 0 = bit (RTW_GET_BE32 v 0) 0"
    by (simp_all add: bit_GET_BE32)
  define g0 g1 g2 g3 where "g0 = RTW_GET_BE32 v 0" and "g1 = RTW_GET_BE32 v 4" and "g2 = RTW_GET_BE32 v 8" and "g3 = RTW_GET_BE32 v 12"
  note g = g0_def [symmetric] g1_def [symmetric] g2_def [symmetric] g3_def [symmetric]
  have l: "bit (w128 (shift_right_block v)) n \<longleftrightarrow>
      (if n < 32 then n < 31 \<and> bit g3 (Suc n) \<or> n = 31 \<and> bit g2 0
       else if n < 64 then n < 63 \<and> bit g2 (Suc (n - 32)) \<or> n = 63 \<and> bit g1 0
       else if n < 96 then n < 95 \<and> bit g1 (Suc (n - 64)) \<or> n = 95 \<and> bit g0 0
       else bit g0 (Suc (n - 96)))" for n
    unfolding shift_right_block_def Let_def low_bit b bit_w128 GET_BE32_four g bit_shift_in
    by (auto simp: bit_drop_bit_eq)
  show ?thesis
  proof (rule bit_eqI)
    fix n :: nat
    have d: "32 \<le> n \<Longrightarrow> n - 31 = Suc (n - 32)" "64 \<le> n \<Longrightarrow> n - 63 = Suc (n - 64)" "96 \<le> n \<Longrightarrow> n - 95 = Suc (n - 96)"
      by auto
    show "bit (w128 (shift_right_block v)) n \<longleftrightarrow> bit (drop_bit 1 (w128 v)) n"
      unfolding l unfolding bit_drop_bit_eq o_def bit_w128 g
      by (cases "n < 31"; cases "n = 31"; cases "n < 63"; cases "n = 63"; cases "n < 95"; cases "n = 95") (simp_all add: d)
  qed
qed

lemma length_shift [simp]: "length (shift_right_block v) = 16"
  by (simp add: shift_right_block_def Let_def)

section \<open>The multiplication\<close>

lemma w128_e1:
  assumes "length s = 16"
  shows "w128 (s[0 := s ! 0 XOR 0xe1]) = w128 s XOR push_bit 120 0xe1"
proof -
  have "s[0 := s ! 0 XOR 0xe1] = map2 (XOR) s (0xe1 # replicate 15 0)"
    using assms by (intro nth_equalityI) (auto simp: nth_list_update nth_Cons split: nat.splits)
  moreover have "w128 (0xe1 # replicate 15 0) = push_bit 120 0xe1"
    by (simp add: w128_def RTW_GET_BE32_def)
  ultimately show ?thesis using assms by (simp add: w128_xor)
qed

lemma bit_of_block:
  assumes "i < 16" and "j < 8"
  shows "x ! i AND push_bit (7 - j) 1 \<noteq> 0 \<longleftrightarrow> bit (w128 x) (127 - (8 * i + j))"
proof -
  have "x ! i AND push_bit (7 - j) 1 \<noteq> 0 \<longleftrightarrow> bit (x ! i) (7 - j)"
    by (auto simp: bit_eq_iff [of "_ AND _"] bit_simps)
  moreover have "8 * (15 - i) + (7 - j) = 127 - (8 * i + j)" using assms by auto
  ultimately show ?thesis using bit_w128_byte [OF assms(1), of "7 - j" x] by simp
qed

definition mul_upto :: "128 word \<Rightarrow> 128 word \<Rightarrow> nat \<Rightarrow> 128 word" where
  "mul_upto X Y k = foldl (\<lambda>Z i. if bit X (127 - i) then Z XOR (gcm_mulx ^^ i) Y else Z) 0 [0..<k]"

definition mul_inv :: "bytes \<Rightarrow> bytes \<Rightarrow> nat \<Rightarrow> bytes \<times> bytes \<Rightarrow> bool" where
  "mul_inv x y k zv \<longleftrightarrow> length (fst zv) = 16 \<and> length (snd zv) = 16 \<and>
     w128 (fst zv) = mul_upto (w128 x) (w128 y) k \<and> w128 (snd zv) = (gcm_mulx ^^ k) (w128 y)"

lemma gf_step_inv:
  assumes "mul_inv x y (8 * i + j) zv" and "i < 16" and "j < 8"
  shows "mul_inv x y (8 * i + Suc j) (gf_step x i zv j)"
proof -
  obtain z v where zv: "zv = (z, v)" by force
  have m: "length z = 16" "length v = 16" "w128 z = mul_upto (w128 x) (w128 y) (8 * i + j)" "w128 v = (gcm_mulx ^^ (8 * i + j)) (w128 y)"
    using assms(1) by (simp_all add: mul_inv_def zv)
  have b: "bit (v ! 15) 0 = bit (w128 v) 0" by (simp add: bit_w128 bit_GET_BE32)
  have v: "w128 (if bit (w128 v) 0 then (shift_right_block v)[0 := shift_right_block v ! 0 XOR 0xe1] else shift_right_block v) =
      gcm_mulx (w128 v)"
    using m(2) by (simp add: w128_e1 w128_shift gcm_mulx_def)
  show ?thesis
    unfolding gf_step_def zv Let_def low_bit bit_of_block [OF assms(2,3)] prod.case b mul_inv_def fst_conv snd_conv v
    using m by (auto simp: xor_block_def w128_xor mul_upto_def)
qed

lemma gf_mult_gcm_mul:
  assumes "length y = 16"
  shows "length (gf_mult x y) = 16 \<and> w128 (gf_mult x y) = gcm_mul (w128 x) (w128 y)"
proof -
  have inner: "mul_inv x y (8 * i + j) (foldl (gf_step x i) zv [0..<j])" if "mul_inv x y (8 * i) zv" "i < 16" "j \<le> 8" for i j zv
    using that(3) by (induction j) (use that gf_step_inv in auto)
  have "mul_inv x y (8 * n) (foldl (\<lambda>zv i. foldl (gf_step x i) zv [0..<8]) (replicate 16 0, y) [0..<n])" if "n \<le> 16" for n
    using that
  proof (induction n)
    case 0
    then show ?case using assms by (simp add: mul_inv_def mul_upto_def)
  next
    case (Suc n)
    then show ?case using inner [of n _ 8] by (simp add: add.commute)
  qed
  from this [of 16] show ?thesis by (simp add: mul_inv_def gf_mult_def mul_upto_def gcm_mul_def)
qed

section \<open>Hash and counters\<close>

lemma gcm_hash_append: "length b = 16 \<Longrightarrow> gcm_hash H Y (b @ x) = gcm_hash H (gcm_mul (Y XOR w128 b) H) x"
  by (simp add: gcm_hash_def blocks_append)

lemma gcm_hash_Nil [simp]: "gcm_hash H Y [] = Y"
  by (simp add: gcm_hash_def)

lemma gcm_hash_block: "length b = 16 \<Longrightarrow> gcm_hash H Y b = gcm_mul (Y XOR w128 b) H"
  using gcm_hash_append [of b H Y "[]"] by simp

lemma ghash_gcm_hash:
  assumes "length h = 16" and "length y = 16"
  shows "length (ghash h x y) = 16 \<and> w128 (ghash h x y) = gcm_hash (w128 h) (w128 y) (pad16 x)"
  using assms(2)
proof (induction "length x" arbitrary: x y rule: less_induct)
  case less
  show ?case
  proof (cases "16 \<le> length x")
    case True
    let ?y = "gf_mult (map2 (XOR) y (take 16 x)) h"
    have g: "length ?y = 16" "w128 ?y = gcm_mul (w128 y XOR w128 (take 16 x)) (w128 h)"
      using gf_mult_gcm_mul [OF assms(1), of "map2 (XOR) y (take 16 x)"] less.prems True by (simp_all add: w128_xor)
    have "ghash h x y = ghash h (drop 16 x) ?y" using True by (subst ghash.simps) (simp add: xor_block_def)
    moreover have "gcm_hash (w128 h) (w128 y) (pad16 x) = gcm_hash (w128 h) (w128 ?y) (pad16 (drop 16 x))"
      using pad16_16 [OF True] True g(2) by (simp add: gcm_hash_append)
    ultimately show ?thesis using less.hyps [of "drop 16 x" ?y] True g(1) by simp
  next
    case False
    show ?thesis
    proof (cases "x = []")
      case True
      then show ?thesis using less.prems by (simp add: ghash.simps pad16_def)
    next
      case ne: False
      have p: "x @ replicate (16 - length x) 0 = pad16 x" "length (pad16 x) = 16"
        using False ne by (auto simp: pad16_def)
      have "ghash h x y = gf_mult (map2 (XOR) y (pad16 x)) h"
        using False ne p(1) by (subst ghash.simps) (simp add: xor_block_def)
      then show ?thesis
        using gf_mult_gcm_mul [OF assms(1), of "map2 (XOR) y (pad16 x)"] less.prems p(2) by (simp add: w128_xor gcm_hash_block)
    qed
  qed
qed

lemma gcm_hash_app: "length u mod 16 = 0 \<Longrightarrow> gcm_hash H Y (u @ v) = gcm_hash H (gcm_hash H Y u) v"
proof (induction "length u" arbitrary: u Y rule: less_induct)
  case less
  show ?case
  proof (cases "u = []")
    case False
    then have l: "16 \<le> length u" using less.prems by (cases u) (auto simp: mod_if split: if_splits)
    have s: "gcm_hash H Y (take 16 u @ w) = gcm_hash H (gcm_mul (Y XOR w128 (take 16 u)) H) w" for w
      using l by (simp add: gcm_hash_append)
    have "gcm_hash H Z (drop 16 u @ v) = gcm_hash H (gcm_hash H Z (drop 16 u)) v" for Z
      using less.hyps [of "drop 16 u"] l less.prems le_mod_geq [OF l] by simp
    then have "gcm_hash H Y ((take 16 u @ drop 16 u) @ v) = gcm_hash H (gcm_hash H Y (take 16 u @ drop 16 u)) v"
      unfolding append_assoc s by blast
    then show ?thesis by simp
  qed simp
qed

lemma gcm_counter_0: "length J = 16 \<Longrightarrow> gcm_counter J 0 = J"
proof -
  assume "length J = 16"
  moreover have "push_bit 32 (drop_bit 32 (w128 J)) OR ucast (ucast (w128 J) :: u32) = w128 J"
    by (rule bit_eqI) (auto simp: bit_simps dest: bit_imp_le_length)
  ultimately show ?thesis by (simp add: gcm_counter_def b128_w128)
qed

lemma length_gcm_counter [simp]: "length (gcm_counter J i) = 16"
  by (simp add: gcm_counter_def)

lemma inc32_w128:
  assumes "length b = 16"
  shows "inc32 b = b128 (push_bit 32 (drop_bit 32 (w128 b)) OR ucast (ucast (w128 b) + 1 :: u32))"
proof -
  let ?c = "ucast (w128 b) + 1 :: u32"
  let ?w = "push_bit 32 (drop_bit 32 (w128 b)) OR ucast ?c"
  have c: "ucast (drop_bit 96 ?w) = RTW_GET_BE32 b 0" "ucast (drop_bit 64 ?w) = RTW_GET_BE32 b 4"
    "ucast (drop_bit 32 ?w) = RTW_GET_BE32 b 8"
    by (rule bit_eqI; auto simp: bit_w128 bit_simps dest: bit_imp_le_length)+
  have d: "ucast ?w = ?c" by (rule bit_eqI) (auto simp: bit_simps dest: bit_imp_le_length)
  have g: "ucast (w128 b) = RTW_GET_BE32 b 12"
    by (rule bit_eqI) (auto simp: bit_w128 bit_simps dest: bit_imp_le_length)
  have "take 12 b = take 4 b @ take 4 (drop 4 b) @ take 4 (drop 8 b)"
    using assms by (intro nth_equalityI) (auto simp: nth_append)
  then show ?thesis
    using assms PUT_GET_BE32 [of 0 b] PUT_GET_BE32 [of 4 b] PUT_GET_BE32 [of 8 b]
    unfolding b128_def c d inc32_def unfolding g by simp
qed

lemma inc32_counter: "inc32 (gcm_counter J i) = gcm_counter J (Suc i)"
proof -
  let ?w = "push_bit 32 (drop_bit 32 (w128 J)) OR ucast (ucast (w128 J) + word_of_nat i :: u32)"
  have w: "drop_bit 32 ?w = drop_bit 32 (w128 J)" "ucast ?w = (ucast (w128 J) + word_of_nat i :: u32)"
    by (rule bit_eqI; auto simp: bit_simps dest: bit_imp_le_length)+
  show ?thesis unfolding gcm_counter_def inc32_w128 [OF length_b128] w128_b128 w by (simp add: ac_simps)
qed

lemma gcm_stream_step: "16 \<le> n \<Longrightarrow> gcm_stream key J i n = Cipher key (gcm_counter J i) @ gcm_stream key J (Suc i) (n - 16)"
proof -
  assume "16 \<le> n"
  then obtain m where "n = m + 16" using le_Suc_ex [of 16 n] by (auto simp: add.commute)
  then have "(n + 15) div 16 = Suc ((n - 16 + 15) div 16)" by simp
  then show ?thesis by (simp add: gcm_stream_def upt_conv_Cons del: upt_Suc)
qed

lemma length_gcm_stream: "aes_key_ok key \<Longrightarrow> length (gcm_stream key J i n) = 16 * ((n + 15) div 16)"
  by (simp add: gcm_stream_def length_concat o_def Cipher_length sum_list_triv)

lemma aes_gctr_stream:
  assumes "aes_key_ok key"
  shows "aes_gctr (ctx_of key) (gcm_counter J i) x = Some (map2 (XOR) (gcm_stream key J i (length x)) x)"
proof (induction "length x" arbitrary: x i rule: less_induct)
  case less
  show ?case
  proof (cases "16 \<le> length x")
    case True
    have IH: "aes_gctr (ctx_of key) (gcm_counter J (Suc i)) (drop 16 x) =
        Some (map2 (XOR) (gcm_stream key J (Suc i) (length x - 16)) (drop 16 x))"
      using less.hyps [of "drop 16 x" "Suc i"] True by simp
    have "map2 (XOR) (gcm_stream key J i (length x)) (take 16 x @ drop 16 x) =
        map2 (XOR) (Cipher key (gcm_counter J i)) (take 16 x) @ map2 (XOR) (gcm_stream key J (Suc i) (length x - 16)) (drop 16 x)"
      unfolding gcm_stream_step [OF True] by (rule map2_append_left) (use True assms in \<open>simp add: Cipher_length\<close>)
    then show ?thesis
      using True assms IH by (subst aes_gctr.simps) (simp add: aes_encrypt_Cipher inc32_counter xor_block_def)
  next
    case False
    show ?thesis
    proof (cases "x = []")
      case True
      then show ?thesis by (simp add: aes_gctr.simps)
    next
      case ne: False
      have "(length x + 15) div 16 = 1" using False ne by (cases x) auto
      then have "gcm_stream key J i (length x) = Cipher key (gcm_counter J i)" by (simp add: gcm_stream_def)
      moreover have "map2 (XOR) x (take (length x) k) = map2 (XOR) k x" for k :: bytes
        by (rule nth_equalityI) (auto simp: xor.commute)
      ultimately show ?thesis
        using False ne assms by (subst aes_gctr.simps) (simp add: aes_encrypt_Cipher)
    qed
  qed
qed

section \<open>GCM is the standard's\<close>

lemma J0_eq:
  assumes "aes_key_ok key"
  shows "aes_gcm_prepare_j0 iv (Cipher key (replicate 16 0)) = gcm_J0 key iv" "length (gcm_J0 key iv) = 16"
proof -
  let ?H = "Cipher key (replicate 16 0)"
  define L where "L = RTW_PUT_BE64 0 @ RTW_PUT_BE64 (word_of_nat (length iv * 8))"
  have H: "length ?H = 16" using assms by (simp add: Cipher_length)
  have p: "pad16 L = L" by (simp add: pad16_def L_def)
  have z: "RTW_PUT_BE64 0 = replicate 8 0" by (simp add: RTW_PUT_BE64_def eval_nat_numeral)
  note a = ghash_gcm_hash [OF H, of "replicate 16 0" iv, simplified]
  note b = ghash_gcm_hash [OF H conjunct1 [OF a], of L]
  have "w128 (ghash ?H L (ghash ?H iv (replicate 16 0))) = gcm_hash (w128 ?H) 0 (pad16 iv @ L)"
    using a b by (simp add: p gcm_hash_app [OF length_pad16])
  then have "ghash ?H L (ghash ?H iv (replicate 16 0)) = b128 (gcm_hash (w128 ?H) 0 (pad16 iv @ L))"
    using b by (metis b128_w128)
  then show "aes_gcm_prepare_j0 iv ?H = gcm_J0 key iv"
    unfolding aes_gcm_prepare_j0_def gcm_J0_def ghash_start_def L_def z [symmetric] mult.commute [of _ 8] by simp
  show "length (gcm_J0 key iv) = 16" by (simp add: gcm_J0_def)
qed

definition gcm_S :: "bytes \<Rightarrow> bytes \<Rightarrow> bytes \<Rightarrow> 128 word" where
  "gcm_S key aad c = gcm_hash (w128 (Cipher key (replicate 16 0))) 0 (pad16 aad @ pad16 c @
     RTW_PUT_BE64 (word_of_nat (8 * length aad)) @ RTW_PUT_BE64 (word_of_nat (8 * length c)))"

lemma aes_gcm_ghash_S:
  assumes "aes_key_ok key"
  shows "aes_gcm_ghash (Cipher key (replicate 16 0)) aad c = b128 (gcm_S key aad c)"
proof -
  let ?H = "Cipher key (replicate 16 0)"
  define L where "L = RTW_PUT_BE64 (word_of_nat (8 * length aad)) @ RTW_PUT_BE64 (word_of_nat (8 * length c))"
  have H: "length ?H = 16" using assms by (simp add: Cipher_length)
  have p: "pad16 L = L" by (simp add: pad16_def L_def)
  note a = ghash_gcm_hash [OF H, of "replicate 16 0" aad, simplified]
  note b = ghash_gcm_hash [OF H conjunct1 [OF a], of c]
  note d = ghash_gcm_hash [OF H conjunct1 [OF b], of L]
  have e: "aes_gcm_ghash ?H aad c = ghash ?H L (ghash ?H c (ghash ?H aad (replicate 16 0)))"
    unfolding aes_gcm_ghash_def ghash_start_def L_def mult.commute [of _ 8] ..
  have "w128 (aes_gcm_ghash ?H aad c) = gcm_S key aad c"
    using a b d unfolding e gcm_S_def L_def [symmetric] by (simp add: p gcm_hash_app [OF length_pad16])
  then show ?thesis using d b128_w128 [of "aes_gcm_ghash ?H aad c"] unfolding e by simp
qed

lemma gcm_encryption_eq:
  "gcm_encryption key iv aad plain =
     (let c = map2 (XOR) (gcm_stream key (gcm_J0 key iv) 1 (length plain)) plain
      in (c, b128 (gcm_S key aad c XOR w128 (Cipher key (gcm_J0 key iv)))))"
  by (simp add: gcm_encryption_def gcm_S_def Let_def map2_xor_comm [of plain])

lemma gcm_tag:
  assumes "aes_key_ok key" and "length J = 16"
  shows "aes_gctr (ctx_of key) J (b128 S) = Some (b128 (S XOR w128 (Cipher key J)))"
proof -
  have "gcm_stream key J 0 16 = Cipher key J" using assms by (simp add: gcm_stream_def gcm_counter_0)
  then have "aes_gctr (ctx_of key) J (b128 S) = Some (map2 (XOR) (Cipher key J) (b128 S))"
    using aes_gctr_stream [OF assms(1), of J 0 "b128 S"] assms by (simp add: gcm_counter_0)
  moreover have "map2 (XOR) (Cipher key J) (b128 S) = b128 (S XOR w128 (Cipher key J))"
    using assms by (intro w128_inj) (simp_all add: w128_xor Cipher_length xor.commute)
  ultimately show ?thesis by simp
qed

lemma aes_gcm_gctr_stream:
  assumes "aes_key_ok key" and "length J = 16"
  shows "aes_gcm_gctr (ctx_of key) J x = Some (map2 (XOR) (gcm_stream key J 1 (length x)) x)"
  using aes_gctr_stream [OF assms(1), of J 1 x] inc32_counter [of J 0] assms(2)
  by (simp add: aes_gcm_gctr_def gcm_counter_0)

lemma aes_gcm_ae_eq:
  assumes "aes_key_ok key" and "mem AES_PRIV_SIZE"
  shows "aes_gcm_ae mem key (length key) iv plain aad = Some (Some (gcm_encryption key iv aad plain))"
  using assms
  by (simp add: aes_gcm_ae_def aes_gcm_init_hash_subkey_def aes_encrypt_init_ok aes_encrypt_Cipher J0_eq
      aes_gcm_gctr_stream aes_gcm_ghash_S gcm_tag gcm_encryption_eq Let_def)

lemma aes_gcm_ad_eq:
  assumes "aes_key_ok key" and "mem AES_PRIV_SIZE" and "length tag = 16"
  shows "aes_gcm_ad mem key (length key) iv crypt aad tag =
    Some (let plain = map2 (XOR) (gcm_stream key (gcm_J0 key iv) 1 (length crypt)) crypt
          in if gcm_encryption key iv aad plain = (crypt, tag) then Some plain else None)"
proof -
  define s where "s = gcm_stream key (gcm_J0 key iv) 1 (length crypt)"
  have ls: "length crypt \<le> length s" using length_gcm_stream [OF assms(1)] by (simp add: s_def)
  have c: "map2 (XOR) s (map2 (XOR) s crypt) = crypt" "length (map2 (XOR) s crypt) = length crypt"
    using map2_xor_twice [OF ls] ls by simp_all
  have e: "gcm_encryption key iv aad (map2 (XOR) s crypt) = (crypt, b128 (gcm_S key aad crypt XOR w128 (Cipher key (gcm_J0 key iv))))"
    unfolding gcm_encryption_eq c(2) s_def [symmetric] c(1) Let_def ..
  show ?thesis
    using assms e
    by (auto simp: aes_gcm_ad_def aes_gcm_init_hash_subkey_def aes_encrypt_init_ok aes_encrypt_Cipher J0_eq rd_slice_def
        aes_gcm_gctr_stream aes_gcm_ghash_S gcm_tag Let_def os_memcmp_const_eq s_def)
qed

lemma aes_gcm_ad_ae:
  assumes "aes_key_ok key" and "mem AES_PRIV_SIZE" and "length tag = 16"
  shows "aes_gcm_ad mem key (length key) iv crypt aad tag = Some (Some plain) \<longleftrightarrow>
    aes_gcm_ae mem key (length key) iv plain aad = Some (Some (crypt, tag))"
proof -
  have "plain = map2 (XOR) (gcm_stream key (gcm_J0 key iv) 1 (length crypt)) crypt" if "gcm_encryption key iv aad plain = (crypt, tag)"
  proof -
    have ls: "length plain \<le> length (gcm_stream key (gcm_J0 key iv) 1 (length plain))"
      using length_gcm_stream [OF assms(1)] by simp
    have "crypt = map2 (XOR) (gcm_stream key (gcm_J0 key iv) 1 (length plain)) plain"
      using that by (simp add: gcm_encryption_eq Let_def)
    moreover from this ls have "length crypt = length plain" by simp
    ultimately show ?thesis using map2_xor_twice [OF ls] by simp
  qed
  then show ?thesis
    by (auto simp: aes_gcm_ad_eq [where mem = mem, OF assms] aes_gcm_ae_eq [where mem = mem, OF assms(1,2)] Let_def)
qed

section \<open>GCMP frames through the interface\<close>

lemma aes_gcm_fit:
  assumes "n \<in> {16, 24, 32}" and "n \<le> length tk" and "mem AES_PRIV_SIZE"
  shows "aes_gcm_ae mem tk n = aes_gcm_ae (\<lambda>k. True) (fit_key n tk) n"
    and "aes_gcm_ad mem tk n = aes_gcm_ad (\<lambda>k. True) (fit_key n tk) n"
  by (intro ext, simp only: aes_gcm_ae_def aes_gcm_ad_def aes_gcm_init_hash_subkey_def aes_encrypt_init_fit [where mem = mem, OF assms])+

lemma gcm_aead:
  assumes "n \<in> {16, 24, 32}"
  shows "aead (gcmp_aad_nonce spp) (\<lambda>nonce aad p room. aes_gcm_ae (\<lambda>k. True) (fit_key n tk) n nonce p aad)
    (\<lambda>nonce aad c t room. aes_gcm_ad (\<lambda>k. True) (fit_key n tk) n nonce c aad t) 16 12"
proof (unfold_locales, goal_cases)
  case (1 hdr data)
  then show ?case by (rule gcmp_aad_nonce_Some)
next
  case (2 hdr data x y)
  then show ?case by (rule gcmp_aad_nonce_prefix)
next
  case (3 aad nonce p room)
  have k: "aes_key_ok (fit_key n tk)" using assms by (rule aes_key_ok_fit)
  show ?case
    using aes_gcm_ae_eq [OF k, of "\<lambda>k. True" nonce p aad] length_gcm_stream [OF k, of "gcm_J0 (fit_key n tk) nonce" 1 "length p"]
    by (simp add: gcm_encryption_eq Let_def)
next
  case (4 aad nonce c room t)
  then show ?case using aes_gcm_ad_eq [of "fit_key n tk" "\<lambda>k. True" t nonce c aad] assms aes_key_ok_fit by simp
next
  case (5 aad nonce c room t p room')
  then show ?case using aes_gcm_ad_ae [of "fit_key n tk" "\<lambda>k. True" t nonce c aad p] assms aes_key_ok_fit by simp
qed

interpretation gcmp: aead "gcmp_aad_nonce spp" "\<lambda>nonce aad p room. aes_gcm_ae (\<lambda>k. True) (fit_key 16 tk) 16 nonce p aad"
  "\<lambda>nonce aad c t room. aes_gcm_ad (\<lambda>k. True) (fit_key 16 tk) 16 nonce c aad t" 16 12 for spp tk
  by (rule gcm_aead) simp

interpretation gcmp256: aead "gcmp_aad_nonce spp" "\<lambda>nonce aad p room. aes_gcm_ae (\<lambda>k. True) (fit_key 32 tk) 32 nonce p aad"
  "\<lambda>nonce aad c t room. aes_gcm_ad (\<lambda>k. True) (fit_key 32 tk) 32 nonce c aad t" 16 12 for spp tk
  by (rule gcm_aead) simp

lemma gcmp_encrypt_fit:
  assumes "n \<in> {16, 24, 32}" and "n \<le> length tk" and "mem AES_PRIV_SIZE"
  shows "gcmp_encrypt mem spp tk n = frame_encrypt mem False (gcmp_aad_nonce spp)
      (\<lambda>nonce aad p room. aes_gcm_ae (\<lambda>k. True) (fit_key n tk) n nonce p aad) 16"
    and "gcmp_decrypt mem spp tk n = frame_decrypt mem (gcmp_aad_nonce spp)
      (\<lambda>nonce aad c t room. aes_gcm_ad (\<lambda>k. True) (fit_key n tk) n nonce c aad t) 16"
  by (intro ext, simp only: gcmp_encrypt_def gcmp_decrypt_def aes_gcm_fit [where mem = mem, OF assms])+

section \<open>Properties\<close>

text \<open>C4: \<open>aes_gcm_ae\<close> computes the authenticated encryption of GCM (SP 800-38D) under the AES of FIPS 197: the
  shifts over bytes and words of \<open>gf_mult\<close> are the multiplication of the field of \<open>2^128\<close> elements, the hash runs
  over the padded additional data, the padded ciphertext and both lengths in bits, the counter is incremented modulo
  \<open>2^32\<close> from the block made of the initialisation vector, of 12 bytes or any other length.\<close>

theorem aes_gcm_ae_sp800_38d:
  assumes "length key \<in> {16, 24, 32}" and "mem AES_PRIV_SIZE"
  shows "aes_gcm_ae mem key (length key) iv plain aad = Some (Some (gcm_encryption key iv aad plain))"
  by (rule aes_gcm_ae_eq) (use assms in \<open>auto simp: aes_key_ok_def\<close>)

theorem aes_gcm_ae_sp800_38d_witness:
  "aes_gcm_ae (\<lambda>n. True) (replicate 32 1) 32 (replicate 12 2) [1, 2, 3] [4] =
     Some (Some (gcm_encryption (replicate 32 1) (replicate 12 2) [4] [1, 2, 3]))"
  using aes_gcm_ae_sp800_38d [of "replicate 32 1" "\<lambda>n. True" "replicate 12 2" "[1, 2, 3]" "[4]"] by simp

text \<open>C14: GCMP frames, with keys of 16 and of 32 bytes. A frame is encrypted to the same header, the same eight
  bytes with the packet number, as many bytes and a tag of 16 bytes, and is decrypted to the data again; the receiver
  accepts a frame with the data \<open>p\<close> exactly when encrypting \<open>p\<close> under that frame's header and packet number gives
  that frame.\<close>

theorem gcmp_frames:
  assumes "length h = hdrlen" and "24 \<le> hdrlen" and "length iv = 8" and "tk_len \<in> {16, 32}" and "tk_len \<le> length tk"
    and "\<And>n. mem n"
  shows "(\<exists>c t. gcmp_encrypt mem spp tk tk_len (h @ iv @ p) (hdrlen + length p) hdrlen None 0 = Some (Some (h @ iv @ c @ t)) \<and>
          length c = length p \<and> length t = 16 \<and>
          gcmp_decrypt mem spp tk tk_len (h @ iv @ c @ t) (iv @ c @ t) = Some (Some p)) \<and>
    (length c = length p \<longrightarrow> length t = 16 \<longrightarrow>
      (gcmp_decrypt mem spp tk tk_len (h @ iv @ c @ t) (iv @ c @ t) = Some (Some p) \<longleftrightarrow>
         gcmp_encrypt mem spp tk tk_len (h @ iv @ p) (hdrlen + length p) hdrlen None 0 = Some (Some (h @ iv @ c @ t))))"
proof -
  have h: "frame_hdr False h = h" by (simp add: frame_hdr_def)
  have n: "tk_len \<in> {16, 24, 32}" using assms(4) by auto
  show ?thesis
    using assms aead.frame_roundtrip [OF gcm_aead [OF n], of h hdrlen iv mem p False spp tk "[]" 0 "[]"]
      aead.frame_decrypt_iff [OF gcm_aead [OF n], of h hdrlen iv c p t mem False spp tk "[]" 0]
    unfolding h by (simp add: gcmp_encrypt_fit [OF n])
qed

theorem gcmp_frames_witness:
  "\<exists>c t. gcmp_encrypt (\<lambda>n. True) False (replicate 16 7) 16 (replicate 24 0 @ replicate 8 1 @ [1, 2, 3]) 27 24 None 0 =
       Some (Some (replicate 24 0 @ replicate 8 1 @ c @ t)) \<and> length c = 3 \<and> length t = 16 \<and>
     gcmp_decrypt (\<lambda>n. True) False (replicate 16 7) 16 (replicate 24 0 @ replicate 8 1 @ c @ t) (replicate 8 1 @ c @ t) =
       Some (Some [1, 2, 3])"
proof -
  have "length (replicate 24 (0 :: u8)) = 24" "(24 :: nat) \<le> 24" "length (replicate 8 (1 :: u8)) = 8" "16 \<le> length (replicate 16 (7 :: u8))"
    "(16 :: nat) \<in> {16, 32}" "24 + length [1 :: u8, 2, 3] = 27" "length [1 :: u8, 2, 3] = 3"
    by simp_all
  then show ?thesis
    using gcmp_frames [of "replicate 24 0" 24 "replicate 8 1" 16 "replicate 16 7" "\<lambda>n. True" False "[1, 2, 3]" "[]" "[]", THEN conjunct1]
    by metis
qed

end
