(* ===== verification/Crypto_Omac.thy ===== *)
theory Crypto_Omac
  imports Crypto_Ccm
begin

text \<open>
  CMAC, counter mode and SIV over the AES of \<open>Crypto_Aes\<close>: \<^verbatim>\<open>core/crypto/aes-omac1.c\<close>, \<^verbatim>\<open>core/crypto/aes-ctr.c\<close> and
  \<^verbatim>\<open>core/crypto/aes-siv.c\<close>. A vector of data areas is the list of their contents. The outer option tells a read
  outside an array, the inner one the return of a negative value.
\<close>

section \<open>CMAC\<close>

definition gf_mulx :: "bytes \<Rightarrow> bytes" where
  "gf_mulx pad =
     (let s = map (\<lambda>i. push_bit 1 (pad ! i) OR drop_bit 7 (pad ! (i + 1))) [0..<15] @ [push_bit 1 (pad ! 15)]
      in if pad ! 0 AND 0x80 \<noteq> 0 then s[15 := s ! 15 XOR 0x87] else s)"

text \<open>The next byte of the vector: \<open>cur\<close> is what the current area has from \<open>pos\<close> to \<open>end\<close>, \<open>rest\<close> the areas after it.
  Without a byte left the code reads past \<open>end\<close>. After the last byte of an area it goes on to the next one, unless
  this is the byte (\<open>fin\<close>) at which the loop is left first.\<close>

fun omac_byte :: "bool \<Rightarrow> bytes \<Rightarrow> bytes list \<Rightarrow> (u8 \<times> bytes \<times> bytes list) option" where
  "omac_byte fin [] rest = None"
| "omac_byte fin (b # bs) rest =
     (if bs \<noteq> [] \<or> fin then Some (b, bs, rest)
      else case rest of [] \<Rightarrow> None | el # els \<Rightarrow> Some (b, el, els))"

text \<open>The inner loops, over \<open>n\<close> bytes; \<open>fin\<close> tells that the loop is left at its last byte.\<close>

fun omac_read :: "nat \<Rightarrow> bool \<Rightarrow> bytes \<Rightarrow> bytes list \<Rightarrow> (bytes \<times> bytes \<times> bytes list) option" where
  "omac_read 0 fin cur rest = Some ([], cur, rest)"
| "omac_read (Suc n) fin cur rest = do {
     (b, cur', rest') \<leftarrow> omac_byte (fin \<and> n = 0) cur rest;
     (bs, cur'', rest'') \<leftarrow> omac_read n fin cur' rest';
     Some (b # bs, cur'', rest'') }"

function omac_loop :: "aes_ctx \<Rightarrow> nat \<Rightarrow> bytes \<Rightarrow> bytes \<Rightarrow> bytes list \<Rightarrow> (nat \<times> bytes \<times> bytes \<times> bytes list) option" where
  "omac_loop ctx left cbc cur rest =
     (if 16 \<le> left then do {
        (d, cur', rest') \<leftarrow> omac_read 16 (left = 16) cur rest;
        cbc' \<leftarrow> (if 16 < left then aes_encrypt ctx (map2 (XOR) cbc d) else Some (map2 (XOR) cbc d));
        omac_loop ctx (left - 16) cbc' cur' rest' }
      else Some (left, cbc, cur, rest))"
  by pat_completeness auto
termination
  by (relation "measure (\<lambda>(ctx, left, cbc, cur, rest). left)") auto

definition omac1_aes_vector :: "(nat \<Rightarrow> bool) \<Rightarrow> bytes \<Rightarrow> nat \<Rightarrow> bytes list \<Rightarrow> bytes option option" where
  "omac1_aes_vector mem key key_len els = do {
     init \<leftarrow> aes_encrypt_init mem key key_len;
     case init of
       None \<Rightarrow> Some None
     | Some ctx \<Rightarrow>
         (case els of
            [] \<Rightarrow> None
          | e # es \<Rightarrow> do {
              let total_len = sum_list (map length els);
              (left, cbc, cur, rest) \<leftarrow> omac_loop ctx total_len (replicate 16 0) e es;
              pad0 \<leftarrow> aes_encrypt ctx (replicate 16 0);
              let pad1 = gf_mulx pad0;
              (pad, cbc') \<leftarrow>
                (if left \<noteq> 0 \<or> total_len = 0 then do {
                   (d, _, _) \<leftarrow> omac_read left True cur rest;
                   let c = map2 (XOR) (take left cbc) d @ drop left cbc;
                   Some (gf_mulx pad1, c[left := c ! left XOR 0x80]) }
                 else Some (pad1, cbc));
              mac \<leftarrow> aes_encrypt ctx (map2 (XOR) pad cbc');
              Some (Some mac) }) }"

definition omac1_aes_128_vector :: "(nat \<Rightarrow> bool) \<Rightarrow> bytes \<Rightarrow> bytes list \<Rightarrow> bytes option option" where
  "omac1_aes_128_vector mem key els = omac1_aes_vector mem key 16 els"

definition omac1_aes_128 :: "(nat \<Rightarrow> bool) \<Rightarrow> bytes \<Rightarrow> bytes \<Rightarrow> bytes option option" where
  "omac1_aes_128 mem key data = omac1_aes_128_vector mem key [data]"

definition omac1_aes_256 :: "(nat \<Rightarrow> bool) \<Rightarrow> bytes \<Rightarrow> bytes \<Rightarrow> bytes option option" where
  "omac1_aes_256 mem key data = omac1_aes_vector mem key 32 [data]"

section \<open>Counter mode\<close>

text \<open>The loop from the last byte of the counter to the first, on the reversed counter.\<close>

fun ctr_inc_loop :: "bytes \<Rightarrow> bytes" where
  "ctr_inc_loop [] = []"
| "ctr_inc_loop (c # cs) = (if c + 1 \<noteq> 0 then (c + 1) # cs else (c + 1) # ctr_inc_loop cs)"

definition ctr_inc :: "bytes \<Rightarrow> bytes" where
  "ctr_inc counter = rev (ctr_inc_loop (rev counter))"

function ctr_loop :: "aes_ctx \<Rightarrow> bytes \<Rightarrow> bytes \<Rightarrow> bytes option" where
  "ctr_loop ctx counter data =
     (if data = [] then Some []
      else do {
        buf \<leftarrow> aes_encrypt ctx counter;
        rest \<leftarrow> ctr_loop ctx (ctr_inc counter) (drop 16 data);
        Some (map2 (XOR) (take 16 data) buf @ rest) })"
  by pat_completeness auto
termination
  by (relation "measure (\<lambda>(ctx, counter, data). length data)") (auto simp: neq_Nil_conv)

definition aes_ctr_encrypt :: "(nat \<Rightarrow> bool) \<Rightarrow> bytes \<Rightarrow> nat \<Rightarrow> bytes \<Rightarrow> bytes \<Rightarrow> bytes option option" where
  "aes_ctr_encrypt mem key key_len nonce data = do {
     init \<leftarrow> aes_encrypt_init mem key key_len;
     case init of
       None \<Rightarrow> Some None
     | Some ctx \<Rightarrow> do {
         counter \<leftarrow> rd_slice nonce 0 16;
         out \<leftarrow> ctr_loop ctx counter data;
         Some (Some out) } }"

definition aes_128_ctr_encrypt :: "(nat \<Rightarrow> bool) \<Rightarrow> bytes \<Rightarrow> bytes \<Rightarrow> bytes \<Rightarrow> bytes option option" where
  "aes_128_ctr_encrypt mem key nonce data = aes_ctr_encrypt mem key 16 nonce data"

section \<open>SIV\<close>

text \<open>\<open>dbl\<close> is the code of \<open>gf_mulx\<close> again.\<close>

definition dbl :: "bytes \<Rightarrow> bytes" where
  "dbl pad =
     (let s = map (\<lambda>i. push_bit 1 (pad ! i) OR drop_bit 7 (pad ! (i + 1))) [0..<15] @ [push_bit 1 (pad ! 15)]
      in if pad ! 0 AND 0x80 \<noteq> 0 then s[15 := s ! 15 XOR 0x87] else s)"

definition xorend :: "bytes \<Rightarrow> bytes \<Rightarrow> bytes" where
  "xorend a b =
     (if length a < length b then a
      else take (length a - length b) a @ map2 (XOR) (drop (length a - length b) a) b)"

definition pad_block :: "bytes \<Rightarrow> bytes" where
  "pad_block addr =
     (let pad = addr @ replicate (16 - length addr) 0
      in if length addr < 16 then pad[length addr := 0x80] else pad)"

text \<open>The loop of \<open>aes_s2v\<close> over all areas but the last one.\<close>

fun s2v_loop :: "(nat \<Rightarrow> bool) \<Rightarrow> bytes \<Rightarrow> nat \<Rightarrow> bytes list \<Rightarrow> bytes \<Rightarrow> bytes option option" where
  "s2v_loop mem key key_len [] tmp = Some (Some tmp)"
| "s2v_loop mem key key_len (e # es) tmp = do {
     r \<leftarrow> omac1_aes_vector mem key key_len [e];
     case r of
       None \<Rightarrow> Some None
     | Some tmp2 \<Rightarrow> s2v_loop mem key key_len es (map2 (XOR) (dbl tmp) tmp2) }"

definition aes_s2v :: "(nat \<Rightarrow> bool) \<Rightarrow> bytes \<Rightarrow> nat \<Rightarrow> bytes list \<Rightarrow> bytes option option" where
  "aes_s2v mem key key_len els =
     (if els = [] then omac1_aes_vector mem key key_len [replicate 15 0 @ [1]]
      else do {
        r0 \<leftarrow> omac1_aes_vector mem key key_len [replicate 16 0];
        case r0 of
          None \<Rightarrow> Some None
        | Some tmp0 \<Rightarrow> do {
            r \<leftarrow> s2v_loop mem key key_len (butlast els) tmp0;
            case r of
              None \<Rightarrow> Some None
            | Some tmp \<Rightarrow>
                if 16 \<le> length (last els) then
                  (if mem (length (last els)) then omac1_aes_vector mem key key_len [xorend (last els) tmp] else Some None)
                else omac1_aes_vector mem key key_len [map2 (XOR) (dbl tmp) (pad_block (last els))] } })"

text \<open>The initial counter: two bits of the tag cleared.\<close>

definition siv_counter :: "bytes \<Rightarrow> bytes" where
  "siv_counter v = v[8 := v ! 8 AND 0x7f, 12 := v ! 12 AND 0x7f]"

definition aes_siv_encrypt :: "(nat \<Rightarrow> bool) \<Rightarrow> bytes \<Rightarrow> nat \<Rightarrow> bytes \<Rightarrow> bytes list \<Rightarrow> bytes option option" where
  "aes_siv_encrypt mem key key_len pw els =
     (if 5 < length els \<or> key_len \<noteq> 32 \<and> key_len \<noteq> 48 \<and> key_len \<noteq> 64 then Some None
      else do {
        let n = key_len div 2;
        r \<leftarrow> aes_s2v mem key n (els @ [pw]);
        case r of
          None \<Rightarrow> Some None
        | Some v \<Rightarrow> do {
            c \<leftarrow> aes_ctr_encrypt mem (drop n key) n (siv_counter v) pw;
            Some (map_option (\<lambda>c. v @ c) c) } })"

definition aes_siv_decrypt :: "(nat \<Rightarrow> bool) \<Rightarrow> bytes \<Rightarrow> nat \<Rightarrow> bytes \<Rightarrow> bytes list \<Rightarrow> bytes option option" where
  "aes_siv_decrypt mem key key_len iv_crypt els =
     (if length iv_crypt < 16 \<or> 5 < length els \<or> key_len \<noteq> 32 \<and> key_len \<noteq> 48 \<and> key_len \<noteq> 64 then Some None
      else do {
        let n = key_len div 2;
        r \<leftarrow> aes_ctr_encrypt mem (drop n key) n (siv_counter (take 16 iv_crypt)) (drop 16 iv_crypt);
        case r of
          None \<Rightarrow> Some None
        | Some out \<Rightarrow> do {
            s \<leftarrow> aes_s2v mem key n (els @ [out]);
            case s of
              None \<Rightarrow> Some None
            | Some check \<Rightarrow> Some (if check = take 16 iv_crypt then Some out else None) } })"

section \<open>CMAC as SP 800-38B states it\<close>

text \<open>Doubling in the field, the two subkeys, and the code: the message up to its last block (\<open>cmac_cut\<close> bytes) goes through
  CBC-MAC, the last block is masked with one of the subkeys.\<close>

definition cmac_dbl :: "128 word \<Rightarrow> 128 word" where
  "cmac_dbl w = (if bit w 127 then push_bit 1 w XOR 0x87 else push_bit 1 w)"

definition cmac_K1 :: "bytes \<Rightarrow> bytes" where
  "cmac_K1 key = b128 (cmac_dbl (w128 (Cipher key (replicate 16 0))))"

definition cmac_K2 :: "bytes \<Rightarrow> bytes" where
  "cmac_K2 key = b128 (cmac_dbl (cmac_dbl (w128 (Cipher key (replicate 16 0)))))"

definition cmac_cut :: "bytes \<Rightarrow> nat" where
  "cmac_cut m = (length m - 1) div 16 * 16"

definition cmac_last :: "bytes \<Rightarrow> bytes \<Rightarrow> bytes" where
  "cmac_last key l =
     (if length l = 16 then map2 (XOR) (cmac_K1 key) l
      else map2 (XOR) (cmac_K2 key) (l @ [0x80] @ replicate (15 - length l) 0))"

definition cmac :: "bytes \<Rightarrow> bytes \<Rightarrow> bytes" where
  "cmac key m =
     Cipher key (map2 (XOR) (cbc_mac key (replicate 16 0) (take (cmac_cut m) m)) (cmac_last key (drop (cmac_cut m) m)))"

section \<open>The code computes CMAC\<close>

declare omac_loop.simps [simp del]

lemma bit_w128_div: "n < 128 \<Longrightarrow> bit (w128 x) n \<longleftrightarrow> bit (x ! (15 - n div 8)) (n mod 8)"
  using bit_w128_byte [of "15 - n div 8" "n mod 8" x] by simp

lemma length_gf_mulx [simp]: "length (gf_mulx pad) = 16"
  by (simp add: gf_mulx_def Let_def)

lemma bit_gf_shift:
  assumes "k < 16"
  shows "bit ((map (\<lambda>i. push_bit 1 (pad ! i) OR drop_bit 7 (pad ! (i + 1))) [0..<15] @ [push_bit 1 (pad ! 15 :: u8)]) ! k) m \<longleftrightarrow>
     m < 8 \<and> (if m = 0 then k < 15 \<and> bit (pad ! (k + 1)) 7 else bit (pad ! k) (m - 1))"
proof (cases "k = 15")
  case False
  then show ?thesis using assms
    by (auto simp: nth_append bit_simps not_less simp del: push_bit_Suc One_nat_def dest: bit_imp_le_length)
qed (auto simp: nth_append bit_simps not_less simp del: push_bit_Suc One_nat_def dest: bit_imp_le_length)

lemma w128_87:
  assumes "length s = 16"
  shows "w128 (s[15 := s ! 15 XOR 0x87]) = w128 s XOR 0x87"
proof -
  have "s[15 := s ! 15 XOR 0x87] = map2 (XOR) s (replicate 15 0 @ [0x87])"
    using assms by (intro nth_equalityI) (auto simp: nth_list_update nth_append)
  moreover have "w128 (replicate 15 0 @ [0x87]) = 0x87"
    by (simp add: w128_def RTW_GET_BE32_def nth_append)
  ultimately show ?thesis using assms by (simp add: w128_xor)
qed

lemma w128_shl:
  "w128 (map (\<lambda>i. push_bit 1 (pad ! i) OR drop_bit 7 (pad ! (i + 1))) [0..<15] @ [push_bit 1 (pad ! 15)]) = push_bit 1 (w128 pad)"
  (is "w128 ?s = _")
proof (rule bit_word_eqI)
  fix n assume "n < LENGTH(128)"
  define q r where "q = n div 8" and "r = n mod 8"
  have n: "n = 8 * q + r" "q < 16" "r < 8" using \<open>n < LENGTH(128)\<close> by (auto simp: q_def r_def)
  have b: "bit (w128 ?s) n = bit (?s ! (15 - q)) r"
    using n bit_w128_byte [of "15 - q" r ?s] by simp
  have p: "bit (push_bit 1 (w128 pad)) n = (0 < n \<and> bit (w128 pad) (n - 1))"
    using n by (auto simp: bit_push_bit_iff simp del: push_bit_Suc One_nat_def)
  show "bit (w128 ?s) n = bit (push_bit 1 (w128 pad)) n"
  proof (cases "r = 0")
    case True
    show ?thesis
    proof (cases q)
      case 0
      then show ?thesis unfolding b p using n True bit_gf_shift [of 15 pad 0] by simp
    next
      case (Suc k)
      then have k: "n - 1 = 8 * k + 7" "15 - q = 14 - k" "14 - k + 1 = 15 - k" "0 < n" "k < 15" "14 - k < 15" using n True by auto
      have "bit (?s ! (14 - k)) 0 = bit (pad ! (15 - k)) 7" using bit_gf_shift [of "14 - k" pad 0] k(3,6) by simp
      moreover have "bit (w128 pad) (n - 1) = bit (pad ! (15 - k)) 7" using bit_w128_byte [of "15 - k" 7 pad] k(1,5) by simp
      ultimately show ?thesis unfolding b p k(2) True using k(4) by simp
    qed
  next
    case False
    then show ?thesis unfolding b p using n bit_gf_shift [of "15 - q" pad r] bit_w128_byte [of "15 - q" "r - 1" pad]
      by (cases r) auto
  qed
qed

lemma gf_mulx_dbl: "w128 (gf_mulx pad) = cmac_dbl (w128 pad)"
proof -
  have "pad ! 0 AND 0x80 \<noteq> 0 \<longleftrightarrow> bit (pad ! 0) 7"
    using and_exp_eq_0_iff_not_bit [of "pad ! 0" 7] by simp
  also have "\<dots> \<longleftrightarrow> bit (w128 pad) 127" using bit_w128_div [of 127 pad] by simp
  finally show ?thesis
    using w128_87 [of "map (\<lambda>i. push_bit 1 (pad ! i) OR drop_bit 7 (pad ! (i + 1))) [0..<15] @ [push_bit 1 (pad ! 15)]"]
    unfolding gf_mulx_def Let_def cmac_dbl_def w128_shl by (simp only: if_distrib [of w128] w128_shl) simp
qed

lemma gf_mulx_b128: "gf_mulx pad = b128 (cmac_dbl (w128 pad))"
  using gf_mulx_dbl [of pad] by (metis b128_w128 length_gf_mulx)

text \<open>Reading bytes of the areas, none of which may be empty unless all are.\<close>

definition areas_ok :: "bytes \<Rightarrow> bytes list \<Rightarrow> bool" where
  "areas_ok cur rest \<longleftrightarrow> cur @ concat rest = [] \<or> [] \<notin> set (cur # rest)"

lemma omac_byte_spec:
  assumes "areas_ok cur rest" and "cur @ concat rest = b # m" and "fin \<longleftrightarrow> m = []"
  shows "\<exists>cur' rest'. omac_byte fin cur rest = Some (b, cur', rest') \<and> cur' @ concat rest' = m \<and> areas_ok cur' rest'"
proof -
  have "[] \<notin> set (cur # rest)" using assms(1,2) unfolding areas_ok_def by (metis list.distinct(1))
  then obtain bs where c: "cur = b # bs" and r: "[] \<notin> set rest" using assms(2) by (cases cur) auto
  show ?thesis
  proof (cases "bs \<noteq> [] \<or> fin")
    case True
    then show ?thesis using assms c r by (auto simp: areas_ok_def)
  next
    case False
    then obtain el els where "rest = el # els" using assms c by (cases rest) auto
    then show ?thesis using False assms c r by (auto simp: areas_ok_def)
  qed
qed

lemma omac_read_spec:
  assumes "areas_ok cur rest" and "n \<le> length (cur @ concat rest)" and "0 < n \<Longrightarrow> fin \<longleftrightarrow> n = length (cur @ concat rest)"
  shows "\<exists>cur' rest'. omac_read n fin cur rest = Some (take n (cur @ concat rest), cur', rest') \<and>
    cur' @ concat rest' = drop n (cur @ concat rest) \<and> areas_ok cur' rest'"
  using assms
proof (induction n arbitrary: cur rest)
  case (Suc n)
  then obtain b m where m: "cur @ concat rest = b # m" by (cases "cur @ concat rest") auto
  have "(fin \<and> n = 0) \<longleftrightarrow> m = []" using Suc.prems m by auto
  from omac_byte_spec [OF Suc.prems(1) m this] obtain cur' rest' where
    b: "omac_byte (fin \<and> n = 0) cur rest = Some (b, cur', rest')" "cur' @ concat rest' = m" "areas_ok cur' rest'" by blast
  show ?case using Suc.IH [OF b(3)] Suc.prems b m by auto
qed simp

lemma cmac_cut_step: "16 < length m \<Longrightarrow> cmac_cut m = 16 + cmac_cut (drop 16 m)"
  using le_div_geq [of 16 "length m - 1"] by (simp add: cmac_cut_def diff_right_commute)

lemma cmac_cut_small: "length m \<le> 16 \<Longrightarrow> cmac_cut m = 0"
  by (cases "length m") (auto simp: cmac_cut_def)

lemma cbc_mac_length: "aes_key_ok key \<Longrightarrow> length x = 16 \<Longrightarrow> length m mod 16 = 0 \<Longrightarrow> length (cbc_mac key x m) = 16"
  using aes_ccm_auth_cbc [of key x m] by (simp add: pad16_def)

lemma omac_loop_spec:
  assumes "aes_key_ok key" and "areas_ok cur rest" and "length cbc = 16" and "m = cur @ concat rest"
  shows "\<exists>cur' rest'.
    omac_loop (ctx_of key) (length m) cbc cur rest =
      (let x = cbc_mac key cbc (take (cmac_cut m) m); l = drop (cmac_cut m) m
       in if length l = 16 then Some (0, map2 (XOR) x l, cur', rest') else Some (length l, x, cur', rest')) \<and>
    (length m mod 16 \<noteq> 0 \<or> m = [] \<longrightarrow> cur' @ concat rest' = drop (cmac_cut m) m \<and> areas_ok cur' rest')"
  using assms(2-)
proof (induction "length m" arbitrary: m cbc cur rest rule: less_induct)
  case less
  consider "length m < 16" | "length m = 16" | "16 < length m" by linarith
  then show ?case
  proof cases
    case 1
    then have "omac_loop (ctx_of key) (length m) cbc cur rest = Some (length m, cbc, cur, rest)"
      by (simp add: omac_loop.simps [of _ "length m"])
    then show ?thesis using 1 less.prems(1,3)
      by (intro exI [of _ cur] exI [of _ rest]) (simp add: cmac_cut_small)
  next
    case 2
    with omac_read_spec [OF less.prems(1), of 16 True] less.prems(3)
    obtain cur' rest' where "omac_read 16 True cur rest = Some (m, cur', rest')" by auto
    then have "omac_loop (ctx_of key) (length m) cbc cur rest = Some (0, map2 (XOR) cbc m, cur', rest')"
      using 2 by (simp add: omac_loop.simps [of _ 16] omac_loop.simps [of _ 0])
    then show ?thesis using 2 by (intro exI [of _ cur'] exI [of _ rest']) (auto simp: cmac_cut_small)
  next
    case 3
    with omac_read_spec [OF less.prems(1), of 16 False] less.prems(3)
    obtain cur' rest' where r: "omac_read 16 False cur rest = Some (take 16 m, cur', rest')"
      "cur' @ concat rest' = drop 16 m" "areas_ok cur' rest'" by auto
    let ?x = "Cipher key (map2 (XOR) cbc (take 16 m))"
    have x: "aes_encrypt (ctx_of key) (map2 (XOR) cbc (take 16 m)) = Some ?x" "length ?x = 16"
      using assms(1) 3 less.prems by (simp_all add: aes_encrypt_Cipher Cipher_length)
    define m' where "m' = drop 16 m"
    have c: "cmac_cut m = 16 + cmac_cut m'" using cmac_cut_step [OF 3] by (simp add: m'_def)
    have e1: "omac_loop (ctx_of key) (length m) cbc cur rest = omac_loop (ctx_of key) (length m') ?x cur' rest'"
      using 3 r x by (simp add: omac_loop.simps [of _ "length m"] m'_def)
    have e2: "cbc_mac key cbc (take (cmac_cut m) m) = cbc_mac key ?x (take (cmac_cut m') m')"
      using 3 by (simp add: c take_add cbc_mac_append m'_def)
    have e3: "drop (cmac_cut m) m = drop (cmac_cut m') m'" by (simp add: c m'_def add.commute)
    have e4: "(length m mod 16 \<noteq> 0 \<or> m = []) = (length m' mod 16 \<noteq> 0 \<or> m' = [])"
      using 3 le_mod_geq [of 16 "length m"] by (auto simp: m'_def)
    show ?thesis unfolding e1 e2 e3 e4
      by (rule less.hyps) (use 3 r x(2) in \<open>auto simp: m'_def\<close>)
  qed
qed

lemma cmac_cut_facts:
  "cmac_cut m \<le> length m" "length m - cmac_cut m \<le> 16" "cmac_cut m mod 16 = 0"
  "length m - cmac_cut m = 16 \<longleftrightarrow> m \<noteq> [] \<and> length m mod 16 = 0" "length m - cmac_cut m = 0 \<longleftrightarrow> m = []"
proof -
  show "cmac_cut m mod 16 = 0" by (simp add: cmac_cut_def)
  have "cmac_cut m \<le> length m \<and> length m - cmac_cut m \<le> 16 \<and>
      (length m - cmac_cut m = 16 \<longleftrightarrow> m \<noteq> [] \<and> length m mod 16 = 0) \<and> (length m - cmac_cut m = 0 \<longleftrightarrow> m = [])"
  proof (cases m)
    case (Cons a k)
    define q r where "q = length k div 16" and "r = length k mod 16"
    have "length k = 16 * q + r" "r < 16" by (auto simp: q_def r_def)
    moreover have "cmac_cut m = 16 * q" by (simp add: Cons cmac_cut_def q_def)
    moreover have "Suc (16 * q + r) mod 16 = 0 \<longleftrightarrow> r = 15" using \<open>r < 16\<close> by presburger
    ultimately show ?thesis by (auto simp: Cons)
  qed (simp add: cmac_cut_def)
  then show "cmac_cut m \<le> length m" "length m - cmac_cut m \<le> 16"
    "length m - cmac_cut m = 16 \<longleftrightarrow> m \<noteq> [] \<and> length m mod 16 = 0" "length m - cmac_cut m = 0 \<longleftrightarrow> m = []" by auto
qed

lemma omac_last_block:
  assumes "length x = 16" and "length l < 16"
  shows "(map2 (XOR) (take (length l) x) l @ drop (length l) x)
      [length l := (map2 (XOR) (take (length l) x) l @ drop (length l) x) ! length l XOR 0x80] =
    map2 (XOR) x (l @ [0x80] @ replicate (15 - length l) (0 :: u8))"
  using assms by (intro nth_equalityI) (auto simp: nth_append nth_list_update nth_Cons split: nat.splits)

lemma length_cmac_K [simp]: "length (cmac_K1 key) = 16" "length (cmac_K2 key) = 16"
  by (simp_all add: cmac_K1_def cmac_K2_def)

lemma map2_xor_assoc: "map2 (XOR) a (map2 (XOR) b c) = map2 (XOR) b (map2 (XOR) a (c :: bytes))"
  by (rule nth_equalityI) (auto simp: xor.left_commute)

lemma omac1_cmac:
  assumes k: "aes_key_ok key" and "mem AES_PRIV_SIZE" and "areas_ok e es"
  shows "omac1_aes_vector mem key (length key) (e # es) = Some (Some (cmac key (e @ concat es))) \<and>
    length (cmac key (e @ concat es)) = 16"
proof -
  define m where "m = e @ concat es"
  define x where "x = cbc_mac key (replicate 16 0) (take (cmac_cut m) m)"
  define l where "l = drop (cmac_cut m) m"
  have len: "sum_list (map length (e # es)) = length m" by (simp add: m_def length_concat)
  have x: "length x = 16" using k unfolding x_def using cmac_cut_facts(1,3) [of m] by (intro cbc_mac_length) (auto simp: min_def)
  have l: "length l \<le> 16" using cmac_cut_facts(2) [of m] by (simp add: l_def)
  have z: "aes_encrypt (ctx_of key) (replicate 16 0) = Some (Cipher key (replicate 16 0))"
    using k by (simp add: aes_encrypt_Cipher)
  have K: "gf_mulx (Cipher key (replicate 16 0)) = cmac_K1 key" "gf_mulx (cmac_K1 key) = cmac_K2 key"
    by (simp_all add: gf_mulx_b128 cmac_K1_def cmac_K2_def)
  have c: "length (cmac_last key l) = 16" using l by (auto simp: cmac_last_def)
  have e: "aes_encrypt (ctx_of key) (map2 (XOR) x (cmac_last key l)) = Some (cmac key m)" "length (cmac key m) = 16"
    using k x c by (simp_all add: aes_encrypt_Cipher Cipher_length cmac_def x_def l_def)
  obtain cur rest where loop: "omac_loop (ctx_of key) (length m) (replicate 16 0) e es =
      (if length l = 16 then Some (0, map2 (XOR) x l, cur, rest) else Some (length l, x, cur, rest))"
    and rest: "length m mod 16 \<noteq> 0 \<or> m = [] \<Longrightarrow> cur @ concat rest = l \<and> areas_ok cur rest"
    using omac_loop_spec [OF k assms(3) length_replicate m_def, of 0, unfolded Let_def, folded x_def l_def] by blast
  show ?thesis
  proof (cases "length l = 16")
    case True
    then have "length m \<noteq> 0" by (auto simp: l_def)
    moreover have "map2 (XOR) (cmac_K1 key) (map2 (XOR) x l) = map2 (XOR) x (cmac_last key l)"
      using True by (simp add: cmac_last_def map2_xor_assoc)
    ultimately show ?thesis unfolding omac1_aes_vector_def len m_def [symmetric] using aes_encrypt_init_ok [OF k, of mem] assms(2) loop True z K e
      by simp
  next
    case False
    have lm: "length m mod 16 \<noteq> 0 \<or> m = []" using False cmac_cut_facts(4) [of m] by (auto simp: l_def)
    then have r: "cur @ concat rest = l" "areas_ok cur rest" using rest by auto
    obtain c' r' where rd: "omac_read (length l) True cur rest = Some (l, c', r')"
      using omac_read_spec [OF r(2), of "length l" True] r(1) by auto
    have g: "length l \<noteq> 0 \<or> length m = 0" using cmac_cut_facts(5) [of m] by (auto simp: l_def)
    have "map2 (XOR) (cmac_K2 key) (map2 (XOR) x (l @ [0x80] @ replicate (15 - length l) 0)) = map2 (XOR) x (cmac_last key l)"
      using False by (simp add: cmac_last_def map2_xor_assoc)
    then show ?thesis unfolding omac1_aes_vector_def len m_def [symmetric]
      using aes_encrypt_init_ok [OF k, of mem] assms(2) loop False z K e rd g omac_last_block [OF x, of l] l
      by (simp add: Let_def)
  qed
qed

section \<open>Counter mode as SP 800-38A states it\<close>

definition ctr_stream :: "bytes \<Rightarrow> bytes \<Rightarrow> nat \<Rightarrow> bytes" where
  "ctr_stream key c n = concat (map (\<lambda>j. Cipher key (b128 (w128 c + word_of_nat j))) [0..<(n + 15) div 16])"

text \<open>A list of bytes, the least significant first, as a number.\<close>

fun le_val :: "bytes \<Rightarrow> nat" where
  "le_val [] = 0"
| "le_val (b # bs) = unat b + 256 * le_val bs"

lemma unat_u8_less: "unat (b :: u8) < 256"
  using unsigned_less [of b, where 'a = nat] by simp

lemma bit_le_val: "bit (le_val xs) n \<longleftrightarrow> n < 8 * length xs \<and> bit (xs ! (n div 8)) (n mod 8)"
proof (induction xs arbitrary: n)
  case (Cons b bs)
  have lo: "take_bit 8 (le_val (b # bs)) = unat b"
    using unat_u8_less [of b] by (simp add: take_bit_eq_mod)
  have hi: "drop_bit 8 (le_val (b # bs)) = le_val bs"
    using unat_u8_less [of b] by (simp add: drop_bit_eq_div)
  show ?case
  proof (cases "n < 8")
    case True
    then have "bit (le_val (b # bs)) n = bit (take_bit 8 (le_val (b # bs))) n" by (simp add: bit_take_bit_iff)
    then show ?thesis using True by (simp only: lo) (simp add: bit_unsigned_iff)
  next
    case False
    then obtain k where k: "n = 8 + k" using le_Suc_ex [of 8 n] by auto
    have "bit (le_val (b # bs)) n = bit (drop_bit 8 (le_val (b # bs))) k" by (simp add: bit_drop_bit_eq k)
    moreover have "(8 + k) div 8 = Suc (k div 8)" by simp
    ultimately show ?thesis by (simp only: hi Cons.IH k) simp
  qed
qed simp

lemma unat_w128: "length c = 16 \<Longrightarrow> unat (w128 c) = le_val (rev c)"
proof (rule bit_eqI)
  fix n assume c: "length c = 16"
  show "bit (unat (w128 c)) n = bit (le_val (rev c)) n"
  proof (cases "n < 128")
    case True
    then have "rev c ! (n div 8) = c ! (15 - n div 8)" using c by (simp add: rev_nth)
    then show ?thesis using True c by (simp add: bit_unsigned_iff bit_le_val bit_w128_div)
  qed (use c in \<open>auto simp: bit_unsigned_iff bit_le_val dest: bit_imp_le_length\<close>)
qed

lemma length_ctr_inc_loop [simp]: "length (ctr_inc_loop cs) = length cs"
  by (induction cs) auto

lemma length_ctr_inc [simp]: "length (ctr_inc c) = length c"
  by (simp add: ctr_inc_def)

lemma le_val_less: "le_val xs < 256 ^ length xs"
proof (induction xs)
  case (Cons b bs)
  have "unat b + 256 * v < 256 * p" if "v < p" for v p :: nat using that unat_u8_less [of b] by linarith
  then show ?case using Cons by simp
qed simp

lemma le_val_inc: "le_val (ctr_inc_loop cs) = (le_val cs + 1) mod 256 ^ length cs"
proof (induction cs)
  case (Cons c cs)
  show ?case
  proof (cases "c + 1 = 0")
    case True
    then have "c = - 1" by (simp add: eq_neg_iff_add_eq_0)
    then have c: "unat c = 255" by (simp add: unsigned_minus_1_eq_mask mask_eq_exp_minus_1)
    have "(unat c + 256 * le_val cs + 1) mod (256 * 256 ^ length cs) = 256 * ((le_val cs + 1) mod 256 ^ length cs)"
      unfolding mult_mod_right by (simp add: c)
    then show ?thesis using True Cons.IH by simp
  next
    case False
    have "unat (c + 1) = unat c + 1" using False unatSuc [of c] by (simp add: add.commute)
    moreover have "le_val ((c + 1) # cs) < 256 ^ length (c # cs)" using le_val_less [of "(c + 1) # cs"] by simp
    ultimately show ?thesis using False unfolding ctr_inc_loop.simps by (subst mod_less) auto
  qed
qed simp

lemma w128_ctr_inc: "length c = 16 \<Longrightarrow> w128 (ctr_inc c) = w128 c + 1"
proof -
  assume c: "length c = 16"
  have "unat (w128 (ctr_inc c)) = (unat (w128 c) + 1) mod 2 ^ 128"
    using c le_val_inc [of "rev c"] by (simp add: unat_w128 ctr_inc_def)
  also have "\<dots> = unat (w128 c + 1)" by (simp add: unat_word_ariths)
  finally show ?thesis by (rule word_unat_eq_iff [THEN iffD2])
qed

declare ctr_loop.simps [simp del]

lemma length_ctr_stream: "aes_key_ok key \<Longrightarrow> length (ctr_stream key c n) = 16 * ((n + 15) div 16)"
  by (simp add: ctr_stream_def length_concat comp_def Cipher_length sum_list_triv)

lemma ctr_stream_step:
  assumes "length c = 16" and "0 < n"
  shows "ctr_stream key c n = Cipher key c @ ctr_stream key (ctr_inc c) (n - 16)"
proof -
  have n: "(n + 15) div 16 = Suc ((n - 16 + 15) div 16)"
    using assms(2) by (cases "16 \<le> n") (auto simp: le_div_geq)
  have "map (\<lambda>j. Cipher key (b128 (w128 c + word_of_nat j))) [0..<Suc k] =
      Cipher key c # map (\<lambda>j. Cipher key (b128 (w128 (ctr_inc c) + word_of_nat j))) [0..<k]" for k
    using assms(1) by (simp add: upt_conv_Cons b128_w128 w128_ctr_inc ac_simps comp_def flip: map_Suc_upt del: upt_Suc)
  then show ?thesis unfolding ctr_stream_def n by simp
qed

lemma ctr_loop_stream:
  assumes "aes_key_ok key" and "length c = 16"
  shows "ctr_loop (ctx_of key) c data = Some (map2 (XOR) data (ctr_stream key c (length data)))"
  using assms(2)
proof (induction "length data" arbitrary: data c rule: less_induct)
  case less
  show ?case
  proof (cases "data = []")
    case True
    then show ?thesis by (simp add: ctr_loop.simps)
  next
    case False
    then have "ctr_loop (ctx_of key) (ctr_inc c) (drop 16 data) =
        Some (map2 (XOR) (drop 16 data) (ctr_stream key (ctr_inc c) (length data - 16)))"
      using less.hyps [of "drop 16 data" "ctr_inc c"] less.prems by simp
    moreover have "map2 (XOR) data (Cipher key c @ s) = map2 (XOR) (take 16 data) (Cipher key c) @ map2 (XOR) (drop 16 data) s" for s
      using Cipher_length [OF assms(1) less.prems] zip_append2 [of data "Cipher key c" s] by (simp add: take_map)
    ultimately show ?thesis using False less.prems assms(1) ctr_stream_step [OF less.prems, of "length data" key]
      by (simp add: ctr_loop.simps [of _ c data] aes_encrypt_Cipher)
  qed
qed

lemma aes_ctr_encrypt_stream:
  assumes "n \<in> {16, 24, 32}" and "n \<le> length key" and "mem AES_PRIV_SIZE" and "length c = 16"
  shows "aes_ctr_encrypt mem key n c data = Some (Some (map2 (XOR) data (ctr_stream (take n key) c (length data))))"
proof -
  have k: "aes_key_ok (take n key)" using assms by (auto simp: aes_key_ok_def)
  then have "aes_encrypt_init mem key n = Some (Some (ctx_of (take n key)))"
    using aes_encrypt_init_take [OF assms(1,2), of mem] aes_encrypt_init_ok [OF k, of mem] assms by simp
  then show ?thesis using assms(4) ctr_loop_stream [OF k assms(4), of data] by (simp add: aes_ctr_encrypt_def rd_slice_def)
qed

section \<open>SIV as RFC 5297 states it\<close>

definition siv_dbl :: "bytes \<Rightarrow> bytes" where
  "siv_dbl d = b128 (cmac_dbl (w128 d))"

definition siv_D :: "bytes \<Rightarrow> bytes list \<Rightarrow> bytes" where
  "siv_D key els = foldl (\<lambda>d s. map2 (XOR) (siv_dbl d) (cmac key s)) (cmac key (replicate 16 0)) els"

definition siv_T :: "bytes \<Rightarrow> bytes \<Rightarrow> bytes" where
  "siv_T d s =
     (if 16 \<le> length s then take (length s - 16) s @ map2 (XOR) (drop (length s - 16) s) d
      else map2 (XOR) (siv_dbl d) (s @ [0x80] @ replicate (15 - length s) 0))"

definition siv_s2v :: "bytes \<Rightarrow> bytes list \<Rightarrow> bytes \<Rightarrow> bytes" where
  "siv_s2v key els s = cmac key (siv_T (siv_D key els) s)"

text \<open>The tag with bits 63 and 31 cleared is the first counter.\<close>

definition siv_encryption :: "bytes \<Rightarrow> bytes list \<Rightarrow> bytes \<Rightarrow> bytes" where
  "siv_encryption key els pw =
     (let n = length key div 2;
          v = siv_s2v (take n key) els pw
      in v @ map2 (XOR) pw
           (ctr_stream (drop n key) (b128 (w128 v AND NOT (push_bit 63 1 OR push_bit 31 1))) (length pw)))"

section \<open>The code computes SIV\<close>

lemma dbl_eq: "dbl = gf_mulx"
  by (rule ext) (simp add: dbl_def gf_mulx_def)

lemma length_siv_dbl [simp]: "length (siv_dbl d) = 16"
  by (simp add: siv_dbl_def)

lemma omac1_one:
  assumes "n \<in> {16, 24, 32}" and "n \<le> length key" and "mem AES_PRIV_SIZE"
  shows "omac1_aes_vector mem key n [s] = Some (Some (cmac (take n key) s)) \<and> length (cmac (take n key) s) = 16"
proof -
  have k: "aes_key_ok (take n key)" "length (take n key) = n" using assms by (auto simp: aes_key_ok_def)
  have "omac1_aes_vector mem key n [s] = omac1_aes_vector mem (take n key) n [s]"
    using aes_encrypt_init_take [OF assms(1,2), of mem] by (simp add: omac1_aes_vector_def)
  then show ?thesis using omac1_cmac [where mem = mem, OF k(1) assms(3), of s "[]"] k(2) by (auto simp: areas_ok_def)
qed

lemma s2v_loop_D:
  assumes "n \<in> {16, 24, 32}" and "n \<le> length key" and "mem AES_PRIV_SIZE" and "length tmp = 16"
  shows "s2v_loop mem key n els tmp = Some (Some (foldl (\<lambda>d s. map2 (XOR) (siv_dbl d) (cmac (take n key) s)) tmp els)) \<and>
    length (foldl (\<lambda>d s. map2 (XOR) (siv_dbl d) (cmac (take n key) s)) tmp els) = 16"
  using assms(4)
proof (induction els arbitrary: tmp)
  case (Cons e es)
  show ?case using Cons.IH [of "map2 (XOR) (siv_dbl tmp) (cmac (take n key) e)"] omac1_one [where mem = mem, OF assms(1-3), of e]
    by (simp add: dbl_eq gf_mulx_b128 siv_dbl_def)
qed simp

lemma pad_block_eq: "length s < 16 \<Longrightarrow> pad_block s = s @ [0x80] @ replicate (15 - length s) 0"
  by (intro nth_equalityI) (auto simp: pad_block_def nth_append nth_list_update nth_Cons split: nat.splits)

lemma aes_s2v_eq:
  assumes "n \<in> {16, 24, 32}" and "n \<le> length key" and "\<And>k. mem k"
  shows "aes_s2v mem key n (els @ [s]) = Some (Some (siv_s2v (take n key) els s)) \<and> length (siv_s2v (take n key) els s) = 16"
proof -
  let ?d = "siv_D (take n key) els"
  note o = omac1_one [where mem = mem, OF assms(1,2) assms(3)]
  have d: "s2v_loop mem key n els (cmac (take n key) (replicate 16 0)) = Some (Some ?d)" "length ?d = 16"
    using s2v_loop_D [where mem = mem, OF assms(1,2) assms(3)] o [of "replicate 16 0"] unfolding siv_D_def by auto
  have "xorend s ?d = siv_T ?d s" if "16 \<le> length s" using that d(2) by (simp add: xorend_def siv_T_def)
  moreover have "map2 (XOR) (dbl ?d) (pad_block s) = siv_T ?d s" if "\<not> 16 \<le> length s"
    using that pad_block_eq [of s] by (simp add: dbl_eq gf_mulx_b128 siv_dbl_def siv_T_def)
  ultimately show ?thesis using o [of "siv_T ?d s"] o [of "replicate 16 0"] d assms(3)
    by (simp add: aes_s2v_def siv_s2v_def)
qed

lemma siv_counter_eq:
  assumes "length v = 16"
  shows "siv_counter v = b128 (w128 v AND NOT (push_bit 63 1 OR push_bit 31 1))"
proof -
  have "w128 (siv_counter v) = w128 v AND NOT (push_bit 63 1 OR push_bit 31 1)"
  proof (rule bit_word_eqI)
    fix n assume "n < LENGTH(128)"
    define q r where "q = n div 8" and "r = n mod 8"
    have n: "n = 8 * q + r" "q < 16" "r < 8" using \<open>n < LENGTH(128)\<close> by (auto simp: q_def r_def)
    have b: "bit (w128 x) n = bit (x ! (15 - q)) r" for x using n bit_w128_byte [of "15 - q" r x] by simp
    have q: "15 - q = 8 \<and> r = 7 \<longleftrightarrow> n = 63" "15 - q = 12 \<and> r = 7 \<longleftrightarrow> n = 31" using n by presburger+
    have m: "bit (0x7f :: u8) r \<longleftrightarrow> r \<noteq> 7" using n(3) bit_mask_iff [of 7 r, where 'a = u8] by (auto simp: mask_eq_exp_minus_1)
    have "bit (siv_counter v ! (15 - q)) r \<longleftrightarrow> bit (v ! (15 - q)) r \<and> \<not> (15 - q = 8 \<and> r = 7) \<and> \<not> (15 - q = 12 \<and> r = 7)"
      using assms m by (auto simp: siv_counter_def nth_list_update bit_and_iff)
    moreover have "bit (w128 v AND NOT (push_bit i 1 OR push_bit j 1)) n \<longleftrightarrow> bit (w128 v) n \<and> n \<noteq> i \<and> n \<noteq> j" for i j
      using \<open>n < LENGTH(128)\<close> by (auto simp: bit_simps)
    ultimately show "bit (w128 (siv_counter v)) n = bit (w128 v AND NOT (push_bit 63 1 OR push_bit 31 1)) n"
      unfolding b q by blast
  qed
  then show ?thesis using b128_w128 [of "siv_counter v"] assms by (simp add: siv_counter_def)
qed

lemma siv_keys:
  assumes "length key \<in> {32, 48, 64}"
  shows "length key div 2 \<in> {16, 24, 32}" "length key div 2 \<le> length key" "length key div 2 \<le> length (drop (length key div 2) key)"
    "take (length key div 2) (drop (length key div 2) key) = drop (length key div 2) key"
  using assms by auto

lemma aes_siv_encrypt_eq:
  assumes "length key \<in> {32, 48, 64}" and "length els \<le> 5" and "\<And>k. mem k"
  shows "aes_siv_encrypt mem key (length key) pw els = Some (Some (siv_encryption key els pw))"
proof -
  note k = siv_keys [OF assms(1)]
  let ?n = "length key div 2" let ?v = "siv_s2v (take ?n key) els pw"
  have v: "aes_s2v mem key ?n (els @ [pw]) = Some (Some ?v)" "length ?v = 16"
    using aes_s2v_eq [where mem = mem, OF k(1,2) assms(3)] by auto
  show ?thesis
    using aes_ctr_encrypt_stream [where mem = mem, OF k(1,3) assms(3), of "siv_counter ?v" pw] v siv_counter_eq [OF v(2)] assms(1,2) k(4)
    by (auto simp: aes_siv_encrypt_def siv_encryption_def Let_def)
qed

lemma aes_siv_decrypt_iff:
  assumes "length key \<in> {32, 48, 64}" and "length els \<le> 5" and "\<And>k. mem k"
  shows "aes_siv_decrypt mem key (length key) c els = Some (Some p) \<longleftrightarrow> c = siv_encryption key els p"
proof -
  note k = siv_keys [OF assms(1)]
  let ?n = "length key div 2"
  let ?s = "\<lambda>v m. ctr_stream (drop ?n key) (b128 (w128 v AND NOT (push_bit 63 1 OR push_bit 31 1))) m"
  have s2v: "aes_s2v mem key ?n (els @ [x]) = Some (Some (siv_s2v (take ?n key) els x))" "length (siv_s2v (take ?n key) els x) = 16" for x
    using aes_s2v_eq [where mem = mem, OF k(1,2) assms(3)] by auto
  have ls: "m \<le> length (?s v m)" for v m
    using length_ctr_stream [of "drop ?n key" _ m] k by (auto simp: aes_key_ok_def)
  have xx: "map2 (XOR) (map2 (XOR) x (?s v (length x))) (?s v (length x)) = x" for x v
    using map2_xor_twice [OF ls [of "length x" v]] by (metis map2_xor_comm)
  show ?thesis
  proof (cases "16 \<le> length c")
    case True
    let ?v = "take 16 c" and ?x = "drop 16 c"
    let ?o = "map2 (XOR) ?x (?s ?v (length ?x))"
    have lo: "length ?o = length ?x" using ls [of "length ?x" ?v] by simp
    have "aes_siv_decrypt mem key (length key) c els =
        Some (if siv_s2v (take ?n key) els ?o = ?v then Some ?o else None)"
      using aes_ctr_encrypt_stream [where mem = mem, OF k(1,3) assms(3), of "siv_counter ?v" ?x] True s2v [of ?o]
        siv_counter_eq [of ?v] assms(1,2) k(4) by (auto simp: aes_siv_decrypt_def Let_def)
    moreover have "c = siv_encryption key els p \<longleftrightarrow> siv_s2v (take ?n key) els p = ?v \<and> ?x = map2 (XOR) p (?s ?v (length p))"
      using s2v(2) [of p] True unfolding siv_encryption_def Let_def
      by (subst append_take_drop_id [of 16 c, symmetric], subst append_eq_append_conv) auto
    moreover have "?x = map2 (XOR) p (?s ?v (length p)) \<longleftrightarrow> ?o = p"
    proof
      assume x: "?x = map2 (XOR) p (?s ?v (length p))"
      then have "length ?x = length p" using ls [of "length p" ?v] by simp
      then show "?o = p" using xx [of p ?v] x by simp
    next
      assume "?o = p"
      then show "?x = map2 (XOR) p (?s ?v (length p))" using xx [of ?x ?v] lo by simp
    qed
    ultimately show ?thesis by auto
  next
    case False
    then show ?thesis using s2v(2) [of p] by (auto simp: aes_siv_decrypt_def siv_encryption_def Let_def)
  qed
qed

section \<open>Properties\<close>



text \<open>C12: SIV. \<open>aes_siv_encrypt\<close> computes the deterministic encryption of RFC 5297 (S2V over CMAC with the first half of the key,
  counter mode over the 128-bit counter with the second half) of a plaintext and up to five associated strings; and \<open>aes_siv_decrypt\<close>
  accepts a received string with the plaintext \<open>p\<close> exactly when that string is the encryption of \<open>p\<close>.\<close>

theorem aes_siv_rfc5297:
  assumes "length key \<in> {32, 48, 64}" and "length els \<le> 5" and "\<And>n. mem n"
  shows "aes_siv_encrypt mem key (length key) pw els = Some (Some (siv_encryption key els pw)) \<and>
    (aes_siv_decrypt mem key (length key) c els = Some (Some p) \<longleftrightarrow> c = siv_encryption key els p)"
  using aes_siv_encrypt_eq [OF assms(1,2), of mem] aes_siv_decrypt_iff [OF assms(1,2), of mem] assms(3) by blast

theorem aes_siv_rfc5297_witness:
  "aes_siv_decrypt (\<lambda>n. True) (replicate 32 9) 32 (siv_encryption (replicate 32 9) [[1], [2]] [3, 4]) [[1], [2]] = Some (Some [3, 4]) \<and>
   aes_siv_encrypt (\<lambda>n. True) (replicate 32 9) 32 [3, 4] [[1], [2]] = Some (Some (siv_encryption (replicate 32 9) [[1], [2]] [3, 4]))"
  using aes_siv_rfc5297 [of "replicate 32 9" "[[1], [2]]" "\<lambda>n. True" "[3, 4]" "siv_encryption (replicate 32 9) [[1], [2]] [3, 4]" "[3, 4]"]
  by simp

end
