(* ===== verification/Crypto_Sha256.thy ===== *)
theory Crypto_Sha256
  imports Complex_Main Crypto_Blocks
begin

text \<open>
  SHA-256, HMAC and the key derivation function: \<^verbatim>\<open>core/crypto/sha256-internal.c\<close>, \<^verbatim>\<open>core/crypto/sha256.c\<close> and
  \<^verbatim>\<open>core/crypto/sha256-prf.c\<close>. A vector of data areas is the list of their contents. The outer option tells an access
  outside an array, the inner one the return of a negative value.
\<close>

section \<open>The compression function\<close>

text \<open>The table, a list for each of its lines.\<close>

definition K :: "u32 list" where
  "K = concat [
     [0x428a2f98, 0x71374491, 0xb5c0fbcf, 0xe9b5dba5, 0x3956c25b],
     [0x59f111f1, 0x923f82a4, 0xab1c5ed5, 0xd807aa98, 0x12835b01],
     [0x243185be, 0x550c7dc3, 0x72be5d74, 0x80deb1fe, 0x9bdc06a7],
     [0xc19bf174, 0xe49b69c1, 0xefbe4786, 0x0fc19dc6, 0x240ca1cc],
     [0x2de92c6f, 0x4a7484aa, 0x5cb0a9dc, 0x76f988da, 0x983e5152],
     [0xa831c66d, 0xb00327c8, 0xbf597fc7, 0xc6e00bf3, 0xd5a79147],
     [0x06ca6351, 0x14292967, 0x27b70a85, 0x2e1b2138, 0x4d2c6dfc],
     [0x53380d13, 0x650a7354, 0x766a0abb, 0x81c2c92e, 0x92722c85],
     [0xa2bfe8a1, 0xa81a664b, 0xc24b8b70, 0xc76c51a3, 0xd192e819],
     [0xd6990624, 0xf40e3585, 0x106aa070, 0x19a4c116, 0x1e376c08],
     [0x2748774c, 0x34b0bcb5, 0x391c0cb3, 0x4ed8aa4a, 0x5b9cca4f],
     [0x682e6ff3, 0x748f82ee, 0x78a5636f, 0x84c87814, 0x8cc70208],
     [0x90befffa, 0xa4506ceb, 0xbef9a3f7, 0xc67178f2]]"

text \<open>The macros. \<open>RORc\<close> works on \<open>unsigned long\<close>, of 64 bits.\<close>

definition RORc :: "u32 \<Rightarrow> nat \<Rightarrow> u32" where
  "RORc x y =
     ucast ((drop_bit (y mod 32) ((ucast x :: u64) AND 0xFFFFFFFF) OR push_bit (32 - y mod 32) (ucast x)) AND 0xFFFFFFFF)"

definition Ch :: "u32 \<Rightarrow> u32 \<Rightarrow> u32 \<Rightarrow> u32" where "Ch x y z = z XOR (x AND (y XOR z))"
definition Maj :: "u32 \<Rightarrow> u32 \<Rightarrow> u32 \<Rightarrow> u32" where "Maj x y z = ((x OR y) AND z) OR (x AND y)"
definition Sigma0 :: "u32 \<Rightarrow> u32" where "Sigma0 x = RORc x 2 XOR RORc x 13 XOR RORc x 22"
definition Sigma1 :: "u32 \<Rightarrow> u32" where "Sigma1 x = RORc x 6 XOR RORc x 11 XOR RORc x 25"
definition Gamma0 :: "u32 \<Rightarrow> u32" where "Gamma0 x = RORc x 7 XOR RORc x 18 XOR drop_bit 3 x"
definition Gamma1 :: "u32 \<Rightarrow> u32" where "Gamma1 x = RORc x 17 XOR RORc x 19 XOR drop_bit 10 x"

text \<open>The array \<open>W\<close> is filled from its start; entry \<open>i\<close> is computed from the entries before it.\<close>

definition sha_W_step :: "u32 list \<Rightarrow> nat \<Rightarrow> u32 list" where
  "sha_W_step W i = W @ [Gamma1 (W ! (i - 2)) + W ! (i - 7) + Gamma0 (W ! (i - 15)) + W ! (i - 16)]"

definition sha_W :: "bytes \<Rightarrow> u32 list" where
  "sha_W buf = foldl sha_W_step (map (\<lambda>i. RTW_GET_BE32 buf (4 * i)) [0..<16]) [16..<64]"

text \<open>One turn of the last loop: the macro \<open>RND\<close> and the rotation of the array \<open>S\<close>.\<close>

definition RND :: "u32 list \<Rightarrow> u32 list \<Rightarrow> nat \<Rightarrow> u32 list" where
  "RND W S i =
     (let t0 = S ! 7 + Sigma1 (S ! 4) + Ch (S ! 4) (S ! 5) (S ! 6) + K ! i + W ! i;
          t1 = Sigma0 (S ! 0) + Maj (S ! 0) (S ! 1) (S ! 2)
      in [t0 + t1, S ! 0, S ! 1, S ! 2, S ! 3 + t0, S ! 4, S ! 5, S ! 6])"

definition sha256_compress :: "u32 list \<Rightarrow> bytes \<Rightarrow> u32 list" where
  "sha256_compress state buf = map2 (+) state (foldl (RND (sha_W buf)) state [0..<64])"

section \<open>Hashing in pieces\<close>

record sha256_state =
  md_length :: u64
  md_state :: "u32 list"
  md_curlen :: nat
  md_buf :: bytes

text \<open>The buffer is not initialised; \<open>b\<close> is what it holds.\<close>

definition sha256_init :: "bytes \<Rightarrow> sha256_state" where
  "sha256_init b =
     \<lparr>md_length = 0,
      md_state = [0x6A09E667, 0xBB67AE85, 0x3C6EF372, 0xA54FF53A, 0x510E527F, 0x9B05688C, 0x1F83D9AB, 0x5BE0CD19],
      md_curlen = 0, md_buf = b\<rparr>"

text \<open>The loop of \<open>sha256_process\<close>. With \<open>curlen\<close> beyond the buffer it would write outside.\<close>

function process_loop :: "sha256_state \<Rightarrow> bytes \<Rightarrow> sha256_state option" where
  "process_loop md inp =
     (if inp = [] then Some md
      else if md_curlen md = 0 \<and> 64 \<le> length inp then
        process_loop (md\<lparr>md_state := sha256_compress (md_state md) (take 64 inp), md_length := md_length md + 64 * 8\<rparr>) (drop 64 inp)
      else if 64 < md_curlen md then None
      else
        (let n = min (length inp) (64 - md_curlen md);
             c = md_curlen md + n;
             buf = take (md_curlen md) (md_buf md) @ take n inp @ drop c (md_buf md)
         in if c = 64
            then process_loop (md\<lparr>md_buf := buf, md_state := sha256_compress (md_state md) buf,
                                  md_length := md_length md + 8 * 64, md_curlen := 0\<rparr>) (drop n inp)
            else process_loop (md\<lparr>md_buf := buf, md_curlen := c\<rparr>) (drop n inp)))"
  by pat_completeness auto
termination
  by (relation "measure (\<lambda>(md, inp). 2 * length inp + (if md_curlen md = 64 then 1 else 0))") (auto simp: min_def split: if_splits)

definition sha256_process :: "sha256_state \<Rightarrow> bytes \<Rightarrow> sha256_state option option" where
  "sha256_process md inp = (if 64 \<le> md_curlen md then Some None else map_option Some (process_loop md inp))"

definition sha256_done :: "sha256_state \<Rightarrow> bytes option" where
  "sha256_done md =
     (if 64 \<le> md_curlen md then None
      else
        (let len = md_length md + word_of_nat (md_curlen md * 8);
             b0 = (md_buf md)[md_curlen md := 0x80];
             c0 = md_curlen md + 1;
             (st, c, b) = (if 56 < c0 then (let b1 = take c0 b0 @ replicate (64 - c0) 0 in (sha256_compress (md_state md) b1, 0, b1))
                           else (md_state md, c0, b0));
             b2 = take c b @ replicate (56 - c) 0 @ RTW_PUT_BE64 len
         in Some (concat (map RTW_PUT_BE32 (sha256_compress st b2)))))"

text \<open>\<open>b\<close> is what the buffer of the state on the stack holds at first.\<close>

fun vector_loop :: "sha256_state \<Rightarrow> bytes list \<Rightarrow> sha256_state option option" where
  "vector_loop md [] = Some (Some md)"
| "vector_loop md (e # es) = do {
     r \<leftarrow> sha256_process md e;
     case r of None \<Rightarrow> Some None | Some md' \<Rightarrow> vector_loop md' es }"

definition sha256_vector :: "bytes \<Rightarrow> bytes list \<Rightarrow> bytes option option" where
  "sha256_vector b els = do {
     r \<leftarrow> vector_loop (sha256_init b) els;
     Some (Option.bind r sha256_done) }"

section \<open>HMAC and key derivation\<close>

text \<open>The key, padded to 64 bytes, under exclusive or with a constant.\<close>

definition k_pad :: "bytes \<Rightarrow> u8 \<Rightarrow> bytes" where
  "k_pad key c = map (\<lambda>x. x XOR c) (key @ replicate (64 - length key) 0)"

definition hmac_sha256_vector :: "bytes \<Rightarrow> bytes \<Rightarrow> bytes list \<Rightarrow> bytes option option" where
  "hmac_sha256_vector b key els =
     (if 5 < length els then Some None
      else do {
        rk \<leftarrow> (if 64 < length key then sha256_vector b [key] else Some (Some key));
        case rk of
          None \<Rightarrow> Some None
        | Some k \<Rightarrow> do {
            inner \<leftarrow> sha256_vector b (k_pad k 0x36 # els);
            case inner of
              None \<Rightarrow> Some None
            | Some mac \<Rightarrow> sha256_vector b [k_pad k 0x5c, mac] } })"

fun os_strlen :: "bytes \<Rightarrow> nat option" where
  "os_strlen [] = None"
| "os_strlen (c # cs) = (if c = 0 then Some 0 else map_option Suc (os_strlen cs))"

text \<open>The loop of \<open>sha256_prf_bits\<close>, with \<open>left\<close> bytes of the buffer to go: the bytes it writes.\<close>

function prf_loop :: "bytes \<Rightarrow> bytes \<Rightarrow> bytes \<Rightarrow> bytes \<Rightarrow> u16 \<Rightarrow> u16 \<Rightarrow> nat \<Rightarrow> bytes option option" where
  "prf_loop b key label data bits counter left =
     (if left = 0 then Some (Some [])
      else do {
        r \<leftarrow> hmac_sha256_vector b key [RTW_PUT_LE16 counter, label, data, RTW_PUT_LE16 bits];
        case r of
          None \<Rightarrow> Some None
        | Some h \<Rightarrow>
            if 32 \<le> left then do {
              rest \<leftarrow> prf_loop b key label data bits (counter + 1) (left - 32);
              Some (map_option (\<lambda>t. h @ t) rest) }
            else Some (Some (take left h)) })"
  by pat_completeness auto
termination
  by (relation "measure (\<lambda>(b, key, label, data, bits, counter, left). left)") auto

definition sha256_prf_bits :: "bytes \<Rightarrow> bytes \<Rightarrow> bytes \<Rightarrow> bytes \<Rightarrow> nat \<Rightarrow> bytes option option" where
  "sha256_prf_bits b key label data buf_len_bits = do {
     n \<leftarrow> os_strlen label;
     let buf_len = (buf_len_bits + 7) div 8;
     r \<leftarrow> prf_loop b key (take n label) data (word_of_nat buf_len_bits) 1 buf_len;
     Some (map_option (\<lambda>buf.
       if buf_len_bits mod 8 \<noteq> 0
       then buf[buf_len - 1 := buf ! (buf_len - 1) AND ucast (push_bit (8 - buf_len_bits mod 8) (0xff :: u32))]
       else buf) r) }"

definition sha256_prf :: "bytes \<Rightarrow> bytes \<Rightarrow> bytes \<Rightarrow> bytes \<Rightarrow> nat \<Rightarrow> bytes option option" where
  "sha256_prf b key label data buf_len = sha256_prf_bits b key label data (buf_len * 8)"

section \<open>SHA-256 as FIPS 180-4 states it\<close>

text \<open>The constants: the first 32 bits of the fractional parts of the cube roots of the first 64 primes, for the initial
  value of the square roots of the first eight.\<close>

definition first_primes :: "nat list" where
  "first_primes = [2, 3, 5, 7, 11, 13, 17, 19, 23, 29, 31, 37, 41, 43, 47, 53, 59, 61, 67, 71, 73, 79, 83, 89, 97, 101, 103, 107,
     109, 113, 127, 131, 137, 139, 149, 151, 157, 163, 167, 173, 179, 181, 191, 193, 197, 199, 211, 223, 227, 229, 233, 239,
     241, 251, 257, 263, 269, 271, 277, 281, 283, 293, 307, 311]"

definition root_bits :: "nat \<Rightarrow> nat \<Rightarrow> u32" where
  "root_bits k p = word_of_int \<lfloor>root k (real p) * 2 ^ 32\<rfloor>"

definition ROTR :: "nat \<Rightarrow> u32 \<Rightarrow> u32" where "ROTR n x = drop_bit n x OR push_bit (32 - n) x"

definition fips_Ch :: "u32 \<Rightarrow> u32 \<Rightarrow> u32 \<Rightarrow> u32" where "fips_Ch x y z = (x AND y) XOR (NOT x AND z)"
definition fips_Maj :: "u32 \<Rightarrow> u32 \<Rightarrow> u32 \<Rightarrow> u32" where "fips_Maj x y z = (x AND y) XOR (x AND z) XOR (y AND z)"
definition fips_S0 :: "u32 \<Rightarrow> u32" where "fips_S0 x = ROTR 2 x XOR ROTR 13 x XOR ROTR 22 x"
definition fips_S1 :: "u32 \<Rightarrow> u32" where "fips_S1 x = ROTR 6 x XOR ROTR 11 x XOR ROTR 25 x"
definition fips_s0 :: "u32 \<Rightarrow> u32" where "fips_s0 x = ROTR 7 x XOR ROTR 18 x XOR drop_bit 3 x"
definition fips_s1 :: "u32 \<Rightarrow> u32" where "fips_s1 x = ROTR 17 x XOR ROTR 19 x XOR drop_bit 10 x"

function fips_W :: "bytes \<Rightarrow> nat \<Rightarrow> u32" where
  "fips_W M t =
     (if t < 16 then RTW_GET_BE32 M (4 * t)
      else fips_s1 (fips_W M (t - 2)) + fips_W M (t - 7) + fips_s0 (fips_W M (t - 15)) + fips_W M (t - 16))"
  by pat_completeness auto
termination
  by (relation "measure snd") auto

fun fips_round :: "bytes \<Rightarrow> u32 list \<Rightarrow> nat \<Rightarrow> u32 list" where
  "fips_round M [a, b, c, d, e, f, g, h] t =
     (let T1 = h + fips_S1 e + fips_Ch e f g + root_bits 3 (first_primes ! t) + fips_W M t;
          T2 = fips_S0 a + fips_Maj a b c
      in [T1 + T2, a, b, c, d + T1, e, f, g])"
| "fips_round M _ t = []"

definition fips_compress :: "u32 list \<Rightarrow> bytes \<Rightarrow> u32 list" where
  "fips_compress H M = map2 (+) H (foldl (fips_round M) H [0..<64])"

text \<open>Padding, and cutting into blocks of 64 bytes.\<close>

definition sha_pad :: "nat \<Rightarrow> bytes" where
  "sha_pad n = [0x80] @ replicate ((119 - n mod 64) mod 64) 0 @ RTW_PUT_BE64 (word_of_nat (8 * n))"

function blocks64 :: "bytes \<Rightarrow> bytes list" where
  "blocks64 xs = (if xs = [] then [] else take 64 xs # blocks64 (drop 64 xs))"
  by pat_completeness auto
termination
  by (relation "measure length") (auto simp: neq_Nil_conv)

definition sha_H0 :: "u32 list" where
  "sha_H0 = map (root_bits 2) (take 8 first_primes)"

definition sha256 :: "bytes \<Rightarrow> bytes" where
  "sha256 m = concat (map RTW_PUT_BE32 (foldl fips_compress sha_H0 (blocks64 (m @ sha_pad (length m)))))"

section \<open>The constants and functions are the standard's\<close>

declare blocks64.simps [simp del] fips_W.simps [simp del] process_loop.simps [simp del]

lemma floor_root:
  assumes "0 < k" and "n ^ k \<le> p * 2 ^ (32 * k)" and "p * 2 ^ (32 * k) < (n + 1) ^ k"
  shows "\<lfloor>root k (real p) * 2 ^ 32\<rfloor> = int n"
proof -
  let ?r = "root k (real p) * 2 ^ 32"
  have r: "0 \<le> ?r" "?r ^ k = real (p * 2 ^ (32 * k))"
    using assms(1) by (simp_all add: power_mult_distrib power_mult)
  have "real n ^ k \<le> ?r ^ k" using assms(2) unfolding r(2) by (metis of_nat_le_iff of_nat_power)
  then have 1: "real n \<le> ?r" using r(1) assms(1) by (metis power_mono_iff of_nat_0_le_iff)
  have "?r ^ k < real (n + 1) ^ k" using assms(3) unfolding r(2) by (metis of_nat_less_iff of_nat_power)
  then have 2: "?r < real (n + 1)" using r(1) by (metis power_less_imp_less_base of_nat_0_le_iff)
  show ?thesis using 1 2 by (simp add: floor_unique)
qed

definition root_int :: "nat \<Rightarrow> nat \<Rightarrow> nat" where
  "root_int k p = (if p < 2 ^ k then 1 else if p < 3 ^ k then 2 else if p < 4 ^ k then 3 else if p < 5 ^ k then 4 else if p < 6 ^ k then 5 else 6)"

definition root_ok :: "nat \<Rightarrow> nat \<times> u32 \<Rightarrow> bool" where
  "root_ok k pc = (let n = root_int k (fst pc) * 4294967296 + unat (snd pc)
     in n ^ k \<le> fst pc * 2 ^ (32 * k) \<and> fst pc * 2 ^ (32 * k) < (n + 1) ^ k)"

lemma root_ok_bits: "0 < k \<Longrightarrow> root_ok k (p, c) \<Longrightarrow> root_bits k p = c"
proof -
  assume k: "0 < k" "root_ok k (p, c)"
  define n where "n = root_int k p * 4294967296 + unat c"
  have "\<lfloor>root k (real p) * 2 ^ 32\<rfloor> = int n"
    using k by (intro floor_root) (auto simp: root_ok_def Let_def n_def)
  moreover have z: "(4294967296 :: u32) = 0" by code_simp
  ultimately have "root_bits k p = word_of_nat n" by (simp add: root_bits_def)
  also have "\<dots> = word_of_nat (unat c)" unfolding n_def of_nat_add of_nat_mult of_nat_numeral z by simp
  also have "\<dots> = c" by simp
  finally show ?thesis .
qed

lemma K_roots: "list_all (root_ok 3) (zip first_primes K)"
  by (simp add: first_primes_def K_def root_ok_def root_int_def)

lemma H0_roots: "list_all (root_ok 2) (zip (take 8 first_primes) (md_state (sha256_init b)))"
  by (simp add: sha256_init_def first_primes_def root_ok_def root_int_def)

lemma K_nth: "t < 64 \<Longrightarrow> root_bits 3 (first_primes ! t) = K ! t"
proof (rule root_ok_bits)
  assume "t < 64"
  moreover have "length first_primes = 64" "length K = 64" by (simp_all add: first_primes_def K_def)
  ultimately show "root_ok 3 (first_primes ! t, K ! t)" using K_roots by (auto simp: list_all_length)
qed simp

lemma H0_eq: "md_state (sha256_init b) = sha_H0"
proof (rule nth_equalityI)
  have l: "length (take 8 first_primes) = 8" "length (md_state (sha256_init b)) = 8"
    by (simp_all add: first_primes_def sha256_init_def)
  then show "length (md_state (sha256_init b)) = length sha_H0" by (simp add: sha_H0_def)
  fix i assume "i < length (md_state (sha256_init b))"
  then show "md_state (sha256_init b) ! i = sha_H0 ! i"
    using l H0_roots [of b] by (auto simp: list_all_length sha_H0_def intro!: root_ok_bits [symmetric])
qed

lemma mask32: "(0xFFFFFFFF :: u64) = mask 32"
  by (simp add: mask_eq_exp_minus_1)

lemma RORc_ROTR: "0 < y \<Longrightarrow> y < 32 \<Longrightarrow> RORc x y = ROTR y x"
  unfolding RORc_def ROTR_def mask32
  by (rule bit_word_eqI) (auto simp: bit_simps dest: bit_imp_le_length)

lemma Ch_eq: "Ch x y z = fips_Ch x y z"
  by (rule bit_word_eqI) (auto simp: Ch_def fips_Ch_def bit_simps)

lemma Maj_eq: "Maj x y z = fips_Maj x y z"
  by (rule bit_word_eqI) (auto simp: Maj_def fips_Maj_def bit_simps)

lemma Sigma_eq: "Sigma0 = fips_S0" "Sigma1 = fips_S1" "Gamma0 = fips_s0" "Gamma1 = fips_s1"
  by (auto simp: fun_eq_iff Sigma0_def Sigma1_def Gamma0_def Gamma1_def fips_S0_def fips_S1_def fips_s0_def fips_s1_def RORc_ROTR)

lemma sha_W_eq: "sha_W M = map (fips_W M) [0..<64]"
proof -
  have "foldl sha_W_step (map (\<lambda>i. RTW_GET_BE32 M (4 * i)) [0..<16]) [16..<16 + n] = map (fips_W M) [0..<16 + n]" for n
  proof (induction n)
    case 0
    then show ?case by (auto simp: fips_W.simps intro!: map_cong)
  next
    case (Suc n)
    have "fips_W M (16 + n) = fips_s1 (fips_W M (14 + n)) + fips_W M (9 + n) + fips_s0 (fips_W M (1 + n)) + fips_W M n"
      by (subst fips_W.simps) simp
    moreover have u: "[0..<Suc (16 + n)] = [0..<16 + n] @ [16 + n]" by (rule upt_Suc_append) simp
    ultimately have "sha_W_step (map (fips_W M) [0..<16 + n]) (16 + n) = map (fips_W M) [0..<Suc (16 + n)]"
      unfolding sha_W_step_def Sigma_eq u by simp
    moreover have "[16..<16 + Suc n] = [16..<16 + n] @ [16 + n]" using upt_Suc_append [of 16 "16 + n"] by simp
    ultimately show ?case using Suc by simp
  qed
  from this [of 48] show ?thesis by (simp add: sha_W_def)
qed

lemma list_length_8: "length S = 8 \<Longrightarrow> \<exists>a b c d e f g h. S = [a, b, c, d, e, f, g, h]"
  by (auto simp: length_Suc_conv numeral_eq_Suc)

lemma RND_round:
  assumes "length S = 8" and "t < 64"
  shows "RND (sha_W M) S t = fips_round M S t" "length (RND (sha_W M) S t) = 8"
proof -
  obtain a b c d e f g h where "S = [a, b, c, d, e, f, g, h]" using list_length_8 [OF assms(1)] by blast
  then show "RND (sha_W M) S t = fips_round M S t" "length (RND (sha_W M) S t) = 8"
    using assms(2) by (simp_all add: RND_def Let_def sha_W_eq Sigma_eq Ch_eq Maj_eq K_nth)
qed

lemma sha256_compress_fips:
  assumes "length H = 8"
  shows "sha256_compress H M = fips_compress H M \<and> length (sha256_compress H M) = 8"
proof -
  have "foldl (RND (sha_W M)) H [0..<n] = foldl (fips_round M) H [0..<n] \<and> length (foldl (RND (sha_W M)) H [0..<n]) = 8" if "n \<le> 64" for n
    using that by (induction n) (use assms RND_round in auto)
  from this [of 64] show ?thesis using assms by (auto simp: sha256_compress_def fips_compress_def)
qed

section \<open>Hashing in pieces hashes the concatenation\<close>

lemma blocks64_Nil [simp]: "blocks64 [] = []"
  by (simp add: blocks64.simps)

lemma blocks64_app: "length xs = 64 \<Longrightarrow> blocks64 (xs @ ys) = xs # blocks64 ys"
  by (subst blocks64.simps) auto

lemma blocks64_append: "length xs mod 64 = 0 \<Longrightarrow> blocks64 (xs @ ys) = blocks64 xs @ blocks64 ys"
proof (induction "length xs" arbitrary: xs rule: less_induct)
  case less
  show ?case
  proof (cases "xs = []")
    case False
    then have l: "64 \<le> length xs" using less.prems by (metis length_0_conv mod_less not_le)
    then have "blocks64 (drop 64 xs @ ys) = blocks64 (drop 64 xs) @ blocks64 ys"
      using less.hyps [of "drop 64 xs"] less.prems le_mod_geq [OF l] by simp
    then show ?thesis
      using blocks64_app [of "take 64 xs" "drop 64 xs @ ys"] blocks64_app [of "take 64 xs" "drop 64 xs"] l
      by (simp flip: append_assoc)
  qed simp
qed

text \<open>The state after the message \<open>m\<close>: its whole blocks \<open>w\<close> are compressed, the rest is in the buffer.\<close>

definition sha_inv :: "bytes \<Rightarrow> sha256_state \<Rightarrow> bool" where
  "sha_inv m md \<longleftrightarrow> (\<exists>w r. m = w @ r \<and> length w mod 64 = 0 \<and> length r < 64 \<and> md_curlen md = length r \<and>
     length (md_buf md) = 64 \<and> take (length r) (md_buf md) = r \<and> md_length md = word_of_nat (8 * length w) \<and>
     md_state md = foldl fips_compress sha_H0 (blocks64 w))"

lemma length_fips_compress: "length H = 8 \<Longrightarrow> length (fips_compress H M) = 8"
  using sha256_compress_fips [of H M] by auto

lemma length_sha_state: "length (foldl fips_compress sha_H0 bs) = 8"
proof -
  have "length H = 8 \<Longrightarrow> length (foldl fips_compress H bs) = 8" for H
    by (induction bs arbitrary: H) (auto simp: length_fips_compress)
  then show ?thesis by (simp add: sha_H0_def first_primes_def)
qed

lemma sha_inv_init: "length b = 64 \<Longrightarrow> sha_inv [] (sha256_init b)"
  unfolding sha_inv_def using H0_eq [of b] by (simp add: sha256_init_def)

lemma process_loop_inv:
  assumes "sha_inv m md"
  shows "\<exists>md'. process_loop md inp = Some md' \<and> sha_inv (m @ inp) md'"
  using assms
proof (induction "length inp" arbitrary: inp m md rule: less_induct)
  case less
  obtain w r where i: "m = w @ r" "length w mod 64 = 0" "length r < 64" "md_curlen md = length r" "length (md_buf md) = 64"
    "take (length r) (md_buf md) = r" "md_length md = word_of_nat (8 * length w)" "md_state md = foldl fips_compress sha_H0 (blocks64 w)"
    using less.prems unfolding sha_inv_def by auto
  note st = sha256_compress_fips [OF length_sha_state [of "blocks64 w"]]
  have full: "foldl fips_compress sha_H0 (blocks64 (w @ x)) = sha256_compress (md_state md) x"
    "word_of_nat (8 * length (w @ x)) = md_length md + 512" "length (w @ x) mod 64 = 0" if "length x = 64" for x
    using that i(2,7,8) st [of x] blocks64_append [OF i(2), of x] blocks64_app [of x "[]"] by (simp_all add: algebra_simps)
  consider "inp = []" | "inp \<noteq> []" "r = []" "64 \<le> length inp" | "inp \<noteq> []" "\<not> (r = [] \<and> 64 \<le> length inp)" by blast
  then show ?case
  proof cases
    case 1
    then show ?thesis using less.prems by (simp add: process_loop.simps)
  next
    case 2
    let ?md = "md\<lparr>md_state := sha256_compress (md_state md) (take 64 inp), md_length := md_length md + 64 * 8\<rparr>"
    have "sha_inv (m @ take 64 inp) ?md"
      unfolding sha_inv_def using i 2 full [of "take 64 inp"] by (intro exI [of _ "m @ take 64 inp"] exI [of _ "[]"]) simp
    moreover have "process_loop md inp = process_loop ?md (drop 64 inp)"
      using 2 i by (subst process_loop.simps) simp
    ultimately show ?thesis using less.hyps [of "drop 64 inp" "m @ take 64 inp" ?md] 2 by simp
  next
    case 3
    define n where "n = min (length inp) (64 - length r)"
    define c where "c = length r + n"
    define buf where "buf = take (length r) (md_buf md) @ take n inp @ drop c (md_buf md)"
    have n: "0 < n" "n \<le> length inp" "c \<le> 64" using 3 i by (auto simp: n_def c_def)
    have buf: "length buf = 64" "take c buf = r @ take n inp" using n i by (auto simp: buf_def c_def)
    let ?md = "if c = 64 then md\<lparr>md_buf := buf, md_state := sha256_compress (md_state md) buf, md_length := md_length md + 8 * 64, md_curlen := 0\<rparr>
      else md\<lparr>md_buf := buf, md_curlen := c\<rparr>"
    have "process_loop md inp = process_loop ?md (drop n inp)"
      using 3 i by (subst process_loop.simps) (auto simp: Let_def n_def c_def buf_def)
    moreover have "sha_inv (m @ take n inp) ?md"
    proof (cases "c = 64")
      case True
      then have "m @ take n inp = w @ buf" using buf i by simp
      then show ?thesis unfolding sha_inv_def using True full [of buf] buf
        by (intro exI [of _ "w @ buf"] exI [of _ "[]"]) simp
    next
      case False
      then show ?thesis unfolding sha_inv_def using i buf n
        by (intro exI [of _ w] exI [of _ "r @ take n inp"]) (auto simp: c_def)
    qed
    ultimately show ?thesis using less.hyps [of "drop n inp" "m @ take n inp" ?md] n by simp
  qed
qed

lemma sha_pad_short: "n mod 64 < 56 \<Longrightarrow> sha_pad n = [0x80] @ replicate (55 - n mod 64) 0 @ RTW_PUT_BE64 (word_of_nat (8 * n))"
proof -
  assume "n mod 64 < 56"
  then have "119 - n mod 64 = 64 + (55 - n mod 64)" by simp
  then have "(119 - n mod 64) mod 64 = 55 - n mod 64" by (simp only: mod_add_self1) (simp add: mod_less)
  then show ?thesis by (simp add: sha_pad_def)
qed

lemma sha_pad_long:
  "56 \<le> n mod 64 \<Longrightarrow>
     sha_pad n = ([0x80] @ replicate (63 - n mod 64) 0) @ replicate 56 0 @ RTW_PUT_BE64 (word_of_nat (8 * n))"
proof -
  assume a: "56 \<le> n mod 64"
  have "n mod 64 < 64" by simp
  with a have "(119 - n mod 64) mod 64 = (63 - n mod 64) + 56" by simp
  then show ?thesis unfolding sha_pad_def by (simp only: replicate_add append_assoc)
qed

lemma sha256_done_eq:
  assumes "sha_inv m md"
  shows "sha256_done md = Some (sha256 m)"
proof -
  obtain w r where i: "m = w @ r" "length w mod 64 = 0" "length r < 64" "md_curlen md = length r" "length (md_buf md) = 64"
    "take (length r) (md_buf md) = r" "md_length md = word_of_nat (8 * length w)" "md_state md = foldl fips_compress sha_H0 (blocks64 w)"
    using assms unfolding sha_inv_def by auto
  let ?H = "md_state md" and ?L = "RTW_PUT_BE64 (word_of_nat (8 * length m))"
  have rm: "length m mod 64 = length r" using i(1-3) by (metis add_cancel_left_left length_append mod_add_left_eq mod_less)
  have len: "md_length md + word_of_nat (length r * 8) = word_of_nat (8 * length m)" using i by (simp add: algebra_simps)
  have b: "take (Suc (length r)) ((md_buf md)[length r := 0x80]) = r @ [0x80]"
    using i by (simp add: take_Suc_conv_app_nth take_update_cancel)
  have h: "sha256 m = concat (map RTW_PUT_BE32 (foldl fips_compress ?H (blocks64 (r @ sha_pad (length m)))))"
    using blocks64_append [OF i(2), of "r @ sha_pad (length m)"] i(1,8) by (simp add: sha256_def)
  have c: "sha256_compress ?H x = fips_compress ?H x" "sha256_compress (fips_compress ?H x) y = fips_compress (fips_compress ?H x) y" for x y
    using sha256_compress_fips length_sha_state length_fips_compress i(8) by simp_all
  show ?thesis
  proof (cases "56 < Suc (length r)")
    case True
    have "blocks64 (r @ sha_pad (length m)) = [r @ [0x80] @ replicate (63 - length r) 0, replicate 56 0 @ ?L]"
      using True i(3) rm sha_pad_long [of "length m"] blocks64_app [of "r @ [0x80] @ replicate (63 - length r) 0" "replicate 56 0 @ ?L"]
        blocks64_app [of "replicate 56 0 @ ?L" "[]"] by simp
    then show ?thesis unfolding h sha256_done_def Let_def i(4) len using True i(3) b c by simp
  next
    case False
    have "blocks64 (r @ sha_pad (length m)) = [r @ [0x80] @ replicate (55 - length r) 0 @ ?L]"
      using False rm sha_pad_short [of "length m"] blocks64_app [of "r @ [0x80] @ replicate (55 - length r) 0 @ ?L" "[]"] by simp
    then show ?thesis unfolding h sha256_done_def Let_def i(4) len using False i(3) b c by simp
  qed
qed

lemma vector_loop_inv: "sha_inv m md \<Longrightarrow> \<exists>md'. vector_loop md els = Some (Some md') \<and> sha_inv (m @ concat els) md'"
proof (induction els arbitrary: m md)
  case (Cons e es)
  obtain md1 where p: "process_loop md e = Some md1" "sha_inv (m @ e) md1" using process_loop_inv [OF Cons.prems] by blast
  moreover have "md_curlen md < 64" using Cons.prems by (auto simp: sha_inv_def)
  ultimately show ?case using Cons.IH [OF p(2)] by (simp add: sha256_process_def)
qed simp

lemma sha256_vector_eq: "length b = 64 \<Longrightarrow> sha256_vector b els = Some (Some (sha256 (concat els)))"
  using vector_loop_inv [OF sha_inv_init, of b els] sha256_done_eq by (auto simp: sha256_vector_def)

lemma length_sha256 [simp]: "length (sha256 m) = 32"
proof -
  have "length (concat (map RTW_PUT_BE32 xs)) = 4 * length xs" for xs by (induction xs) auto
  then show ?thesis by (simp add: sha256_def length_sha_state)
qed

section \<open>HMAC and the key derivation as RFC 2104 and IEEE 802.11 state them\<close>

definition hmac :: "bytes \<Rightarrow> bytes \<Rightarrow> bytes" where
  "hmac key m =
     (let k = (if 64 < length key then sha256 key else key);
          k0 = k @ replicate (64 - length k) 0
      in sha256 (map (\<lambda>x. x XOR 0x5c) k0 @ sha256 (map (\<lambda>x. x XOR 0x36) k0 @ m)))"

text \<open>The first \<open>bits\<close> bits of the concatenation of the values for the counters 1, 2, ...; the last bits of the last byte are zero.\<close>

definition kdf_block :: "bytes \<Rightarrow> bytes \<Rightarrow> bytes \<Rightarrow> nat \<Rightarrow> nat \<Rightarrow> bytes" where
  "kdf_block key label context bits i = hmac key (RTW_PUT_LE16 (word_of_nat i) @ label @ context @ RTW_PUT_LE16 (word_of_nat bits))"

definition kdf_stream :: "bytes \<Rightarrow> bytes \<Rightarrow> bytes \<Rightarrow> nat \<Rightarrow> nat \<Rightarrow> nat \<Rightarrow> bytes" where
  "kdf_stream key label context bits i n = take n (concat (map (kdf_block key label context bits) [i..<i + (n + 31) div 32]))"

definition kdf :: "bytes \<Rightarrow> bytes \<Rightarrow> bytes \<Rightarrow> nat \<Rightarrow> bytes" where
  "kdf key label context bits =
     (let s = kdf_stream key label context bits 1 ((bits + 7) div 8)
      in if bits mod 8 = 0 then s else butlast s @ [last s AND NOT (mask (8 - bits mod 8))])"

lemma hmac_eq: "length b = 64 \<Longrightarrow> length els \<le> 5 \<Longrightarrow> hmac_sha256_vector b key els = Some (Some (hmac key (concat els)))"
  by (simp add: hmac_sha256_vector_def sha256_vector_eq hmac_def Let_def k_pad_def)

declare prf_loop.simps [simp del]

lemma length_kdf_stream: "length (kdf_stream key label context bits i n) = n"
proof -
  have "length (concat (map (kdf_block key label context bits) xs)) = 32 * length xs" for xs
    by (induction xs) (auto simp: kdf_block_def hmac_def Let_def)
  then show ?thesis by (simp add: kdf_stream_def)
qed

lemma prf_loop_eq:
  assumes "length b = 64"
  shows "prf_loop b key label data (word_of_nat bits) (word_of_nat i) left = Some (Some (kdf_stream key label data bits i left))"
proof (induction left arbitrary: i rule: less_induct)
  case (less left)
  have h: "hmac_sha256_vector b key [RTW_PUT_LE16 (word_of_nat i), label, data, RTW_PUT_LE16 (word_of_nat bits)] =
      Some (Some (kdf_block key label data bits i))"
    using assms by (simp add: hmac_eq kdf_block_def)
  have l: "length (kdf_block key label data bits i) = 32" by (simp add: kdf_block_def hmac_def Let_def)
  consider "left = 0" | "0 < left" "left < 32" | "32 \<le> left" by linarith
  then show ?case
  proof cases
    case 1
    then show ?thesis by (simp add: prf_loop.simps kdf_stream_def)
  next
    case 2
    then have "(left + 31) div 32 = 1" by simp
    then show ?thesis using 2 h l by (simp add: prf_loop.simps [of b key label data _ _ left] kdf_stream_def)
  next
    case 3
    then have "(left + 31) div 32 = Suc ((left - 32 + 31) div 32)" by (simp add: le_div_geq)
    then have "kdf_stream key label data bits i left = kdf_block key label data bits i @ kdf_stream key label data bits (Suc i) (left - 32)"
      using 3 l by (simp add: kdf_stream_def upt_conv_Cons del: upt_Suc)
    then show ?thesis using 3 h less.IH [of "left - 32" "Suc i"]
      by (simp add: prf_loop.simps [of b key label data _ _ left] add.commute)
  qed
qed

lemma last_bits: "0 < k \<Longrightarrow> k < 8 \<Longrightarrow> x AND ucast (push_bit (8 - k) (0xff :: u32)) = (x :: u8) AND NOT (mask (8 - k))"
  unfolding mask8_word by (rule bit_word_eqI) (auto simp: bit_simps)

lemma os_strlen_eq: "0 \<notin> set cs \<Longrightarrow> os_strlen (cs @ 0 # rest) = Some (length cs)"
  by (induction cs) auto

lemma sha256_prf_bits_eq:
  assumes "length b = 64" and "0 \<notin> set label"
  shows "sha256_prf_bits b key (label @ 0 # rest) data bits = Some (Some (kdf key label data bits))"
proof -
  let ?n = "(bits + 7) div 8"
  let ?s = "kdf_stream key label data bits 1 ?n"
  have r: "prf_loop b key label data (word_of_nat bits) 1 ?n = Some (Some ?s)"
    using prf_loop_eq [OF assms(1), of key label data bits 1 ?n] by simp
  have "?s[?n - 1 := ?s ! (?n - 1) AND ucast (push_bit (8 - bits mod 8) (0xff :: u32))] =
      butlast ?s @ [last ?s AND NOT (mask (8 - bits mod 8))]" if "bits mod 8 \<noteq> 0"
  proof -
    have "0 < ?n" using that by (cases bits) auto
    then obtain xs x where s: "?s = xs @ [x]" "length xs = ?n - 1"
      using length_kdf_stream [of key label data bits 1 ?n] by (cases ?s rule: rev_cases) auto
    show ?thesis unfolding s(1) s(2) [symmetric] using last_bits [of "bits mod 8" x] that by simp
  qed
  then show ?thesis using r os_strlen_eq [OF assms(2)] by (simp add: sha256_prf_bits_def kdf_def Let_def)
qed

section \<open>Properties\<close>

text \<open>C7: \<open>sha256_vector\<close> computes SHA-256 (FIPS 180-4) of the concatenation of its data areas, however the message is cut into
  areas and whatever the uninitialised buffer holds: the constants are the bits of the roots of the first primes, the macros
  compute the functions of the standard, and buffering, padding and the length field give its padded message.\<close>

theorem sha256_vector_fips180_4:
  assumes "length b = 64"
  shows "sha256_vector b els = Some (Some (sha256 (concat els))) \<and> length (sha256 (concat els)) = 32"
  using assms by (simp add: sha256_vector_eq)

theorem sha256_vector_fips180_4_witness:
  "sha256_vector (replicate 64 7) [[0x61], [], [0x62, 0x63]] = Some (Some (sha256 [0x61, 0x62, 0x63]))"
  using sha256_vector_fips180_4 [of "replicate 64 7" "[[0x61], [], [0x62, 0x63]]"] by simp

text \<open>C15: \<open>hmac_sha256_vector\<close> computes HMAC (RFC 2104) with SHA-256 of the concatenation of up to five data areas, for keys
  of any length, and refuses more areas; \<open>sha256_prf_bits\<close> and \<open>sha256_prf\<close> compute the key derivation function of IEEE 802.11:
  as many bits as asked for of the HMAC values for the counters from 1 on over label, context and length, the unused bits of
  the last byte zero.\<close>

theorem hmac_and_kdf:
  assumes "length b = 64" and "0 \<notin> set label"
  shows "(length els \<le> 5 \<longrightarrow> hmac_sha256_vector b key els = Some (Some (hmac key (concat els)))) \<and>
    (5 < length els \<longrightarrow> hmac_sha256_vector b key els = Some None) \<and>
    sha256_prf_bits b key (label @ 0 # rest) data bits = Some (Some (kdf key label data bits)) \<and>
    sha256_prf b key (label @ 0 # rest) data n = Some (Some (kdf key label data (n * 8)))"
proof -
  have "5 < length els \<Longrightarrow> hmac_sha256_vector b key els = Some None" by (simp add: hmac_sha256_vector_def)
  then show ?thesis using assms sha256_prf_bits_eq by (auto simp: hmac_eq sha256_prf_def)
qed

theorem hmac_and_kdf_witness:
  "hmac_sha256_vector (replicate 64 0) [1] [[2], [3]] = Some (Some (hmac [1] [2, 3])) \<and>
   hmac_sha256_vector (replicate 64 0) [1] (replicate 6 []) = Some None \<and>
   sha256_prf_bits (replicate 64 0) [1] [0x41, 0, 9] [5] 100 = Some (Some (kdf [1] [0x41] [5] 100)) \<and>
   sha256_prf (replicate 64 0) [1] [0x41, 0, 9] [5] 48 = Some (Some (kdf [1] [0x41] [5] 384))"
  using hmac_and_kdf [of "replicate 64 0" "[0x41]" "[[2], [3]]" "[1]" "[9]" "[5]" 100 48]
    hmac_and_kdf [of "replicate 64 0" "[0x41]" "replicate 6 []" "[1]" "[9]" "[5]" 100 48] by simp

end
