(* ===== verification/Sec_Aes.thy ===== *)
theory Sec_Aes
  imports Sec_Tkip Crypto_Ccm Crypto_Gcm
begin

text \<open>
  CCMP and GCMP on the frames of the driver: \<^verbatim>\<open>core/rtw_swcrypto.c\<close>, which encrypts and decrypts a frame in place, and
  \<open>rtw_aes_encrypt\<close>, \<open>rtw_aes_decrypt\<close>, \<open>rtw_gcmp_encrypt\<close> and \<open>rtw_gcmp_decrypt\<close> of \<^verbatim>\<open>core/rtw_security.c\<close> (the code for
  \<open>NEW_CRYPTO\<close>), which take keys and lengths from the driver's structures. The configuration is that of the Makefile: no
  \<open>CONFIG_TDLS\<close>, no \<open>CONFIG_RTW_MESH\<close>. \<open>mem n\<close> tells whether \<open>n\<close> bytes can be allocated, \<open>spp\<close> is the A-MSDU mode.
\<close>

section \<open>A frame in its buffer\<close>

text \<open>The frame starts at \<open>p\<close> in the buffer \<open>b\<close>. \<open>_rtw_ccmp_encrypt\<close> and \<open>_rtw_gcmp_encrypt\<close> copy the encrypted frame back;
  the result tells \<open>_SUCCESS\<close> from \<open>_FAIL\<close>. Lengths are \<open>uint\<close>.\<close>

definition sw_encrypt_copy :: "bytes \<Rightarrow> nat \<Rightarrow> bytes option option \<Rightarrow> (bool \<times> bytes) option" where
  "sw_encrypt_copy b p r = do {
     enc \<leftarrow> r;
     case enc of
       None \<Rightarrow> Some (False, b)
     | Some e \<Rightarrow> do { b' \<leftarrow> wr_slice b p e; Some (True, b') } }"

definition sw_ccmp_encrypt :: "(nat \<Rightarrow> bool) \<Rightarrow> bool \<Rightarrow> bytes \<Rightarrow> nat \<Rightarrow> nat \<Rightarrow> bytes \<Rightarrow> nat \<Rightarrow> nat \<Rightarrow> (bool \<times> bytes) option" where
  "sw_ccmp_encrypt mem spp key key_len hlen b p plen =
     sw_encrypt_copy b p
       (if key_len = 16 then ccmp_encrypt mem spp key (drop p b) ((hlen + plen) mod 2 ^ 32) hlen None 0
        else if key_len = 32 then ccmp_256_encrypt mem spp key (drop p b) ((hlen + plen) mod 2 ^ 32) hlen None 0
        else Some None)"

definition sw_gcmp_encrypt :: "(nat \<Rightarrow> bool) \<Rightarrow> bool \<Rightarrow> bytes \<Rightarrow> nat \<Rightarrow> nat \<Rightarrow> bytes \<Rightarrow> nat \<Rightarrow> nat \<Rightarrow> (bool \<times> bytes) option" where
  "sw_gcmp_encrypt mem spp key key_len hlen b p plen =
     sw_encrypt_copy b p (gcmp_encrypt mem spp key key_len (drop p b) ((hlen + plen) mod 2 ^ 32) hlen None 0)"

text \<open>Decryption writes the data behind header and packet number. A frame shorter than its header makes the length of the data
  wrap around; this counts as leaving the buffer.\<close>

definition sw_decrypt_copy :: "nat \<Rightarrow> bytes \<Rightarrow> nat \<Rightarrow> bytes option option \<Rightarrow> (bool \<times> bytes) option" where
  "sw_decrypt_copy hlen b p r = do {
     plain \<leftarrow> r;
     case plain of
       None \<Rightarrow> Some (False, b)
     | Some d \<Rightarrow> do { b' \<leftarrow> wr_slice b (p + hlen + 8) d; Some (True, b') } }"

definition sw_ccmp_decrypt :: "(nat \<Rightarrow> bool) \<Rightarrow> bool \<Rightarrow> bytes \<Rightarrow> nat \<Rightarrow> nat \<Rightarrow> bytes \<Rightarrow> nat \<Rightarrow> nat \<Rightarrow> (bool \<times> bytes) option" where
  "sw_ccmp_decrypt mem spp key key_len hlen b p plen = do {
     data \<leftarrow> rd_slice b (p + hlen) (uint_sub plen hlen);
     sw_decrypt_copy hlen b p
       (if key_len = 16 then ccmp_decrypt mem spp key (drop p b) data
        else if key_len = 32 then ccmp_256_decrypt mem spp key (drop p b) data
        else Some None) }"

definition sw_gcmp_decrypt :: "(nat \<Rightarrow> bool) \<Rightarrow> bool \<Rightarrow> bytes \<Rightarrow> nat \<Rightarrow> nat \<Rightarrow> bytes \<Rightarrow> nat \<Rightarrow> nat \<Rightarrow> (bool \<times> bytes) option" where
  "sw_gcmp_decrypt mem spp key key_len hlen b p plen = do {
     data \<leftarrow> rd_slice b (p + hlen) (uint_sub plen hlen);
     sw_decrypt_copy hlen b p (gcmp_decrypt mem spp key key_len (drop p b) data) }"

section \<open>Frames to send\<close>

text \<open>The loop over the fragments, the same in both functions; \<open>enc\<close> encrypts the fragment at an offset. What it returns is
  not looked at.\<close>

fun sw_encrypt_loop ::
  "(bytes \<Rightarrow> nat \<Rightarrow> nat \<Rightarrow> (bool \<times> bytes) option) \<Rightarrow> pkt_attrib \<Rightarrow> nat \<Rightarrow> nat \<Rightarrow> nat \<Rightarrow> nat \<Rightarrow> bytes \<Rightarrow> bytes option" where
  "sw_encrypt_loop enc a frag_len addr 0 pframe b = Some b"
| "sw_encrypt_loop enc a frag_len addr (Suc n) pframe b = do {
     (res, b') \<leftarrow> enc b pframe (frag_data_len a (if n = 0 then last_txcmdsz a else frag_len));
     sw_encrypt_loop enc a frag_len addr n (RND4 (addr + pframe + frag_len) - addr) b' }"

definition tx_key :: "security_priv \<Rightarrow> pkt_attrib \<Rightarrow> bytes option" where
  "tx_key sec a = (if IS_MCAST (tx_ra a) then arr (dot118021XGrpKey sec) (dot118021XGrpKeyid sec) else Some (dot118021x_UncstKey a))"

definition rtw_aes_encrypt :: "(nat \<Rightarrow> bool) \<Rightarrow> bool \<Rightarrow> security_priv \<Rightarrow> nat \<Rightarrow> xmit_frame \<Rightarrow> (unit + xmit_frame) option" where
  "rtw_aes_encrypt mem spp sec frag_len xf =
     (let a = x_attrib xf
      in case buf_addr xf of
           None \<Rightarrow> Some (Inl ())
         | Some (addr, b) \<Rightarrow>
             if tx_encrypt a = AES_T \<or> tx_encrypt a = CCMP_256_T then do {
               key \<leftarrow> tx_key sec a;
               b' \<leftarrow> sw_encrypt_loop (sw_ccmp_encrypt mem spp key (if tx_encrypt a = CCMP_256_T then 32 else 16) (unat (tx_hdrlen a)))
                      a frag_len addr (unat (nr_frags a)) (hw_hdr_offset xf) b;
               Some (Inr (xf\<lparr>buf_addr := Some (addr, b')\<rparr>)) }
             else Some (Inr xf))"

definition rtw_gcmp_encrypt :: "(nat \<Rightarrow> bool) \<Rightarrow> bool \<Rightarrow> security_priv \<Rightarrow> nat \<Rightarrow> xmit_frame \<Rightarrow> (unit + xmit_frame) option" where
  "rtw_gcmp_encrypt mem spp sec frag_len xf =
     (let a = x_attrib xf
      in case buf_addr xf of
           None \<Rightarrow> Some (Inl ())
         | Some (addr, b) \<Rightarrow>
             if tx_encrypt a = GCMP_T \<or> tx_encrypt a = GCMP_256_T then do {
               key \<leftarrow> tx_key sec a;
               b' \<leftarrow> sw_encrypt_loop (sw_gcmp_encrypt mem spp key (if tx_encrypt a = GCMP_256_T then 32 else 16) (unat (tx_hdrlen a)))
                      a frag_len addr (unat (nr_frags a)) (hw_hdr_offset xf) b;
               Some (Inr (xf\<lparr>buf_addr := Some (addr, b')\<rparr>)) }
             else Some (Inr xf))"

text \<open>The switch of \<open>xmitframe_swencrypt\<close>; the results of the functions it calls are not looked at.\<close>

definition xmitframe_swencrypt :: "(nat \<Rightarrow> bool) \<Rightarrow> bool \<Rightarrow> security_priv \<Rightarrow> nat \<Rightarrow> bool \<Rightarrow> xmit_frame \<Rightarrow> xmit_frame option" where
  "xmitframe_swencrypt mem spp sec frag_len bswenc xf =
     (let e = tx_encrypt (x_attrib xf);
          drop_res = map_option (\<lambda>s. case s of Inl _ \<Rightarrow> xf | Inr xf' \<Rightarrow> xf')
      in if \<not> bswenc then Some xf
         else if e = WEP40_T \<or> e = WEP104_T then rtw_wep_encrypt sec frag_len xf
         else if e = TKIP_T then drop_res (rtw_tkip_encrypt sec frag_len xf)
         else if e = AES_T \<or> e = CCMP_256_T then drop_res (rtw_aes_encrypt mem spp sec frag_len xf)
         else if e = GCMP_T \<or> e = GCMP_256_T then drop_res (rtw_gcmp_encrypt mem spp sec frag_len xf)
         else Some xf)"

section \<open>Received frames\<close>

text \<open>The key for a received frame, the same code in both functions; the inner option is \<^const>\<open>None\<close> when they give up with
  \<open>_FAIL\<close>: a group frame without an installed group key or with another key index.\<close>

definition rx_key :: "security_priv \<Rightarrow> sta_keys \<Rightarrow> recv_frame \<Rightarrow> bytes option option" where
  "rx_key sec sta f =
     (if IS_MCAST (ra (attrib f)) then
        (if \<not> binstallGrpkey sec then Some None
         else do {
           k \<leftarrow> arr (dot118021XGrpKey sec) (unat (key_index (attrib f)));
           Some (if dot118021XGrpKeyid sec \<noteq> unat (key_index (attrib f)) then None else Some k) })
      else Some (Some (sta_UncstKey sta)))"

definition rtw_aes_decrypt :: "(nat \<Rightarrow> bool) \<Rightarrow> bool \<Rightarrow> security_priv \<Rightarrow> sta_keys option \<Rightarrow> recv_frame \<Rightarrow> (bool \<times> recv_frame) option" where
  "rtw_aes_decrypt mem spp sec stainfo f =
     (if encrypt (attrib f) = AES_T \<or> encrypt (attrib f) = CCMP_256_T then
        (case stainfo of
           None \<Rightarrow> Some (False, f)
         | Some sta \<Rightarrow> do {
             k \<leftarrow> rx_key sec sta f;
             case k of
               None \<Rightarrow> Some (False, f)
             | Some key \<Rightarrow> do {
                 (res, b) \<leftarrow> sw_ccmp_decrypt mem spp key (if encrypt (attrib f) = CCMP_256_T then 32 else 16)
                              (unat (hdrlen (attrib f))) (buf f) (rx_data f) (len f);
                 Some (res, f\<lparr>buf := b\<rparr>) } })
      else Some (True, f))"

definition rtw_gcmp_decrypt :: "(nat \<Rightarrow> bool) \<Rightarrow> bool \<Rightarrow> security_priv \<Rightarrow> sta_keys option \<Rightarrow> recv_frame \<Rightarrow> (bool \<times> recv_frame) option" where
  "rtw_gcmp_decrypt mem spp sec stainfo f =
     (if encrypt (attrib f) = GCMP_T \<or> encrypt (attrib f) = GCMP_256_T then
        (case stainfo of
           None \<Rightarrow> Some (False, f)
         | Some sta \<Rightarrow> do {
             k \<leftarrow> rx_key sec sta f;
             case k of
               None \<Rightarrow> Some (False, f)
             | Some key \<Rightarrow> do {
                 (res, b) \<leftarrow> sw_gcmp_decrypt mem spp key (if encrypt (attrib f) = GCMP_256_T then 32 else 16)
                              (unat (hdrlen (attrib f))) (buf f) (rx_data f) (len f);
                 Some (res, f\<lparr>buf := b\<rparr>) } })
      else Some (True, f))"

text \<open>The switch of \<open>decryptor\<close>; the answer of \<open>rtw_wep_decrypt\<close> is not looked at. \<open>stainfo\<close> is what \<open>rtw_get_stainfo\<close> finds
  for the transmitter address.\<close>

definition sw_decrypt :: "(nat \<Rightarrow> bool) \<Rightarrow> bool \<Rightarrow> security_priv \<Rightarrow> sta_keys option \<Rightarrow> recv_frame \<Rightarrow> (bool \<times> recv_frame) option" where
  "sw_decrypt mem spp sec stainfo f =
     (let e = encrypt (attrib f)
      in if e = WEP40_T \<or> e = WEP104_T then map_option (Pair True) (rtw_wep_decrypt sec f)
         else if e = TKIP_T then rtw_tkip_decrypt sec stainfo f
         else if e = AES_T \<or> e = CCMP_256_T then rtw_aes_decrypt mem spp sec stainfo f
         else if e = GCMP_T \<or> e = GCMP_256_T then rtw_gcmp_decrypt mem spp sec stainfo f
         else Some (True, f))"

definition WEP_KEYS :: u8 where "WEP_KEYS = 4"

definition rx_set_key_index :: "security_priv \<Rightarrow> recv_frame \<Rightarrow> recv_frame option" where
  "rx_set_key_index sec f =
     (let e = encrypt (attrib f)
      in if 0 < e then do {
           iv3 \<leftarrow> rd (buf f) (rx_data f + unat (hdrlen (attrib f)) + 3);
           let ki = drop_bit 6 iv3 AND 0x3;
           let ki' = (if WEP_KEYS < ki
                      then of_nat (if e = WEP40_T \<or> e = WEP104_T then dot11PrivacyKeyIndex sec else dot118021XGrpKeyid sec)
                      else ki);
           Some (f\<lparr>attrib := (attrib f)\<lparr>key_index := ki'\<rparr>\<rparr>) }
         else Some f)"

text \<open>\<open>decryptor\<close>: the frame, or NULL when it is given back to the pool. \<open>WIFI_DATA\<close> is type 2.\<close>

definition decryptor ::
  "(nat \<Rightarrow> bool) \<Rightarrow> bool \<Rightarrow> security_priv \<Rightarrow> sta_keys option \<Rightarrow> recv_frame \<Rightarrow> recv_frame list \<Rightarrow>
     (security_priv \<times> recv_frame option \<times> recv_frame list) option" where
  "decryptor mem spp sec stainfo f pool = do {
     f1 \<leftarrow> rx_set_key_index sec f;
     let e = encrypt (attrib f1);
     (sec', res, f2) \<leftarrow>
       (if e \<noteq> 0 \<and> \<not> bdecrypted (attrib f1) then do {
          fc \<leftarrow> RTW_GET_LE16 (buf f1) (rx_data f1);
          let sec' = (if fc AND 0x000c = 0x0008 then sec\<lparr>hw_decrypted := False\<rparr> else sec);
          (res, f2) \<leftarrow> sw_decrypt mem spp sec' stainfo f1;
          Some (sec', res, f2) }
        else if bdecrypted (attrib f1) \<and> 0 < e \<and> (busetkipkey sec \<or> e \<noteq> TKIP_T)
        then Some (sec\<lparr>hw_decrypted := True\<rparr>, True, f1)
        else Some (sec, True, f1));
     Some (if res then (sec', Some (f2\<lparr>attrib := (attrib f2)\<lparr>bdecrypted := True\<rparr>\<rparr>), pool)
           else (sec', None, rtw_free_recvframe f2 pool)) }"

section \<open>A frame encrypted and decrypted in its buffers\<close>

context aead
begin

lemma sw_roundtrip:
  assumes "length h = hlen" and "24 \<le> hlen" and "length iv = 8" and "length tail = mic_len" and "\<And>n. mem n"
  shows "\<exists>c t. length c = length d \<and> length t = mic_len \<and>
    sw_encrypt_copy (pre @ h @ iv @ d @ tail @ post) (length pre)
      (frame_encrypt mem prot aad_nonce ae mic_len (h @ iv @ d @ tail @ post) (hlen + length d) hlen None 0) =
      Some (True, pre @ frame_hdr prot h @ iv @ c @ t @ post) \<and>
    (\<forall>pre' post'. sw_decrypt_copy hlen (pre' @ frame_hdr prot h @ iv @ c @ t @ post') (length pre')
        (frame_decrypt mem aad_nonce ad mic_len (frame_hdr prot h @ iv @ c @ t @ post') (iv @ c @ t)) =
      Some (True, pre' @ frame_hdr prot h @ iv @ d @ t @ post'))"
proof -
  let ?E = "frame_encrypt mem prot aad_nonce ae mic_len (h @ iv @ d @ tail @ post) (hlen + length d) hlen None 0"
  have rt: "\<exists>c t. ?E = Some (Some (frame_hdr prot h @ iv @ c @ t)) \<and> length c = length d \<and> length t = mic_len \<and>
      frame_decrypt mem aad_nonce ad mic_len (frame_hdr prot h @ iv @ c @ t @ r) (iv @ c @ t) = Some (Some d)" for r
    using frame_roundtrip [where mem = mem and p = d, OF assms(1-3) assms(5,5), of prot "tail @ post" 0 r] by simp
  obtain c t where e: "?E = Some (Some (frame_hdr prot h @ iv @ c @ t))" and l: "length c = length d" "length t = mic_len"
    using rt by blast
  have d: "frame_decrypt mem aad_nonce ad mic_len (frame_hdr prot h @ iv @ c @ t @ r) (iv @ c @ t) = Some (Some d)" for r
    using rt [of r] e l by auto
  have h: "length (frame_hdr prot h) = hlen" using assms(1) by (simp add: frame_hdr_def)
  show ?thesis
    by (intro exI [of _ c] exI [of _ t] conjI allI)
      (use e l d h assms in \<open>auto simp: sw_encrypt_copy_def sw_decrypt_copy_def wr_slice_def\<close>)
qed

lemma sw_frame:
  assumes "length h = hlen" and "24 \<le> hlen" and "length iv = 8" and "length tail = mic_len" and "\<And>n. mem n"
    and "hlen + length d < 2 ^ 32" and "h ! 1 OR 0x40 = h ! 1"
    and enc: "\<And>b p plen. enc b p plen =
      sw_encrypt_copy b p (frame_encrypt mem prot aad_nonce ae mic_len (drop p b) ((hlen + plen) mod 2 ^ 32) hlen None 0)"
    and dec: "\<And>b p plen. dec b p plen =
      Option.bind (rd_slice b (p + hlen) (uint_sub plen hlen)) (\<lambda>data. sw_decrypt_copy hlen b p (frame_decrypt mem aad_nonce ad mic_len (drop p b) data))"
  shows "\<exists>c t. length c = length d \<and> length t = mic_len \<and>
    enc (pre @ h @ iv @ d @ tail @ post) (length pre) (length d) = Some (True, pre @ h @ iv @ c @ t @ post) \<and>
    (\<forall>pre' post'. dec (pre' @ h @ iv @ c @ t @ post') (length pre') (hlen + 8 + length d + mic_len) =
      Some (True, pre' @ h @ iv @ d @ t @ post'))"
proof -
  have hdr: "frame_hdr prot h = h" using assms(7) by (simp add: frame_hdr_def list_update_same_conv)
  obtain c t where r: "length c = length d" "length t = mic_len"
    "sw_encrypt_copy (pre @ h @ iv @ d @ tail @ post) (length pre)
      (frame_encrypt mem prot aad_nonce ae mic_len (h @ iv @ d @ tail @ post) (hlen + length d) hlen None 0) =
      Some (True, pre @ h @ iv @ c @ t @ post)"
    "\<And>pre' post'. sw_decrypt_copy hlen (pre' @ h @ iv @ c @ t @ post') (length pre')
        (frame_decrypt mem aad_nonce ad mic_len (h @ iv @ c @ t @ post') (iv @ c @ t)) = Some (True, pre' @ h @ iv @ d @ t @ post')"
    using sw_roundtrip [where mem = mem, OF assms(1-4) assms(5), of d pre post prot] unfolding hdr by blast
  have "rd_slice (pre' @ h @ iv @ c @ t @ post') (length pre' + hlen) (uint_sub (hlen + 8 + length d + mic_len) hlen) = Some (iv @ c @ t)" for pre' post'
    using r(1,2) assms(1,3) by (simp add: rd_slice_def)
  then show ?thesis
    using r assms(6) by (intro exI [of _ c] exI [of _ t]) (simp add: enc dec)
qed

end

text \<open>The ciphers: length of the key and of the tag, and whether the protected bit is set.\<close>

definition is_ccmp :: "u8 \<Rightarrow> bool" where "is_ccmp e \<longleftrightarrow> e = AES_T \<or> e = CCMP_256_T"
definition is_gcmp :: "u8 \<Rightarrow> bool" where "is_gcmp e \<longleftrightarrow> e = GCMP_T \<or> e = GCMP_256_T"
definition sw_mic_len :: "u8 \<Rightarrow> nat" where "sw_mic_len e = (if e = AES_T then 8 else 16)"

definition sw_enc :: "u8 \<Rightarrow> (nat \<Rightarrow> bool) \<Rightarrow> bool \<Rightarrow> bytes \<Rightarrow> nat \<Rightarrow> bytes \<Rightarrow> nat \<Rightarrow> nat \<Rightarrow> (bool \<times> bytes) option" where
  "sw_enc e mem spp key =
     (if is_ccmp e then sw_ccmp_encrypt mem spp key (if e = CCMP_256_T then 32 else 16)
      else sw_gcmp_encrypt mem spp key (if e = GCMP_256_T then 32 else 16))"

definition sw_dec :: "u8 \<Rightarrow> (nat \<Rightarrow> bool) \<Rightarrow> bool \<Rightarrow> bytes \<Rightarrow> nat \<Rightarrow> bytes \<Rightarrow> nat \<Rightarrow> nat \<Rightarrow> (bool \<times> bytes) option" where
  "sw_dec e mem spp key =
     (if is_ccmp e then sw_ccmp_decrypt mem spp key (if e = CCMP_256_T then 32 else 16)
      else sw_gcmp_decrypt mem spp key (if e = GCMP_256_T then 32 else 16))"

lemma sw_enc_dec:
  assumes "is_ccmp e \<or> is_gcmp e" and "length h = hlen" and "24 \<le> hlen" and "length iv = 8" and "length tail = sw_mic_len e"
    and "32 \<le> length key" and "\<And>n. mem n" and "hlen + length d < 2 ^ 32" and "h ! 1 OR 0x40 = h ! 1"
  shows "\<exists>c t. length c = length d \<and> length t = sw_mic_len e \<and>
    sw_enc e mem spp key hlen (pre @ h @ iv @ d @ tail @ post) (length pre) (length d) = Some (True, pre @ h @ iv @ c @ t @ post) \<and>
    (\<forall>pre' post'. sw_dec e mem spp key hlen (pre' @ h @ iv @ c @ t @ post') (length pre') (hlen + 8 + length d + sw_mic_len e) =
      Some (True, pre' @ h @ iv @ d @ t @ post'))"
proof -
  consider "e = AES_T" | "e = CCMP_256_T" | "e = GCMP_T" | "e = GCMP_256_T" using assms(1) by (auto simp: is_ccmp_def is_gcmp_def)
  then show ?thesis
  proof cases
    case 1
    then have m: "sw_mic_len e = 8" by (simp add: sw_mic_len_def sec_type_defs)
    show ?thesis unfolding m
      by (rule ccmp.sw_frame [where mem = mem and prot = True and spp = spp and tk = key and enc = "sw_enc e mem spp key hlen" and dec = "sw_dec e mem spp key hlen"])
        (use assms 1 m in \<open>simp_all add: sw_enc_def sw_dec_def is_ccmp_def sw_ccmp_encrypt_def sw_ccmp_decrypt_def ccmp_encrypt_fit sec_type_defs\<close>)
  next
    case 2
    then have m: "sw_mic_len e = 16" by (simp add: sw_mic_len_def sec_type_defs)
    show ?thesis unfolding m
      by (rule ccmp256.sw_frame [where mem = mem and prot = True and spp = spp and tk = key and enc = "sw_enc e mem spp key hlen" and dec = "sw_dec e mem spp key hlen"])
        (use assms 2 m in \<open>simp_all add: sw_enc_def sw_dec_def is_ccmp_def sw_ccmp_encrypt_def sw_ccmp_decrypt_def ccmp_256_encrypt_fit sec_type_defs\<close>)
  next
    case 3
    then have m: "sw_mic_len e = 16" by (simp add: sw_mic_len_def sec_type_defs)
    show ?thesis unfolding m
      by (rule gcmp.sw_frame [where mem = mem and prot = False and spp = spp and tk = key and enc = "sw_enc e mem spp key hlen" and dec = "sw_dec e mem spp key hlen"])
        (use assms 3 m in \<open>simp_all add: sw_enc_def sw_dec_def is_ccmp_def sw_gcmp_encrypt_def sw_gcmp_decrypt_def gcmp_encrypt_fit sec_type_defs\<close>)
  next
    case 4
    then have m: "sw_mic_len e = 16" by (simp add: sw_mic_len_def sec_type_defs)
    show ?thesis unfolding m
      by (rule gcmp256.sw_frame [where mem = mem and prot = False and spp = spp and tk = key and enc = "sw_enc e mem spp key hlen" and dec = "sw_dec e mem spp key hlen"])
        (use assms 4 m in \<open>simp_all add: sw_enc_def sw_dec_def is_ccmp_def sw_gcmp_encrypt_def sw_gcmp_decrypt_def gcmp_encrypt_fit sec_type_defs\<close>)
  qed
qed

lemma sw_types [simp]:
  "is_ccmp e \<Longrightarrow> e \<noteq> WEP40_T \<and> e \<noteq> WEP104_T \<and> e \<noteq> TKIP_T \<and> e \<noteq> 0"
  "is_gcmp e \<Longrightarrow> e \<noteq> WEP40_T \<and> e \<noteq> WEP104_T \<and> e \<noteq> TKIP_T \<and> e \<noteq> 0 \<and> \<not> is_ccmp e \<and> e \<noteq> AES_T \<and> e \<noteq> CCMP_256_T"
  by (auto simp: is_ccmp_def is_gcmp_def sec_type_defs)

text \<open>Sending and receiving in terms of the cipher.\<close>

lemma xmitframe_swencrypt_sw:
  assumes "is_ccmp e \<or> is_gcmp e" and "tx_encrypt (x_attrib xf) = e" and "buf_addr xf = Some (addr, b)"
    and "tx_key sec (x_attrib xf) = Some key"
  shows "xmitframe_swencrypt mem spp sec frag_len True xf =
    map_option (\<lambda>b'. xf\<lparr>buf_addr := Some (addr, b')\<rparr>)
      (sw_encrypt_loop (sw_enc e mem spp key (unat (tx_hdrlen (x_attrib xf)))) (x_attrib xf) frag_len addr
        (unat (nr_frags (x_attrib xf))) (hw_hdr_offset xf) b)"
proof (cases "is_ccmp e")
  case True
  then show ?thesis using assms
    by (auto simp: xmitframe_swencrypt_def rtw_aes_encrypt_def Let_def sw_enc_def is_ccmp_def [symmetric] map_conv_bind_option option.map_comp comp_def
        split: bind_splits)
next
  case False
  then show ?thesis using assms
    by (auto simp: xmitframe_swencrypt_def rtw_gcmp_encrypt_def Let_def sw_enc_def is_gcmp_def [symmetric] map_conv_bind_option option.map_comp comp_def
        split: bind_splits)
qed

lemma sw_decrypt_sw:
  assumes "is_ccmp e \<or> is_gcmp e" and "encrypt (attrib f) = e" and "rx_key sec sta f = Some (Some key)"
  shows "sw_decrypt mem spp sec (Some sta) f =
    map_option (\<lambda>(res, b). (res, f\<lparr>buf := b\<rparr>)) (sw_dec e mem spp key (unat (hdrlen (attrib f))) (buf f) (rx_data f) (len f))"
proof (cases "is_ccmp e")
  case True
  then show ?thesis using assms
    by (auto simp: sw_decrypt_def rtw_aes_decrypt_def Let_def sw_dec_def is_ccmp_def [symmetric] map_conv_bind_option split: bind_splits)
next
  case False
  then show ?thesis using assms
    by (auto simp: sw_decrypt_def rtw_gcmp_decrypt_def Let_def sw_dec_def is_gcmp_def [symmetric] map_conv_bind_option split: bind_splits)
qed

text \<open>A frame of one fragment that can be encrypted by software.\<close>

definition sw_tx_ok :: "security_priv \<Rightarrow> bytes \<Rightarrow> xmit_frame \<Rightarrow> bytes \<Rightarrow> bool" where
  "sw_tx_ok sec key xf b \<longleftrightarrow>
     (let a = x_attrib xf; e = tx_encrypt a; off = hw_hdr_offset xf
      in (is_ccmp e \<or> is_gcmp e) \<and> nr_frags a = 1 \<and> tx_key sec a = Some key \<and> 32 \<le> length key \<and>
         tx_iv_len a = 8 \<and> unat (tx_icv_len a) = sw_mic_len e \<and> 24 \<le> unat (tx_hdrlen a) \<and>
         unat (tx_hdrlen a) + 8 + sw_mic_len e \<le> last_txcmdsz a \<and> last_txcmdsz a < 2 ^ 32 \<and>
         off + last_txcmdsz a \<le> length b \<and> b ! (off + 1) OR 0x40 = b ! (off + 1))"

lemma split_frame:
  assumes "p + (n1 + n2 + n3 + n4) \<le> length b"
  obtains pre h iv d t post where "b = pre @ h @ iv @ d @ t @ post" "length pre = p" "length h = n1" "length iv = n2"
    "length d = n3" "length t = n4"
proof
  have step: "take k (drop m b) @ drop (m + k) b = drop m b" for m k
    by (metis add.commute append_take_drop_id drop_drop)
  show "b = take p b @ take n1 (drop p b) @ take n2 (drop (p + n1) b) @ take n3 (drop (p + n1 + n2) b) @
      take n4 (drop (p + n1 + n2 + n3) b) @ drop (p + n1 + n2 + n3 + n4) b"
    by (simp only: step append_take_drop_id)
qed (use assms in auto)

lemma sw_frames:
  assumes ok: "sw_tx_ok sec key xf b" and b: "buf_addr xf = Some (addr, b)" and mem: "\<And>n. mem n"
  obtains h iv d c t b' where
    "take (last_txcmdsz (x_attrib xf)) (drop (hw_hdr_offset xf) b') = h @ iv @ c @ t"
    "take (last_txcmdsz (x_attrib xf) - sw_mic_len (tx_encrypt (x_attrib xf))) (drop (hw_hdr_offset xf) b) = h @ iv @ d"
    "length h = unat (tx_hdrlen (x_attrib xf))" "length iv = 8" "length c = length d" "length t = sw_mic_len (tx_encrypt (x_attrib xf))"
    "xmitframe_swencrypt mem spp sec frag_len True xf = Some (xf\<lparr>buf_addr := Some (addr, b')\<rparr>)"
    "\<And>pre' post'. sw_dec (tx_encrypt (x_attrib xf)) mem spp key (length h) (pre' @ h @ iv @ c @ t @ post') (length pre')
       (length h + 8 + length d + sw_mic_len (tx_encrypt (x_attrib xf))) = Some (True, pre' @ h @ iv @ d @ t @ post')"
proof -
  let ?a = "x_attrib xf"
  let ?e = "tx_encrypt ?a" and ?off = "hw_hdr_offset xf" and ?hl = "unat (tx_hdrlen ?a)" and ?sz = "last_txcmdsz ?a"
  note o = ok [unfolded sw_tx_ok_def Let_def]
  define n where "n = ?sz - ?hl - 8 - sw_mic_len ?e"
  have n: "?sz = ?hl + 8 + n + sw_mic_len ?e" using o by (simp add: n_def)
  obtain pre h iv d tail post where s: "b = pre @ h @ iv @ d @ tail @ post" "length pre = ?off" "length h = ?hl" "length iv = 8"
    "length d = n" "length tail = sw_mic_len ?e"
    using o n by (elim conjE) (rule split_frame [of ?off ?hl 8 n "sw_mic_len ?e" b], simp)
  have "b ! (?off + 1) = h ! 1" using s o by (simp add: nth_append)
  then obtain c t where ct: "length c = length d" "length t = sw_mic_len ?e"
    "sw_enc ?e mem spp key ?hl b ?off (length d) = Some (True, pre @ h @ iv @ c @ t @ post)"
    "\<And>pre' post'. sw_dec ?e mem spp key ?hl (pre' @ h @ iv @ c @ t @ post') (length pre') (?hl + 8 + length d + sw_mic_len ?e) =
      Some (True, pre' @ h @ iv @ d @ t @ post')"
    using sw_enc_dec [of ?e h ?hl iv tail key mem d spp pre post] o s mem n by auto
  have "frag_data_len ?a ?sz = n" using o n by (subst frag_data_len_eq) auto
  then have "xmitframe_swencrypt mem spp sec frag_len True xf = Some (xf\<lparr>buf_addr := Some (addr, pre @ h @ iv @ c @ t @ post)\<rparr>)"
    using xmitframe_swencrypt_sw [of ?e xf addr b sec key mem spp frag_len] o b ct(3) s(5) by simp
  then show ?thesis
    using that [of "pre @ h @ iv @ c @ t @ post" h iv c t d] s ct n by simp
qed

text \<open>A received frame with the bytes of the frame sent, for which the receiver has the key: the one of the transmitter, or the
  group key with the index in the packet number.\<close>

definition has_key :: "security_priv \<Rightarrow> sta_keys \<Rightarrow> bytes \<Rightarrow> recv_frame \<Rightarrow> bool" where
  "has_key sec sta key f \<longleftrightarrow>
     (if IS_MCAST (ra (attrib f)) then
        binstallGrpkey sec \<and> arr (dot118021XGrpKey sec) (dot118021XGrpKeyid sec) = Some key \<and>
        dot118021XGrpKeyid sec = unat (drop_bit 6 (frame_data f ! (unat (hdrlen (attrib f)) + 3)) AND 0x3)
      else sta_UncstKey sta = key)"

definition sw_rx_ok :: "security_priv \<Rightarrow> sta_keys \<Rightarrow> bytes \<Rightarrow> xmit_frame \<Rightarrow> bytes \<Rightarrow> recv_frame \<Rightarrow> bool" where
  "sw_rx_ok sec sta key xf b f \<longleftrightarrow> frame_wf f \<and> \<not> bdecrypted (attrib f) \<and>
     frame_data f = take (last_txcmdsz (x_attrib xf)) (drop (hw_hdr_offset xf) b) \<and>
     encrypt (attrib f) = tx_encrypt (x_attrib xf) \<and> unat (hdrlen (attrib f)) = unat (tx_hdrlen (x_attrib xf)) \<and>
     has_key sec sta key f"

lemma key_index_le: "\<not> WEP_KEYS < drop_bit 6 (x :: u8) AND 0x3"
proof -
  have "drop_bit 6 x AND 0x3 \<le> (0x3 :: u8)" by (rule word_and_le1)
  then show ?thesis by (simp add: WEP_KEYS_def word_less_nat_alt word_le_nat_alt)
qed

lemma rx_set_key_index_sw:
  assumes "frame_wf f" and "0 < encrypt (attrib f)" and "unat (hdrlen (attrib f)) + 4 \<le> len f"
  shows "rx_set_key_index sec f =
    Some (f\<lparr>attrib := (attrib f)\<lparr>key_index := drop_bit 6 (frame_data f ! (unat (hdrlen (attrib f)) + 3)) AND 0x3\<rparr>\<rparr>)"
proof -
  let ?i = "unat (hdrlen (attrib f)) + 3"
  have "rx_data f + ?i < length (buf f)" and "buf f ! (rx_data f + ?i) = frame_data f ! ?i"
    using assms by (auto simp: frame_wf_def frame_data_def)
  then show ?thesis
    using assms(2) key_index_le by (simp add: rx_set_key_index_def rd_def Let_def add.assoc)
qed

lemma decryptor_sw:
  assumes f: "frame_wf f" "\<not> bdecrypted (attrib f)" "has_key sec sta key f" and e: "is_ccmp e \<or> is_gcmp e" "encrypt (attrib f) = e"
    and d: "frame_data f = h @ iv @ c @ t" "length h = unat (hdrlen (attrib f))" "length iv = 8" "length c = length d" "2 \<le> length h"
    and dec: "\<And>p q. sw_dec e mem spp key (length h) (p @ h @ iv @ c @ t @ q) (length p) (len f) = Some (True, p @ h @ iv @ d @ t @ q)"
  shows "\<exists>sec' f'. decryptor mem spp sec (Some sta) f pool = Some (sec', Some f', pool) \<and> bdecrypted (attrib f') \<and>
    frame_data f' = h @ iv @ d @ t"
proof -
  obtain p q where b: "buf f = p @ frame_data f @ q" "length p = rx_data f" using f(1) by (rule frame_split)
  let ?ki = "drop_bit 6 (frame_data f ! (unat (hdrlen (attrib f)) + 3)) AND 0x3"
  define g where "g = f\<lparr>attrib := (attrib f)\<lparr>key_index := ?ki\<rparr>\<rparr>"
  have l: "len f = length h + 8 + length d + length t" using length_frame_data [OF f(1)] d by simp
  have ne: "e \<noteq> 0" using e(1) sw_types by blast
  have ki: "rx_set_key_index sec f = Some g"
    unfolding g_def by (rule rx_set_key_index_sw) (use f e(2) ne l d in \<open>auto simp: word_neq_0_conv\<close>)
  have key: "rx_key sec' sta g = Some (Some key)" if "sec' = sec \<or> sec' = sec\<lparr>hw_decrypted := False\<rparr>" for sec'
    using that f(3) by (auto simp: rx_key_def g_def has_key_def)
  define g' where "g' = g\<lparr>buf := p @ h @ iv @ d @ t @ q\<rparr>"
  have g: "buf g = p @ h @ iv @ c @ t @ q" "rx_data g = length p" "len g = len f" "encrypt (attrib g) = e"
    "unat (hdrlen (attrib g)) = length h" "\<not> bdecrypted (attrib g)"
    using b d f(2) e(2) by (simp_all add: g_def)
  have sw: "sw_decrypt mem spp sec' (Some sta) g = Some (True, g')"
    if "sec' = sec \<or> sec' = sec\<lparr>hw_decrypted := False\<rparr>" for sec'
    using sw_decrypt_sw [OF e(1) g(4) key [OF that], of mem spp] dec [of p q] by (simp add: g g'_def)
  obtain fc where fc: "RTW_GET_LE16 (buf g) (rx_data g) = Some fc"
    unfolding g using d(5) by (cases "h = []") (auto simp: RTW_GET_LE16_def rd_def)
  have "frame_data (g'\<lparr>attrib := (attrib g')\<lparr>bdecrypted := True\<rparr>\<rparr>) = h @ iv @ d @ t"
    using b(2) f(1) l d(3,4) by (auto simp: frame_data_def frame_wf_def g'_def g_def)
  moreover have "\<exists>sec'. decryptor mem spp sec (Some sta) f pool =
      Some (sec', Some (g'\<lparr>attrib := (attrib g')\<lparr>bdecrypted := True\<rparr>\<rparr>), pool)"
    using ki ne fc sw g(4,6) by (simp add: decryptor_def Let_def)
  ultimately show ?thesis by fastforce
qed

text \<open>C8: A frame of one fragment that \<open>xmitframe_swencrypt\<close> encrypts with CCMP or GCMP, key length 128 or 256, is
  decrypted by \<open>decryptor\<close> of a receiver with the same key to the original header, packet number and data; the frame is not
  given back to the pool, and no access leaves a buffer.\<close>

theorem sw_frames_roundtrip:
  assumes "sw_tx_ok sec key xf b" and "buf_addr xf = Some (addr, b)" and "\<And>n. mem n"
  shows "\<exists>b'. xmitframe_swencrypt mem spp sec frag_len True xf = Some (xf\<lparr>buf_addr := Some (addr, b')\<rparr>) \<and>
    (\<forall>rsec sta f pool. sw_rx_ok rsec sta key xf b' f \<longrightarrow>
      (\<exists>rsec' f'. decryptor mem spp rsec (Some sta) f pool = Some (rsec', Some f', pool) \<and> bdecrypted (attrib f') \<and>
         (let n = last_txcmdsz (x_attrib xf) - sw_mic_len (tx_encrypt (x_attrib xf))
          in take n (frame_data f') = take n (drop (hw_hdr_offset xf) b))))"
proof -
  let ?a = "x_attrib xf"
  let ?e = "tx_encrypt ?a" and ?off = "hw_hdr_offset xf" and ?sz = "last_txcmdsz ?a"
  note o = assms(1) [unfolded sw_tx_ok_def Let_def]
  obtain h iv d c t b' where s: "take ?sz (drop ?off b') = h @ iv @ c @ t" "take (?sz - sw_mic_len ?e) (drop ?off b) = h @ iv @ d"
    "length h = unat (tx_hdrlen ?a)" "length iv = 8" "length c = length d" "length t = sw_mic_len ?e"
    and enc: "xmitframe_swencrypt mem spp sec frag_len True xf = Some (xf\<lparr>buf_addr := Some (addr, b')\<rparr>)"
    and dec: "\<And>pre' post'. sw_dec ?e mem spp key (length h) (pre' @ h @ iv @ c @ t @ post') (length pre')
      (length h + 8 + length d + sw_mic_len ?e) = Some (True, pre' @ h @ iv @ d @ t @ post')"
    by (rule sw_frames [where mem = mem, OF assms, where spp = spp and frag_len = frag_len]) (rule that; assumption)
  have "length (take (?sz - sw_mic_len ?e) (drop ?off b)) = ?sz - sw_mic_len ?e" using o by auto
  then have n: "?sz - sw_mic_len ?e = length h + 8 + length d" unfolding s(2) using s(4) by simp
  show ?thesis
  proof (intro exI [of _ b'] conjI allI impI enc)
    fix rsec sta f pool
    assume "sw_rx_ok rsec sta key xf b' f"
    note r = this [unfolded sw_rx_ok_def s(1)]
    have l: "len f = length h + 8 + length d + sw_mic_len ?e" using length_frame_data [of f] r s by simp
    have "\<exists>sec' f'. decryptor mem spp rsec (Some sta) f pool = Some (sec', Some f', pool) \<and> bdecrypted (attrib f') \<and>
        frame_data f' = h @ iv @ d @ t"
      by (rule decryptor_sw [where key = key and e = ?e and c = c]) (use r o s dec l in auto)
    then show "\<exists>rsec' f'. decryptor mem spp rsec (Some sta) f pool = Some (rsec', Some f', pool) \<and> bdecrypted (attrib f') \<and>
       (let n = ?sz - sw_mic_len ?e in take n (frame_data f') = take n (drop ?off b))"
      unfolding Let_def s(2) using s(4) by (auto simp: n)
  qed
qed

definition ex_ccmp_tx :: xmit_frame where
  "ex_ccmp_tx = ex_wep_tx\<lparr>x_attrib := (x_attrib ex_wep_tx)\<lparr>tx_encrypt := AES_T, tx_iv_len := 8, tx_icv_len := 8, last_txcmdsz := 44\<rparr>,
     buf_addr := Some (4096, replicate 128 0x41)\<rparr>"

theorem sw_frames_roundtrip_witness:
  "sw_tx_ok ex_sec (replicate 32 5) ex_ccmp_tx (replicate 128 0x41) \<and>
   (\<exists>b'. xmitframe_swencrypt (\<lambda>n. True) False ex_sec 2000 True ex_ccmp_tx = Some (ex_ccmp_tx\<lparr>buf_addr := Some (4096, b')\<rparr>))"
proof -
  have ok: "sw_tx_ok ex_sec (replicate 32 5) ex_ccmp_tx (replicate 128 0x41)"
    by (simp add: sw_tx_ok_def ex_ccmp_tx_def ex_wep_tx_def hw_hdr_offset_def IS_MCAST_def is_ccmp_def sw_mic_len_def tx_key_def)
  moreover have "buf_addr ex_ccmp_tx = Some (4096, replicate 128 0x41)" by (simp add: ex_ccmp_tx_def)
  ultimately show ?thesis
    using sw_frames_roundtrip [where mem = "\<lambda>n. True", OF ok, of 4096 False 2000] by blast
qed

section \<open>When there is no memory\<close>

text \<open>The functions that encrypt a frame allocate the result; their failure is not looked at.\<close>

lemma sw_enc_no_mem:
  assumes "\<And>n. \<not> mem n"
  shows "sw_enc e mem spp key hlen b p n = Some (False, b)"
  by (simp add: sw_enc_def sw_ccmp_encrypt_def sw_gcmp_encrypt_def sw_encrypt_copy_def ccmp_encrypt_def ccmp_256_encrypt_def
      gcmp_encrypt_def frame_encrypt_def assms)

lemma sw_encrypt_loop_id:
  assumes "\<And>b p n. enc b p n = Some (False, b)"
  shows "sw_encrypt_loop enc a frag_len addr n p b = Some b"
  by (induction n arbitrary: p) (simp_all add: assms)

text \<open>C23: When memory for the encrypted copy cannot be allocated, \<open>xmitframe_swencrypt\<close> leaves a frame for CCMP or GCMP as it
  is, whatever its number of fragments, and tells its caller nothing: the bytes that are sent are those of the plain frame.\<close>

theorem sw_encrypt_fails_open:
  assumes "\<And>n. \<not> mem n" and "tx_encrypt (x_attrib xf) \<in> {AES_T, CCMP_256_T, GCMP_T, GCMP_256_T}"
    and "tx_key sec (x_attrib xf) = Some key"
  shows "xmitframe_swencrypt mem spp sec frag_len True xf = Some xf"
proof (cases "buf_addr xf")
  case None
  then show ?thesis by (simp add: xmitframe_swencrypt_def rtw_aes_encrypt_def rtw_gcmp_encrypt_def rtw_tkip_encrypt_def rtw_wep_encrypt_def Let_def)
next
  case (Some ab)
  obtain addr b where ab: "ab = (addr, b)" by (cases ab)
  have e: "is_ccmp (tx_encrypt (x_attrib xf)) \<or> is_gcmp (tx_encrypt (x_attrib xf))"
    using assms(2) by (auto simp: is_ccmp_def is_gcmp_def)
  show ?thesis
    using xmitframe_swencrypt_sw [OF e refl Some [unfolded ab] assms(3), of mem spp frag_len] Some ab
    by (simp add: sw_encrypt_loop_id [OF sw_enc_no_mem [OF assms(1)]])
qed

theorem sw_encrypt_fails_open_witness:
  "xmitframe_swencrypt (\<lambda>n. False) False ex_sec 2000 True ex_ccmp_tx = Some ex_ccmp_tx"
  by (rule sw_encrypt_fails_open [where key = "replicate 32 5"])
    (simp_all add: ex_ccmp_tx_def ex_wep_tx_def tx_key_def IS_MCAST_def)

end
