(* ===== verification/Spec2Isabelle.thy ===== *)
theory Spec2Isabelle
  imports Prelude Ie_Tlv Ie_Attr Recv_Frame Recv_Reorder Sec_Rc4 Sec_Tkip Recv_Defrag Recv_Check Crypto_Aes Crypto_Blocks Crypto_Frame Crypto_Ccm Crypto_Gcm Crypto_Omac Crypto_Sha256 Sec_Aes
begin

text \<open>
  A verification development for the RTL88x2BU wireless driver.
\<close>

end
